(* ===== verification/Prelude.thy ===== *)
theory Prelude
  imports Main "HOL-Library.Word"
begin

text \<open>
  Shared vocabulary of the development: the Python errors the code raises, the result type of
  code that may raise, the byte type, the list operations of Python that the modules use
  (negative slices, indexed writes), and the generic list and arithmetic lemmas that more than
  one component needs.  Nothing here models a file of \<^verbatim>\<open>src/\<close>.
\<close>

unbundle bit_operations_syntax

section \<open>Errors and results\<close>

text \<open>
  The exception classes the modelled code raises or catches.  Messages are not modelled: no
  code path of the program inspects them.
\<close>

datatype py_error =
    ValueError | ZeroDivisionError | TypeError | KeyError | IndexError | OverflowError | RuntimeError
  | AttributeError | AssertionError | StructError | HexError | UnicodeError | ImportError
  | OSError | QueueFull | EgressConfigError

text \<open>Code that may raise returns the error on the left, its value on the right.\<close>

type_synonym 'a res = "py_error + 'a"

fun rbind :: "'a res \<Rightarrow> ('a \<Rightarrow> 'b res) \<Rightarrow> 'b res" where
  "rbind (Inl e) f = Inl e"
| "rbind (Inr x) f = f x"

lemma rbind_Inr_iff: "rbind m f = Inr y \<longleftrightarrow> (\<exists>x. m = Inr x \<and> f x = Inr y)"
  by (cases m) auto

lemma rbind_Inl_iff: "rbind m f = Inl e \<longleftrightarrow> m = Inl e \<or> (\<exists>x. m = Inr x \<and> f x = Inl e)"
  by (cases m) auto

lemma rbind_assoc: "rbind (rbind m f) g = rbind m (\<lambda>x. rbind (f x) g)"
  by (cases m) auto

text \<open>A comprehension \<^verbatim>\<open>[f(x) for x in xs]\<close> whose body may raise: the first error wins.\<close>

fun mapr :: "('a \<Rightarrow> 'b res) \<Rightarrow> 'a list \<Rightarrow> 'b list res" where
  "mapr f [] = Inr []"
| "mapr f (x # xs) = rbind (f x) (\<lambda>y. rbind (mapr f xs) (\<lambda>ys. Inr (y # ys)))"

lemma mapr_Inr: "(\<And>x. x \<in> set xs \<Longrightarrow> f x = Inr (g x)) \<Longrightarrow> mapr f xs = Inr (map g xs)"
  by (induction xs) auto

lemma mapr_length: "mapr f xs = Inr ys \<Longrightarrow> length ys = length xs"
  by (induction xs arbitrary: ys) (auto simp: rbind_Inr_iff)

lemma mapr_InrD: "mapr f xs = Inr ys \<Longrightarrow> i < length xs \<Longrightarrow> f (xs ! i) = Inr (ys ! i)"
proof (induction xs arbitrary: ys i)
  case Nil
  then show ?case by simp
next
  case (Cons x xs)
  then show ?case by (cases i) (auto simp: rbind_Inr_iff)
qed

text \<open>
  A method that mutates its object: the object after the call, and the exception it left with, if
  any.  What was written before the exception stays written.
\<close>

type_synonym 's act = "'s \<Rightarrow> 's \<times> py_error option"

definition act_then :: "'s act \<Rightarrow> 's act \<Rightarrow> 's act" where
  "act_then f g s = (case f s of (s', None) \<Rightarrow> g s' | (s', Some e) \<Rightarrow> (s', Some e))"

definition act_pure :: "('s \<Rightarrow> 's) \<Rightarrow> 's act" where
  "act_pure f s = (f s, None)"

text \<open>Evaluate an expression that may raise, then go on with its value.\<close>

definition act_let :: "'a res \<Rightarrow> ('a \<Rightarrow> 's act) \<Rightarrow> 's act" where
  "act_let v f s = (case v of Inl e \<Rightarrow> (s, Some e) | Inr x \<Rightarrow> f x s)"

lemma fst_act_then:
  "fst (act_then f g s) = (if snd (f s) = None then fst (g (fst (f s))) else fst (f s))"
  by (simp add: act_then_def split: prod.split option.split)

lemma snd_act_then:
  "snd (act_then f g s) = (if snd (f s) = None then snd (g (fst (f s))) else snd (f s))"
  by (simp add: act_then_def split: prod.split option.split)

lemma act_then_assoc: "act_then (act_then f g) h = act_then f (act_then g h)"
  by (rule ext) (auto simp: act_then_def split: prod.splits option.splits)

lemma act_simps [simp]:
  "fst (act_pure f s) = f s" "snd (act_pure f s) = None"
  "act_let (Inl e) k s = (s, Some e)" "act_let (Inr x) k = k x"
  by (auto simp: act_pure_def act_let_def)

text \<open>An action that keeps the invariant on every path, the raising ones included.\<close>

definition keeps :: "('s \<Rightarrow> bool) \<Rightarrow> 's act \<Rightarrow> bool" where
  "keeps I f \<longleftrightarrow> (\<forall>s. I s \<longrightarrow> I (fst (f s)))"

lemma keeps_then: "keeps I f \<Longrightarrow> keeps I g \<Longrightarrow> keeps I (act_then f g)"
  by (simp add: keeps_def fst_act_then)

lemma keeps_let: "(\<And>x. v = Inr x \<Longrightarrow> keeps I (k x)) \<Longrightarrow> keeps I (act_let v k)"
  by (cases v) (simp_all add: keeps_def)

lemma keeps_if: "(\<And>s. c s \<Longrightarrow> I s \<Longrightarrow> I (fst (f s))) \<Longrightarrow> (\<And>s. \<not> c s \<Longrightarrow> I s \<Longrightarrow> I (fst (g s))) \<Longrightarrow>
    keeps I (\<lambda>s. if c s then f s else g s)"
  by (simp add: keeps_def)

lemma keeps_pure: "(\<And>s. I s \<Longrightarrow> I (f s)) \<Longrightarrow> keeps I (act_pure f)"
  by (simp add: keeps_def)

section \<open>Bytes\<close>

type_synonym byte = "8 word"

section \<open>Python list operations\<close>

text \<open>
  \<^verbatim>\<open>xs[-n:]\<close>.  For \<open>n = 0\<close> Python reads \<^verbatim>\<open>xs[0:]\<close>, the whole list.
\<close>

definition py_tail :: "nat \<Rightarrow> 'a list \<Rightarrow> 'a list" where
  "py_tail n xs = (if n = 0 then xs else drop (length xs - n) xs)"

text \<open>\<^verbatim>\<open>xs[:-n]\<close> for \<open>0 < n\<close>; for \<open>n = 0\<close> Python reads \<^verbatim>\<open>xs[:0]\<close>, the empty list.\<close>

definition py_front :: "nat \<Rightarrow> 'a list \<Rightarrow> 'a list" where
  "py_front n xs = (if n = 0 then [] else take (length xs - n) xs)"

lemma length_py_tail: "0 < n \<Longrightarrow> length (py_tail n xs) = min n (length xs)"
  by (simp add: py_tail_def)

lemma py_front_tail: "0 < n \<Longrightarrow> py_front n xs @ py_tail n xs = xs"
  by (simp add: py_front_def py_tail_def)

lemma py_tail_short: "length xs \<le> n \<Longrightarrow> py_tail n xs = xs"
  by (cases n) (simp_all add: py_tail_def)

text \<open>The last \<open>n\<close> elements of \<open>pad\<close> followed by \<open>xs\<close>.\<close>

definition left_pad :: "nat \<Rightarrow> 'a \<Rightarrow> 'a list \<Rightarrow> 'a list" where
  "left_pad n z xs = drop (length xs) (replicate n z @ xs)"

lemma length_left_pad [simp]: "length (left_pad n z xs) = n"
  by (simp add: left_pad_def)

lemma left_pad_short:
  "length xs \<le> n \<Longrightarrow> left_pad n z xs = replicate (n - length xs) z @ xs"
  by (simp add: left_pad_def)

lemma left_pad_long: "n \<le> length xs \<Longrightarrow> left_pad n z xs = drop (length xs - n) xs"
  by (simp add: left_pad_def)

lemma left_pad_snoc:
  assumes "0 < n"
  shows "left_pad n z (xs @ [x]) = tl (left_pad n z xs) @ [x]"
proof -
  have "drop (length (xs @ [x])) (replicate n z @ xs @ [x]) =
      tl (drop (length xs) (replicate n z @ xs @ [x]))"
    by (simp add: drop_Suc tl_drop del: drop_append)
  also have "drop (length xs) (replicate n z @ xs @ [x]) = left_pad n z xs @ [x]"
    by (subst append_assoc [symmetric], subst drop_append) (simp add: left_pad_def)
  finally show ?thesis
    using assms by (simp add: left_pad_def [of n z "xs @ [x]"] tl_append2 flip: length_0_conv)
qed

section \<open>Sliding windows\<close>

text \<open>
  What a ring buffer of fixed width promises: read out, a push drops the oldest element and adds
  the new one at the end.  A client sees the last \<open>W\<close> elements of what was pushed.
\<close>

locale sliding_window =
  fixes inv :: "'s \<Rightarrow> bool"
    and push :: "'a \<Rightarrow> 's \<Rightarrow> 's"
    and window :: "'s \<Rightarrow> 'a list"
    and width :: nat
  assumes width_pos: "0 < width"
    and push_inv: "inv s \<Longrightarrow> inv (push x s)"
    and window_push: "inv s \<Longrightarrow> window (push x s) = tl (window s) @ [x]"
begin

lemma pushes_inv: "inv s \<Longrightarrow> inv (fold push xs s)"
  by (induction xs arbitrary: s) (auto simp: push_inv)

lemma window_pushes:
  "inv s \<Longrightarrow> window s = left_pad width z hist \<Longrightarrow>
   window (fold push xs s) = left_pad width z (hist @ xs)"
proof (induction xs arbitrary: s hist)
  case Nil
  then show ?case by simp
next
  case (Cons x xs)
  then have "window (push x s) = left_pad width z (hist @ [x])"
    by (simp add: window_push left_pad_snoc width_pos)
  with Cons.IH [of "push x s" "hist @ [x]"] Cons.prems show ?case
    by (simp add: push_inv)
qed

end

section \<open>Generic lemmas\<close>

lemma nth_list_update_if:
  "i < length xs \<Longrightarrow> xs[i := x] ! j = (if j = i then x else xs ! j)"
  by (cases "j = i") auto

lemma int_div_bounds:
  assumes "0 < (q :: int)"
  shows "t div q * q \<le> t \<and> t < (t div q + 1) * q"
proof -
  define d r where "d = t div q" and "r = t mod q"
  have "t = q * d + r" "0 \<le> r" "r < q"
    using assms by (simp_all add: d_def r_def)
  then show ?thesis
    unfolding d_def [symmetric] by (simp add: algebra_simps)
qed

end
