(* ===== verification/ByteCodec.thy ===== *)
theory ByteCodec
  imports Prelude
begin

text \<open>
  Byte encodings: Python's \<^verbatim>\<open>int.to_bytes\<close>, \<^verbatim>\<open>int.from_bytes\<close> and \<^verbatim>\<open>struct.pack\<close> as the
  modules use them, the helpers \<^verbatim>\<open>_u16le\<close>, \<^verbatim>\<open>_u32le\<close> and the 8-byte token layout, and
  hexadecimal text (\<^verbatim>\<open>binascii.unhexlify\<close>, \<^verbatim>\<open>bytes.fromhex\<close>, \<^verbatim>\<open>bytes.hex\<close>).  The
  interface \<open>codec\<close> states what a fixed-width encoding promises; its lemmas (injectivity, the
  encoding of a list of values, unambiguous field boundaries) are proved once and interpreted
  for each layout.
\<close>

section \<open>Little- and big-endian integers\<close>

text \<open>\<^verbatim>\<open>n\<close> bytes of \<^verbatim>\<open>v\<close> in two's complement, least significant byte first.\<close>

primrec le_bytes :: "nat \<Rightarrow> int \<Rightarrow> byte list" where
  "le_bytes 0 v = []"
| "le_bytes (Suc n) v = word_of_int v # le_bytes n (v div 256)"

text \<open>\<^verbatim>\<open>int.from_bytes(bs, "little")\<close> and \<^verbatim>\<open>int.from_bytes(bs, "big")\<close>.\<close>

primrec from_le :: "byte list \<Rightarrow> int" where
  "from_le [] = 0"
| "from_le (b # bs) = uint b + 256 * from_le bs"

definition from_be :: "byte list \<Rightarrow> int" where
  "from_be bs = from_le (rev bs)"

text \<open>\<^verbatim>\<open>v.to_bytes(n, "little")\<close> and \<^verbatim>\<open>v.to_bytes(n, "big")\<close>: OverflowError out of range.\<close>

definition to_bytes_le :: "nat \<Rightarrow> int \<Rightarrow> byte list res" where
  "to_bytes_le n v = (if 0 \<le> v \<and> v < 256 ^ n then Inr (le_bytes n v) else Inl OverflowError)"

definition to_bytes_be :: "nat \<Rightarrow> int \<Rightarrow> byte list res" where
  "to_bytes_be n v = (if 0 \<le> v \<and> v < 256 ^ n then Inr (rev (le_bytes n v)) else Inl OverflowError)"

lemma length_le_bytes [simp]: "length (le_bytes n v) = n"
  by (induction n arbitrary: v) auto

lemma from_le_bounds: "0 \<le> from_le bs \<and> from_le bs < 256 ^ length bs"
proof (induction bs)
  case Nil
  then show ?case by simp
next
  case (Cons b bs)
  have "0 \<le> uint b" "uint b < 256"
    using uint_bounded [of b] by auto
  with Cons show ?case by auto
qed

lemma from_le_nonneg [simp]: "0 \<le> from_le bs"
  using from_le_bounds by blast

lemma from_le_less: "length bs = n \<Longrightarrow> from_le bs < 256 ^ n"
  using from_le_bounds by blast

lemma from_be_bounds: "0 \<le> from_be bs \<and> from_be bs < 256 ^ length bs"
  using from_le_bounds [of "rev bs"] by (simp add: from_be_def)

lemma from_le_le_bytes: "from_le (le_bytes n v) = v mod 256 ^ n"
proof (induction n arbitrary: v)
  case 0
  then show ?case by simp
next
  case (Suc n)
  have "uint (word_of_int v :: byte) = v mod 256"
    by (simp add: uint_word_of_int)
  with Suc show ?case
    by (simp add: mod_mult2_eq' zmod_zmult2_eq)
qed

lemma le_bytes_from_le: "le_bytes (length bs) (from_le bs) = bs"
proof (induction bs)
  case Nil
  then show ?case by simp
next
  case (Cons b bs)
  have r: "0 \<le> uint b" "uint b < 256"
    using uint_bounded [of b] by auto
  have "uint (word_of_int (uint b + 256 * from_le bs) :: byte) = (uint b + 256 * from_le bs) mod 256"
    by (simp only: uint_word_of_int) simp
  also have "\<dots> = uint b"
    using r by simp
  finally have "(word_of_int (uint b + 256 * from_le bs) :: byte) = b"
    by (rule word_uint_eqI)
  moreover have "(uint b + 256 * from_le bs) div 256 = from_le bs"
    using r by simp
  ultimately show ?case
    using Cons by simp
qed

lemma from_le_inj: "length xs = length ys \<Longrightarrow> from_le xs = from_le ys \<longleftrightarrow> xs = ys"
  by (metis le_bytes_from_le)

lemma le_bytes_mod: "le_bytes n (v mod 256 ^ n) = le_bytes n v"
  by (metis from_le_inj from_le_le_bytes length_le_bytes mod_mod_trivial)

lemma from_le_append: "from_le (xs @ ys) = from_le xs + 256 ^ length xs * from_le ys"
  by (induction xs) (auto simp: algebra_simps)

lemma from_be_snoc: "from_be (xs @ [b]) = uint b + 256 * from_be xs"
  by (simp add: from_be_def)

lemma from_be_Cons: "from_be (b # bs) = uint b * 256 ^ length bs + from_be bs"
  by (simp add: from_be_def from_le_append)

lemma to_bytes_le_Inr: "to_bytes_le n v = Inr bs \<Longrightarrow> length bs = n \<and> from_le bs = v"
  by (auto simp: to_bytes_le_def from_le_le_bytes split: if_splits)

lemma to_bytes_be_Inr: "to_bytes_be n v = Inr bs \<Longrightarrow> length bs = n \<and> from_be bs = v"
  by (auto simp: to_bytes_be_def from_be_def from_le_le_bytes split: if_splits)

section \<open>The codec interface\<close>

locale codec =
  fixes enc :: "'a \<Rightarrow> byte list"
    and dec :: "byte list \<Rightarrow> 'a"
    and ok :: "'a \<Rightarrow> bool"
    and width :: nat
  assumes width_pos: "0 < width"
    and enc_width: "length (enc x) = width"
    and dec_enc: "ok x \<Longrightarrow> dec (enc x) = x"
begin

lemma enc_inj: "ok x \<Longrightarrow> ok y \<Longrightarrow> enc x = enc y \<longleftrightarrow> x = y"
  by (metis dec_enc)

lemma length_encs: "length (concat (map enc xs)) = width * length xs"
  by (induction xs) (auto simp: enc_width)

lemma encs_inj:
  assumes "list_all ok xs" "list_all ok ys" "length xs = length ys"
  shows "concat (map enc xs) = concat (map enc ys) \<longleftrightarrow> xs = ys"
  using assms(3,1,2)
  by (induction xs ys rule: list_induct2) (auto simp: enc_width enc_inj)

lemma field_boundary:
  assumes "ok x" "ok y"
  shows "enc x @ us = enc y @ vs \<longleftrightarrow> x = y \<and> us = vs"
  using assms by (simp add: enc_width enc_inj)

lemma fields_boundary:
  assumes "list_all ok xs" "list_all ok ys" "length xs = length ys"
  shows "concat (map enc xs) @ us = concat (map enc ys) @ vs \<longleftrightarrow> xs = ys \<and> us = vs"
  using assms by (simp add: length_encs encs_inj)

end

section \<open>The layouts of the program\<close>

text \<open>\<^verbatim>\<open>_u16le(n) = struct.pack("<H", n)\<close>: raises outside the 16-bit range.\<close>

definition u16le :: "int \<Rightarrow> byte list res" where
  "u16le n = (if 0 \<le> n \<and> n < 2 ^ 16 then Inr (le_bytes 2 n) else Inl StructError)"

text \<open>\<^verbatim>\<open>_u32le(n) = struct.pack("<I", n & 0xFFFFFFFF)\<close>: never raises.\<close>

definition u32le :: "int \<Rightarrow> byte list" where
  "u32le n = le_bytes 4 (n AND 0xFFFFFFFF)"

text \<open>\<^verbatim>\<open>struct.pack("<q", t)\<close>: raises outside the signed 64-bit range.\<close>

definition i64le :: "int \<Rightarrow> byte list res" where
  "i64le t = (if - (2 ^ 63) \<le> t \<and> t < 2 ^ 63 then Inr (le_bytes 8 t) else Inl StructError)"

definition from_i64le :: "byte list \<Rightarrow> int" where
  "from_i64le bs = (let v = from_le bs in if v < 2 ^ 63 then v else v - 2 ^ 64)"

definition i64_ok :: "int \<Rightarrow> bool" where
  "i64_ok t \<longleftrightarrow> - (2 ^ 63) \<le> t \<and> t < 2 ^ 63"

definition u_ok :: "nat \<Rightarrow> int \<Rightarrow> bool" where
  "u_ok n v \<longleftrightarrow> 0 \<le> v \<and> v < 256 ^ n"

lemma and_mask_32: "(n :: int) AND 0xFFFFFFFF = n mod 2 ^ 32"
proof -
  have "(0xFFFFFFFF :: int) = mask 32"
    by (simp add: mask_eq_exp_minus_1)
  then show ?thesis
    by (simp only: take_bit_eq_mask [symmetric] take_bit_eq_mod)
qed

lemma u32le_eq: "u32le n = le_bytes 4 n"
proof -
  have "le_bytes 4 (n mod 256 ^ 4) = le_bytes 4 n"
    by (rule le_bytes_mod)
  then show ?thesis
    by (simp add: u32le_def and_mask_32)
qed

lemma length_u32le [simp]: "length (u32le n) = 4"
  by (simp add: u32le_def)

lemma from_le_u32le: "from_le (u32le n) = n mod 2 ^ 32"
  by (simp add: u32le_eq from_le_le_bytes)

lemma from_i64le_le_bytes:
  assumes "i64_ok t"
  shows "from_i64le (le_bytes 8 t) = t"
proof (cases "0 \<le> t")
  case True
  with assms have "t mod 256 ^ 8 = t"
    by (simp add: i64_ok_def)
  with True assms show ?thesis
    by (simp add: from_i64le_def from_le_le_bytes i64_ok_def)
next
  case False
  have "t mod 2 ^ 64 = (t + 2 ^ 64) mod 2 ^ 64"
    by simp
  also have "\<dots> = t + 2 ^ 64"
    using False assms by (intro mod_pos_pos_trivial) (auto simp: i64_ok_def)
  finally have m: "from_le (le_bytes 8 t) = t + 2 ^ 64"
    by (simp add: from_le_le_bytes)
  from assms have "\<not> t + 2 ^ 64 < 2 ^ 63"
    by (simp add: i64_ok_def)
  with m show ?thesis
    by (simp add: from_i64le_def)
qed

lemma i64le_Inr: "i64_ok t \<Longrightarrow> i64le t = Inr (le_bytes 8 t)"
  by (simp add: i64_ok_def i64le_def)

interpretation u16c: codec "le_bytes 2" from_le "u_ok 2" 2
  by unfold_locales (auto simp: u_ok_def from_le_le_bytes)

interpretation u32c: codec "le_bytes 4" from_le "u_ok 4" 4
  by unfold_locales (auto simp: u_ok_def from_le_le_bytes)

interpretation i64c: codec "le_bytes 8" from_i64le i64_ok 8
  by unfold_locales (auto simp: from_i64le_le_bytes)

end
