(* ===== verification/Hex.thy ===== *)
theory Hex
  imports ByteCodec
begin

text \<open>
  Hexadecimal text, as the program reads and writes it: \<^verbatim>\<open>binascii.unhexlify\<close> (job parameters,
  through \<^verbatim>\<open>hex_to_bytes_tensor\<close>), \<^verbatim>\<open>bytes.fromhex\<close> (admission inputs, proof fields),
  \<^verbatim>\<open>bytes.hex\<close>, the shape rule of admission nonces, and the normalisation of target strings to
  64 digits.  A Python \<^verbatim>\<open>str\<close> is a list of characters; the strings in question are ASCII.
\<close>

section \<open>Digits\<close>

definition hexval :: "char \<Rightarrow> nat option" where
  "hexval c = (let n = of_char c :: nat in
     if 48 \<le> n \<and> n \<le> 57 then Some (n - 48)
     else if 97 \<le> n \<and> n \<le> 102 then Some (n - 87)
     else if 65 \<le> n \<and> n \<le> 70 then Some (n - 55)
     else None)"

definition hexdig :: "nat \<Rightarrow> char" where
  "hexdig n = ''0123456789abcdef'' ! n"

lemma digits_all:
  assumes "list_all P [0..<16]" "n < (16 :: nat)"
  shows "P n"
  using assms by (auto simp: list_all_iff)

lemma hexval_hexdig: "n < 16 \<Longrightarrow> hexval (hexdig n) = Some n"
  by (rule digits_all) (simp_all add: hexval_def hexdig_def upt_rec)

lemma hexval_less: "hexval c = Some n \<Longrightarrow> n < 16"
  by (auto simp: hexval_def Let_def split: if_splits)

text \<open>The characters that count as digits of an admission nonce: lower case only.\<close>

definition nonce_digit :: "char \<Rightarrow> bool" where
  "nonce_digit c = (c \<in> set ''0123456789abcdef'')"

lemma nonce_digit_hexdig: "n < 16 \<Longrightarrow> nonce_digit (hexdig n)"
  by (rule digits_all) (simp_all add: nonce_digit_def hexdig_def upt_rec)

lemma nonce_digit_cases:
  assumes "nonce_digit c"
  obtains n where "n < 16" "c = hexdig n"
proof -
  have "length ''0123456789abcdef'' = 16" by simp
  moreover from assms obtain i
    where "i < length ''0123456789abcdef''" "''0123456789abcdef'' ! i = c"
    unfolding nonce_digit_def by (subst (asm) in_set_conv_nth) blast
  ultimately have "i < 16" "''0123456789abcdef'' ! i = c"
    by simp_all
  with that show thesis by (auto simp: hexdig_def)
qed

section \<open>Decoding and encoding\<close>

text \<open>\<^verbatim>\<open>binascii.unhexlify(s)\<close>: digit pairs, both cases, nothing else.\<close>

fun unhexlify :: "string \<Rightarrow> byte list res" where
  "unhexlify [] = Inr []"
| "unhexlify [c] = Inl HexError"
| "unhexlify (c # d # cs) =
     (case (hexval c, hexval d) of
        (Some h, Some l) \<Rightarrow> rbind (unhexlify cs) (\<lambda>bs. Inr (word_of_nat (16 * h + l) # bs))
      | _ \<Rightarrow> Inl HexError)"

text \<open>\<^verbatim>\<open>bytes.fromhex(s)\<close>: as above, but ASCII white space may separate the pairs.\<close>

definition ascii_space :: "char \<Rightarrow> bool" where
  "ascii_space c = ((of_char c :: nat) \<in> {9, 10, 11, 12, 13, 32})"

fun fromhex :: "string \<Rightarrow> byte list res" where
  "fromhex [] = Inr []"
| "fromhex (c # cs) =
     (if ascii_space c then fromhex cs
      else case cs of
        [] \<Rightarrow> Inl ValueError
      | d # ds \<Rightarrow>
          (case (hexval c, hexval d) of
             (Some h, Some l) \<Rightarrow> rbind (fromhex ds) (\<lambda>bs. Inr (word_of_nat (16 * h + l) # bs))
           | _ \<Rightarrow> Inl ValueError))"

text \<open>\<^verbatim>\<open>bs.hex()\<close>.\<close>

fun to_hex :: "byte list \<Rightarrow> string" where
  "to_hex [] = []"
| "to_hex (b # bs) = hexdig (unat b div 16) # hexdig (unat b mod 16) # to_hex bs"

lemma length_to_hex [simp]: "length (to_hex bs) = 2 * length bs"
  by (induction bs) auto

lemma unat_byte_less: "unat (b :: byte) < 256"
  using unsigned_less [of b, where ?'a = nat] by simp

lemma unhexlify_to_hex: "unhexlify (to_hex bs) = Inr bs"
proof (induction bs)
  case Nil
  then show ?case by simp
next
  case (Cons b bs)
  have "unat b div 16 < 16"
    using unat_byte_less [of b] by (simp add: less_mult_imp_div_less)
  moreover have "unat b mod 16 < 16" by simp
  moreover have "16 * (unat b div 16) + unat b mod 16 = unat b" by simp
  ultimately show ?case
    using Cons by (simp add: hexval_hexdig)
qed

lemma ascii_space_hexval: "hexval c = Some n \<Longrightarrow> \<not> ascii_space c"
  by (auto simp: hexval_def ascii_space_def Let_def split: if_splits)

text \<open>On strings that \<^verbatim>\<open>unhexlify\<close> accepts the two decoders agree.\<close>

lemma fromhex_unhexlify: "unhexlify s = Inr bs \<Longrightarrow> fromhex s = Inr bs"
proof (induction s arbitrary: bs rule: unhexlify.induct)
  case (3 c d cs)
  then show ?case
    by (auto split: option.splits simp: rbind_Inr_iff dest: ascii_space_hexval)
qed simp_all

lemma fromhex_to_hex: "fromhex (to_hex bs) = Inr bs"
  by (rule fromhex_unhexlify) (rule unhexlify_to_hex)

lemma unhexlify_length: "unhexlify s = Inr bs \<Longrightarrow> length s = 2 * length bs"
  by (induction s arbitrary: bs rule: unhexlify.induct)
    (auto split: option.splits simp: rbind_Inr_iff)

lemma unhexlify_append:
  "even (length s) \<Longrightarrow>
   unhexlify (s @ t) = rbind (unhexlify s) (\<lambda>bs. rbind (unhexlify t) (\<lambda>cs. Inr (bs @ cs)))"
proof (induction s rule: unhexlify.induct)
  case 1
  then show ?case by (cases "unhexlify t") auto
next
  case (3 c d cs)
  then show ?case
    by (cases "unhexlify cs"; cases "unhexlify t") (auto split: option.splits)
qed simp

lemma unhexlify_zeros: "unhexlify (replicate (2 * n) CHR ''0'') = Inr (replicate n 0)"
  by (induction n) (auto simp: hexval_def)

section \<open>The shape of an admission nonce\<close>

text \<open>\<^verbatim>\<open>is_valid_admission_nonce_hex\<close> on a string (any other JSON value is refused by the caller).\<close>

definition is_valid_admission_nonce_hex :: "string \<Rightarrow> bool" where
  "is_valid_admission_nonce_hex s = (length s = 64 \<and> list_all nonce_digit s)"

lemma nonce_digits_to_hex: "list_all nonce_digit (to_hex bs)"
proof (induction bs)
  case (Cons b bs)
  then show ?case
    using unat_byte_less [of b] by (simp add: nonce_digit_hexdig less_mult_imp_div_less)
qed simp

lemma nonce_digits_decode:
  "list_all nonce_digit s \<Longrightarrow> even (length s) \<Longrightarrow> \<exists>bs. s = to_hex bs"
proof (induction s rule: unhexlify.induct)
  case 1
  have "[] = to_hex []" by simp
  then show ?case by blast
next
  case (3 c d cs)
  then obtain h l where h: "h < 16" "c = hexdig h" and l: "l < 16" "d = hexdig l"
    by (auto elim!: nonce_digit_cases)
  from 3 h l obtain bs where bs: "cs = to_hex bs"
    by (cases "hexval c"; cases "hexval d") (auto simp: hexval_hexdig)
  from h l have "16 * h + l < 2 ^ LENGTH(8)" by simp
  then have "unat (word_of_nat (16 * h + l) :: byte) = 16 * h + l"
    by (simp only: unat_of_nat mod_less)
  with h l bs have "c # d # cs = to_hex (word_of_nat (16 * h + l) # bs)"
    by simp
  then show ?case by blast
qed simp

text \<open>
  The shape rule holds exactly for the lower-case encodings of 32 bytes, and decoding such a
  string gives these bytes back.
\<close>

lemma valid_nonce_hex_iff:
  "is_valid_admission_nonce_hex s \<longleftrightarrow> (\<exists>bs. length bs = 32 \<and> s = to_hex bs)"
proof
  assume s: "is_valid_admission_nonce_hex s"
  then obtain bs where "s = to_hex bs"
    using nonce_digits_decode [of s] by (auto simp: is_valid_admission_nonce_hex_def)
  with s show "\<exists>bs. length bs = 32 \<and> s = to_hex bs"
    by (auto simp: is_valid_admission_nonce_hex_def)
qed (auto simp: is_valid_admission_nonce_hex_def nonce_digits_to_hex)

section \<open>Target strings\<close>

text \<open>
  The recurring normalisation: pad with zeros on the left, or keep the last 64 characters.
\<close>

definition norm64 :: "string \<Rightarrow> string" where
  "norm64 s =
     (if length s < 64 then replicate (64 - length s) CHR ''0'' @ s
      else if 64 < length s then py_tail 64 s
      else s)"

lemma length_norm64 [simp]: "length (norm64 s) = 64"
  by (simp add: norm64_def length_py_tail)

lemma norm64_idem [simp]: "norm64 (norm64 s) = norm64 s"
  by (simp add: norm64_def [of "norm64 s"])

lemma from_be_replicate_0: "from_be (replicate n 0 @ bs) = from_be bs"
proof -
  have "from_le (replicate n 0) = 0"
    by (induction n) auto
  then show ?thesis
    by (simp add: from_be_def from_le_append)
qed

lemma norm64_value:
  assumes "unhexlify s = Inr bs" "length bs \<le> 32"
  shows "unhexlify (norm64 s) = Inr (replicate (32 - length bs) 0 @ bs)"
proof -
  from assms(1) have len: "length s = 2 * length bs"
    by (rule unhexlify_length)
  show ?thesis
  proof (cases "length s < 64")
    case True
    have "64 - length s = 2 * (32 - length bs)"
      using len by simp
    with True have "norm64 s = replicate (2 * (32 - length bs)) CHR ''0'' @ s"
      by (simp add: norm64_def)
    then show ?thesis
      by (simp add: unhexlify_append unhexlify_zeros assms(1) del: replicate.simps)
  next
    case False
    with len assms show ?thesis
      by (simp add: norm64_def)
  qed
qed

end
