(* ===== verification/Uint256.thy ===== *)
theory Uint256
  imports ByteCodec
begin

text \<open>
  \<^verbatim>\<open>vllm-miner/overlay/vllm/sampling/uint256_arithmetics.py\<close>: the compact ("nBits") encoding of
  256-bit targets, and the two routines that scale a target and pack it again.  Python integers
  are unbounded, so targets are \<^typ>\<open>int\<close>; the 256-bit limit appears where the code meets it,
  in \<^verbatim>\<open>to_bytes(32, "big")\<close>.
\<close>

section \<open>Bit lengths\<close>

fun nat_bits :: "nat \<Rightarrow> nat" where
  "nat_bits n = (if n = 0 then 0 else Suc (nat_bits (n div 2)))"

declare nat_bits.simps [simp del]

text \<open>\<^verbatim>\<open>v.bit_length()\<close>.\<close>

definition bit_length :: "int \<Rightarrow> nat" where
  "bit_length v = nat_bits (nat \<bar>v\<bar>)"

lemma nat_bits_le_iff: "nat_bits n \<le> k \<longleftrightarrow> n < 2 ^ k"
proof (induction n arbitrary: k rule: nat_bits.induct)
  case (1 n)
  show ?case
  proof (cases "n = 0")
    case True
    then show ?thesis by (simp add: nat_bits.simps)
  next
    case False
    show ?thesis
    proof (cases k)
      case 0
      with False show ?thesis by (simp add: nat_bits.simps [of n])
    next
      case (Suc j)
      have "nat_bits n \<le> k \<longleftrightarrow> n div 2 < 2 ^ j"
        using "1.IH" [OF False, of j] False Suc by (simp add: nat_bits.simps [of n])
      also have "\<dots> \<longleftrightarrow> n < 2 ^ k"
        using Suc by (simp add: div_less_iff_less_mult mult.commute)
      finally show ?thesis .
    qed
  qed
qed

lemma bit_length_le_iff: "0 \<le> v \<Longrightarrow> bit_length v \<le> k \<longleftrightarrow> v < 2 ^ k"
  by (simp add: bit_length_def nat_bits_le_iff nat_less_iff)

lemma bit_length_bounds:
  assumes "0 < v"
  shows "0 < bit_length v" "2 ^ (bit_length v - 1) \<le> v" "v < 2 ^ bit_length v"
proof -
  show p: "0 < bit_length v"
    using bit_length_le_iff [of v 0] assms by auto
  show "v < 2 ^ bit_length v"
    using bit_length_le_iff [of v "bit_length v"] assms by simp
  from p have "\<not> bit_length v \<le> bit_length v - 1"
    by simp
  then have "\<not> v < 2 ^ (bit_length v - 1)"
    using bit_length_le_iff [of v "bit_length v - 1"] assms by simp
  then show "2 ^ (bit_length v - 1) \<le> v"
    by simp
qed

text \<open>The number of bytes of a target, as \<^verbatim>\<open>(target.bit_length() + 7) // 8\<close>.\<close>

definition byte_size :: "int \<Rightarrow> nat" where
  "byte_size v = (bit_length v + 7) div 8"

lemma byte_size_bounds:
  assumes "0 < v"
  shows "0 < byte_size v" "256 ^ (byte_size v - 1) \<le> v" "v < 256 ^ byte_size v"
proof -
  have e: "(256 :: int) = 2 ^ 8" by simp
  show s: "0 < byte_size v"
    using bit_length_bounds(1) [OF assms] by (simp add: byte_size_def)
  have "bit_length v \<le> 8 * byte_size v"
    unfolding byte_size_def by presburger
  then have "(2 :: int) ^ bit_length v \<le> 2 ^ (8 * byte_size v)"
    by (intro power_increasing) auto
  also have "\<dots> = 256 ^ byte_size v"
    by (simp only: e power_mult)
  finally show "v < 256 ^ byte_size v"
    using bit_length_bounds(3) [OF assms] by simp
  have "8 * (byte_size v - 1) \<le> bit_length v - 1"
    unfolding byte_size_def by presburger
  then have "(2 :: int) ^ (8 * (byte_size v - 1)) \<le> 2 ^ (bit_length v - 1)"
    by (intro power_increasing) auto
  then have "256 ^ (byte_size v - 1) \<le> (2 :: int) ^ (bit_length v - 1)"
    by (simp only: e power_mult)
  then show "256 ^ (byte_size v - 1) \<le> v"
    using bit_length_bounds(2) [OF assms] by simp
qed

lemma byte_size_0 [simp]: "byte_size 0 = 0"
  by (simp add: byte_size_def bit_length_def nat_bits.simps)

section \<open>The routines\<close>

text \<open>
  \<^verbatim>\<open>set_compact(nCompact)\<close>: the target with the flags \<^verbatim>\<open>negative\<close> and \<^verbatim>\<open>overflow\<close>.
\<close>

definition set_compact :: "int \<Rightarrow> int \<times> bool \<times> bool" where
  "set_compact nCompact =
     (let exponent = drop_bit 24 nCompact;
          mantissa = nCompact AND 0x007fffff;
          negative = (nCompact AND 0x00800000 \<noteq> 0);
          target = (if exponent \<le> 3 then drop_bit (nat (8 * (3 - exponent))) mantissa
                    else push_bit (nat (8 * (exponent - 3))) mantissa);
          overflow = (if mantissa \<noteq> 0
                      then (if exponent > 34 then True
                            else exponent > 3 \<and> mantissa > push_bit (nat (8 * (exponent - 3))) 0xff)
                      else False)
      in (target, negative, overflow))"

text \<open>\<^verbatim>\<open>get_compact(target, negative)\<close>; a byte string argument is first read big-endian.\<close>

definition get_compact :: "int \<Rightarrow> bool \<Rightarrow> int" where
  "get_compact target negative =
     (let size = int (byte_size target);
          mantissa = (if size \<le> 3 then push_bit (nat (8 * (3 - size))) target
                      else drop_bit (nat (8 * (size - 3))) target);
          (mantissa, size) = (if mantissa AND 0x00800000 \<noteq> 0
                              then (drop_bit 8 mantissa, size + 1) else (mantissa, size));
          compact = push_bit 24 size OR (mantissa AND 0x007fffff)
      in if negative \<and> mantissa \<noteq> 0 then compact OR 0x00800000 else compact)"

definition get_compact_bytes :: "byte list \<Rightarrow> bool \<Rightarrow> int" where
  "get_compact_bytes bs negative = get_compact (from_be bs) negative"

text \<open>The dictionary both scaling routines return.\<close>

record adjusted =
  adj_nbits :: int
  adj_target_bytes :: "byte list"
  adj_overflow :: bool
  adj_negative :: bool

definition adjust_nbits_by_multiplier :: "int \<Rightarrow> int \<Rightarrow> int \<Rightarrow> adjusted res" where
  "adjust_nbits_by_multiplier nbits0 multiplier divider =
     (let (target, neg, _) = set_compact nbits0
      in if divider = 0 then Inl ZeroDivisionError
         else
           (let new_target = (target * multiplier) div divider;
                new_overflow = bit_length new_target > 256;
                new_nbits = get_compact new_target neg;
                (new_target2, neg2, _) = set_compact new_nbits
            in rbind (to_bytes_be 32 new_target2)
                 (\<lambda>tb. Inr \<lparr>adj_nbits = new_nbits, adj_target_bytes = tb, adj_overflow = new_overflow,
                             adj_negative = neg2\<rparr>)))"

text \<open>
  \<^verbatim>\<open>derive_adjusted_block_target\<close>: the three parameters that may be missing are options
  (\<^verbatim>\<open>None\<close> in Python), checked in the order of the source.
\<close>

definition positive_arg :: "int option \<Rightarrow> int res" where
  "positive_arg a = (case a of None \<Rightarrow> Inl ValueError
     | Some v \<Rightarrow> if v \<le> 0 then Inl ValueError else Inr v)"

definition derive_adjusted_block_target ::
    "int \<Rightarrow> int option \<Rightarrow> int option \<Rightarrow> int option \<Rightarrow> adjusted res" where
  "derive_adjusted_block_target base_nbits difficulty normalizer pow_limit_nbits =
     rbind (positive_arg difficulty) (\<lambda>d.
     rbind (positive_arg normalizer) (\<lambda>n.
     rbind (positive_arg pow_limit_nbits) (\<lambda>l.
       (let (base_target, neg, _) = set_compact base_nbits;
            (pow_limit_target, _, _) = set_compact l;
            adj = (base_target * n) div d;
            adj = (if adj > pow_limit_target then pow_limit_target else adj);
            new_nbits = get_compact adj neg;
            (new_target, neg2, ovf) = set_compact new_nbits
        in rbind (to_bytes_be 32 new_target)
             (\<lambda>tb. Inr \<lparr>adj_nbits = new_nbits, adj_target_bytes = tb, adj_overflow = ovf,
                         adj_negative = neg2\<rparr>)))))"

section \<open>Arithmetic form of the compact encoding\<close>

lemma push_or_add: "0 \<le> b \<Longrightarrow> b < 2 ^ n \<Longrightarrow> push_bit n a OR b = a * 2 ^ n + (b :: int)"
proof -
  assume b: "0 \<le> b" "b < 2 ^ n"
  then have t: "take_bit n b = b"
    by (simp add: take_bit_int_eq_self_iff)
  have "push_bit n a + b = push_bit n a OR b"
  proof (rule disjunctive_add_eq_or)
    have "push_bit n a AND take_bit n b = 0"
      by (simp add: bit_eq_iff bit_simps)
    then show "push_bit n a AND b = 0"
      by (simp add: t)
  qed
  then show ?thesis
    by (simp add: push_bit_eq_mult)
qed

lemma and_7fffff: "(n :: int) AND 0x7fffff = n mod 2 ^ 23"
proof -
  have "(0x7fffff :: int) = mask 23"
    by (simp add: mask_eq_exp_minus_1)
  then show ?thesis
    by (simp only: take_bit_eq_mask [symmetric] take_bit_eq_mod)
qed

lemma and_800000: "(n :: int) AND 0x800000 \<noteq> 0 \<longleftrightarrow> odd (n div 2 ^ 23)"
  using and_exp_eq_0_iff_not_bit [of n 23] by (simp add: bit_iff_odd)

lemma set_compact_eq:
  "set_compact n =
     (let e = n div 2 ^ 24; m = n mod 2 ^ 23
      in (if e \<le> 3 then m div 256 ^ nat (3 - e) else m * 256 ^ nat (e - 3),
          odd (n div 2 ^ 23),
          m \<noteq> 0 \<and> (e > 34 \<or> e = 4 \<and> m > 0xff00)))"
proof -
  define e m where "e = n div 2 ^ 24" and "m = n mod 2 ^ 23"
  have d: "drop_bit 24 n = e" and a: "n AND 0x7fffff = m"
    by (simp_all only: e_def m_def drop_bit_eq_div and_7fffff)
  have m: "0 \<le> m" "m < 2 ^ 23"
    by (simp_all add: m_def)
  have p: "(2 :: int) ^ nat (8 * k) = 256 ^ nat k" if "0 \<le> k" for k
    using that by (simp add: nat_mult_distrib power_mult)
  have t: "(if e \<le> 3 then drop_bit (nat (8 * (3 - e))) m else push_bit (nat (8 * (e - 3))) m) =
      (if e \<le> 3 then m div 256 ^ nat (3 - e) else m * 256 ^ nat (e - 3))"
  proof (cases "e \<le> 3")
    case True
    with p [of "3 - e"] show ?thesis by (simp only: drop_bit_eq_div if_True diff_ge_0_iff_ge)
  next
    case False
    then have "0 \<le> e - 3" by simp
    with p [of "e - 3"] False show ?thesis by (simp only: push_bit_eq_mult if_False)
  qed
  have big: "\<not> m > 255 * 256 ^ nat (e - 3)" if "e > 4"
  proof -
    have "(256 :: int) ^ 2 \<le> 256 ^ nat (e - 3)"
      using that by (intro power_increasing) auto
    with m show ?thesis by simp
  qed
  have o: "(if m \<noteq> 0 then (if e > 34 then True
        else e > 3 \<and> m > push_bit (nat (8 * (e - 3))) 0xff) else False) \<longleftrightarrow>
      m \<noteq> 0 \<and> (e > 34 \<or> e = 4 \<and> m > 0xff00)"
  proof (cases "e = 4")
    case True
    then show ?thesis by (simp add: push_bit_eq_mult)
  next
    case False
    with big p [of "e - 3"] show ?thesis
      by (cases "e > 4") (auto simp: push_bit_eq_mult)
  qed
  show ?thesis
    unfolding set_compact_def Let_def d a and_800000 t o
    by (simp only: e_def m_def)
qed


text \<open>The value a compact number with exponent \<open>e\<close> and mantissa \<open>m\<close> stands for.\<close>

definition compact_value :: "nat \<Rightarrow> int \<Rightarrow> int" where
  "compact_value e m = (if e \<le> 3 then m div 256 ^ (3 - e) else m * 256 ^ (e - 3))"

lemma set_compact_parts:
  assumes "0 \<le> m" "m < 2 ^ 23"
  shows "set_compact (int e * 2 ^ 24 + of_bool s * 2 ^ 23 + m) =
    (compact_value e m, s, m \<noteq> 0 \<and> (e > 34 \<or> e = 4 \<and> m > 0xff00))"
proof -
  let ?n = "int e * 2 ^ 24 + of_bool s * 2 ^ 23 + m"
  have r: "0 \<le> of_bool s * 2 ^ 23 + m" "of_bool s * 2 ^ 23 + m < (2 :: int) ^ 24"
    using assms by (cases s; simp)+
  have e: "?n div 2 ^ 24 = int e"
    using r by (simp add: add.assoc)
  have "?n = (2 * int e + of_bool s) * 2 ^ 23 + m"
    by simp
  then have q: "?n div 2 ^ 23 = 2 * int e + of_bool s" and m: "?n mod 2 ^ 23 = m"
    using assms by (simp_all only: mod_mult_self3 div_mult_self3 mod_pos_pos_trivial) simp_all
  have "nat (3 - int e) = 3 - e" "nat (int e - 3) = e - 3"
    by simp_all
  then show ?thesis
    unfolding set_compact_eq e q m Let_def by (auto simp: compact_value_def)
qed

lemma get_compact_0 [simp]: "get_compact 0 neg = 0"
  by (simp add: get_compact_def)

text \<open>
  Exponent and mantissa are determined by the target: the mantissa has its top 16 significant
  bits in place, and the target is the mantissa shifted, with the low bytes cut off.
\<close>

definition compact_spec :: "int \<Rightarrow> nat \<Rightarrow> int \<Rightarrow> bool" where
  "compact_spec t e m \<longleftrightarrow> 2 ^ 15 \<le> m \<and> m < 2 ^ 23 \<and> 0 < e \<and>
     m = (if e \<le> 3 then t * 256 ^ (3 - e) else t div 256 ^ (e - 3))"

lemma get_compact_parts:
  assumes t: "0 < t"
  obtains e m where
    "get_compact t neg = int e * 2 ^ 24 + of_bool neg * 2 ^ 23 + m" "compact_spec t e m"
proof -
  define z where "z = byte_size t"
  have z: "0 < z" "256 ^ (z - 1) \<le> t" "t < 256 ^ z"
    using byte_size_bounds [OF t] by (simp_all add: z_def)
  define a where "a = (if z \<le> 3 then t * 256 ^ (3 - z) else t div 256 ^ (z - 3))"
  have a: "2 ^ 16 \<le> a" "a < 2 ^ 24"
  proof -
    show "2 ^ 16 \<le> a"
    proof (cases "z \<le> 3")
      case True
      have "256 ^ (z - 1) * 256 ^ (3 - z) = (256 :: int) ^ 2"
        using True z(1) by (simp flip: power_add)
      then show ?thesis
        using True z(2) mult_right_mono [of "256 ^ (z - 1)" t "256 ^ (3 - z)"] by (simp add: a_def)
    next
      case False
      have "256 ^ (z - 1) div 256 ^ (z - 3) = (256 :: int) ^ 2"
        using False by (simp flip: power_diff)
      then show ?thesis
        using False z(2) zdiv_mono1 [of "256 ^ (z - 1)" t "256 ^ (z - 3)"] by (simp add: a_def)
    qed
    show "a < 2 ^ 24"
    proof (cases "z \<le> 3")
      case True
      have "256 ^ z * 256 ^ (3 - z) = (256 :: int) ^ 3"
        using True by (simp flip: power_add)
      then show ?thesis
        using True z(3) mult_strict_right_mono [of t "256 ^ z" "256 ^ (3 - z)"] by (simp add: a_def)
    next
      case False
      have "256 ^ 3 * 256 ^ (z - 3) = (256 :: int) ^ (3 + (z - 3))"
        by (simp only: power_add)
      moreover have "t div 256 ^ (z - 3) * 256 ^ (z - 3) \<le> t"
        by (simp add: minus_mod_eq_div_mult [symmetric])
      ultimately have "t div 256 ^ (z - 3) * 256 ^ (z - 3) < 256 ^ 3 * 256 ^ (z - 3)"
        using False z(3) by simp
      then show ?thesis
        using False by (simp add: a_def)
    qed
  qed
  define up where "up = (2 ^ 23 \<le> a)"
  define e m where "e = (if up then Suc z else z)" and "m = (if up then a div 256 else a)"
  have m: "2 ^ 15 \<le> m" "m < 2 ^ 23"
    using a by (auto simp: m_def up_def)
  show thesis
  proof (rule that [of e m])
    have "m = (if e \<le> 3 then t * 256 ^ (3 - e) else t div 256 ^ (e - 3))"
    proof (cases "3 < z")
      case True
      have "t div 256 ^ (z - 3) div 256 = t div (256 ^ (z - 3) * 256)"
        by (simp only: zdiv_zmult2_eq)
      also have "256 ^ (z - 3) * 256 = (256 :: int) ^ Suc (z - 3)"
        by simp
      also have "Suc (z - 3) = Suc z - 3"
        using True by simp
      finally show ?thesis
        using True by (simp add: e_def m_def a_def)
    next
      case False
      with z(1) consider "z = 3" | "z < 3" by linarith
      then show ?thesis
      proof cases
        case 1
        then show ?thesis by (simp add: e_def m_def a_def)
      next
        case 2
        then have "3 - z = Suc (2 - z)" by simp
        then have "(256 :: int) ^ (3 - z) = 256 * 256 ^ (2 - z)" by simp
        with 2 show ?thesis by (simp add: e_def m_def a_def)
      qed
    qed
    with m z(1) show "compact_spec t e m"
      unfolding compact_spec_def by (auto simp: e_def)
    show "get_compact t neg = int e * 2 ^ 24 + of_bool neg * 2 ^ 23 + m"
    proof -
      have z3: "int z \<le> 3 \<longleftrightarrow> z \<le> 3" "nat (8 * (3 - int z)) = 8 * (3 - z)"
        "nat (8 * (int z - 3)) = 8 * (z - 3)"
        by (simp_all add: nat_diff_distrib' nat_mult_distrib)
      have p: "(2 :: int) ^ (8 * k) = 256 ^ k" for k
        by (simp add: power_mult)
      have a': "(if int z \<le> 3 then push_bit (nat (8 * (3 - int z))) t
          else drop_bit (nat (8 * (int z - 3))) t) = a"
        unfolding z3 a_def by (simp only: push_bit_eq_mult drop_bit_eq_div p)
      have u: "(a AND 0x800000 \<noteq> 0) = up"
      proof -
        have "a div 2 ^ 23 = of_bool up"
          using a by (auto simp: up_def)
        then show ?thesis
          unfolding and_800000 by simp
      qed
      have mm: "(if up then (drop_bit 8 a, int z + 1) else (a, int z)) = (m, int e)"
        by (simp add: e_def m_def drop_bit_eq_div)
      have c: "push_bit 24 (int e) OR (m AND 0x7fffff) = int e * 2 ^ 24 + m"
        using m push_or_add [of m 24 "int e"] by (simp add: and_7fffff)
      have n: "(int e * 2 ^ 24 + m) OR 0x800000 = int e * 2 ^ 24 + 2 ^ 23 + m"
      proof -
        have "push_bit 23 (2 * int e) OR push_bit 23 1 = push_bit 23 (2 * int e + 1)"
        proof -
          have "2 * int e OR 1 = 2 * int e + 1"
            using push_or_add [of 1 1 "int e"] by (simp add: push_bit_eq_mult mult.commute)
          then show ?thesis by (simp only: push_bit_or [symmetric])
        qed
        note o1 = this
        have "int e * 2 ^ 24 + m = push_bit 23 (2 * int e) OR m"
          using m push_or_add [of m 23 "2 * int e"] by simp
        then have "(int e * 2 ^ 24 + m) OR 0x800000 = (push_bit 23 (2 * int e) OR m) OR push_bit 23 1"
          by (simp only: push_bit_eq_mult) simp
        also have "\<dots> = (push_bit 23 (2 * int e) OR push_bit 23 1) OR m"
          by (simp only: or.assoc or.commute or.left_commute)
        finally have "(int e * 2 ^ 24 + m) OR 0x800000 = push_bit 23 (2 * int e + 1) OR m"
          by (simp only: o1)
        then show ?thesis
          using m push_or_add [of m 23 "2 * int e + 1"] by simp
      qed
      show ?thesis
        unfolding get_compact_def Let_def z_def [symmetric] a' u mm prod.case c
        using m n by simp
    qed
  qed
qed


lemma compact_spec_value:
  "compact_spec t e m \<Longrightarrow> compact_value e m = t div 256 ^ (e - 3) * 256 ^ (e - 3)"
  by (auto simp: compact_spec_def compact_value_def)

lemma pow256_split: "3 \<le> e \<Longrightarrow> (256 :: int) ^ e = 256 ^ (e - 3) * 256 ^ 3"
  by (simp only: power_add [symmetric]) simp

lemma compact_spec_range:
  assumes "compact_spec t e m"
  shows "2 ^ 15 * 256 ^ e \<le> t * 256 ^ 3" "t * 256 ^ 3 < 2 ^ 23 * 256 ^ e"
proof -
  from assms have m: "2 ^ 15 \<le> m" "m + 1 \<le> 2 ^ 23"
    by (auto simp: compact_spec_def)
  have "m * 256 ^ e \<le> t * 256 ^ 3 \<and> t * 256 ^ 3 < (m + 1) * 256 ^ e"
  proof (cases "e \<le> 3")
    case True
    have "(256 :: int) ^ (3 - e) * 256 ^ e = 256 ^ 3"
      using True by (simp flip: power_add)
    with True assms show ?thesis
      by (simp add: compact_spec_def mult.assoc distrib_right)
  next
    case False
    then have e: "(256 :: int) ^ e = 256 ^ (e - 3) * 256 ^ 3"
      by (intro pow256_split) simp
    have "m * 256 ^ (e - 3) \<le> t" "t < (m + 1) * 256 ^ (e - 3)"
      using False assms int_div_bounds [of "256 ^ (e - 3)" t] by (auto simp: compact_spec_def)
    then show ?thesis
      unfolding e by simp
  qed
  moreover have "2 ^ 15 * 256 ^ e \<le> m * 256 ^ e" "(m + 1) * 256 ^ e \<le> 2 ^ 23 * 256 ^ e"
    using m by (auto intro!: mult_right_mono)
  ultimately show "2 ^ 15 * 256 ^ e \<le> t * 256 ^ 3" "t * 256 ^ 3 < 2 ^ 23 * 256 ^ e"
    by linarith+
qed

lemma compact_spec_exponent:
  assumes "compact_spec t e m" "compact_spec t e' m'"
  shows "e \<le> e'"
proof (rule ccontr)
  assume "\<not> e \<le> e'"
  then have "(256 :: int) ^ Suc e' \<le> 256 ^ e"
    by (intro power_increasing) auto
  with compact_spec_range(1) [OF assms(1)] compact_spec_range(2) [OF assms(2)]
  show False by simp
qed

lemma compact_spec_unique:
  "compact_spec t e m \<Longrightarrow> compact_spec t e' m' \<Longrightarrow> e = e' \<and> m = m'"
  using compact_spec_exponent [of t e m e' m'] compact_spec_exponent [of t e' m' e m]
  by (auto simp: compact_spec_def)

lemma decode_get_compact:
  assumes "0 < t"
  obtains e m where "compact_spec t e m"
    "set_compact (get_compact t neg) =
      (compact_value e m, neg, e > 34 \<or> e = 4 \<and> m > 0xff00)"
proof -
  obtain e m where g: "get_compact t neg = int e * 2 ^ 24 + of_bool neg * 2 ^ 23 + m"
    and s: "compact_spec t e m"
    by (rule get_compact_parts [OF assms])
  from s have "set_compact (get_compact t neg) =
      (compact_value e m, neg, m \<noteq> 0 \<and> (e > 34 \<or> e = 4 \<and> m > 0xff00))"
    unfolding g by (intro set_compact_parts) (auto simp: compact_spec_def)
  moreover from s have "m \<noteq> 0" by (auto simp: compact_spec_def)
  ultimately show thesis using s that by simp
qed

lemma compact_value_bounds:
  assumes "0 < t" "compact_spec t e m"
  shows "0 < compact_value e m" "compact_value e m \<le> t" "(t - compact_value e m) * 2 ^ 15 \<le> t"
proof -
  have v: "compact_value e m = t - t mod 256 ^ (e - 3)"
    using assms(2) by (simp add: compact_spec_value minus_mod_eq_div_mult)
  then show "compact_value e m \<le> t" by simp
  have r: "0 \<le> t mod 256 ^ (e - 3)" "t mod 256 ^ (e - 3) < 256 ^ (e - 3)" by simp_all
  show "0 < compact_value e m" "(t - compact_value e m) * 2 ^ 15 \<le> t"
  proof -
    show "(t - compact_value e m) * 2 ^ 15 \<le> t"
    proof (cases "e \<le> 3")
      case True
      with v assms(1) show ?thesis by simp
    next
      case False
      then have e: "(256 :: int) ^ e = 256 ^ (e - 3) * 256 ^ 3"
        by (intro pow256_split) simp
      have "2 ^ 15 * 256 ^ (e - 3) \<le> t"
        using compact_spec_range(1) [OF assms(2)] by (simp add: e)
      moreover have "t mod 256 ^ (e - 3) * 2 ^ 15 \<le> 256 ^ (e - 3) * 2 ^ 15"
        by (rule mult_right_mono [OF less_imp_le [OF r(2)]]) simp
      ultimately show ?thesis unfolding v by simp
    qed
    with assms(1) show "0 < compact_value e m" by simp
  qed
qed


section \<open>Properties\<close>

lemma decode_get_compact_bounds:
  assumes "0 \<le> t" "set_compact (get_compact t neg) = (t', neg', ovf)"
  shows "0 \<le> t'" "t' \<le> t" "(t - t') * 2 ^ 15 \<le> t" "neg' = (neg \<and> t \<noteq> 0)"
proof -
  have "0 \<le> t' \<and> t' \<le> t \<and> (t - t') * 2 ^ 15 \<le> t \<and> neg' = (neg \<and> t \<noteq> 0)"
  proof (cases "t = 0")
    case True
    with assms(2) show ?thesis by (auto simp: set_compact_eq)
  next
    case False
    with assms(1) have t: "0 < t" by simp
    obtain e m where s: "compact_spec t e m"
      and d: "set_compact (get_compact t neg) =
        (compact_value e m, neg, e > 34 \<or> e = 4 \<and> m > 0xff00)"
      by (rule decode_get_compact [OF t])
    from d assms(2) have "t' = compact_value e m" "neg' = neg" by simp_all
    with compact_value_bounds [OF t s] False show ?thesis by simp
  qed
  then show "0 \<le> t'" "t' \<le> t" "(t - t') * 2 ^ 15 \<le> t" "neg' = (neg \<and> t \<noteq> 0)" by blast+
qed

text \<open>Packing a target and reading it back never raises the target, keeps its sign, and
  loses less than one part in 32768.\<close>

theorem compact_round_trip:
  assumes "0 \<le> t"
  shows "case set_compact (get_compact t neg) of (t', neg', _) \<Rightarrow>
    0 \<le> t' \<and> t' \<le> t \<and> (t - t') * 2 ^ 15 \<le> t \<and> neg' = (neg \<and> t \<noteq> 0)"
  using decode_get_compact_bounds [OF assms, of neg] by (auto split: prod.split)

theorem compact_round_trip_witness:
  "(0 :: int) \<le> 2147483649 \<and>
   (case set_compact (get_compact 2147483649 False) of (t', neg', _) \<Rightarrow>
    0 \<le> t' \<and> t' \<le> 2147483649 \<and> (2147483649 - t') * 2 ^ 15 \<le> 2147483649 \<and>
    neg' = (False \<and> (2147483649 :: int) \<noteq> 0)) \<and>
   fst (set_compact (get_compact 2147483649 False)) = 2147483648"
proof -
  have "fst (set_compact (get_compact 2147483649 False)) = 2147483648"
    by (simp add: get_compact_def byte_size_def bit_length_def nat_bits.simps set_compact_def)
  then show ?thesis using compact_round_trip [of 2147483649 False] by simp
qed

text \<open>Once packed, a target is a fixed point: reading and packing it again gives the same
  compact number.\<close>

theorem compact_canonical:
  assumes "0 \<le> t"
  shows "get_compact (fst (set_compact (get_compact t neg))) neg = get_compact t neg"
proof (cases "t = 0")
  case True
  then show ?thesis by (simp add: set_compact_eq)
next
  case False
  with assms have t: "0 < t" by simp
  obtain e m where g: "get_compact t neg = int e * 2 ^ 24 + of_bool neg * 2 ^ 23 + m"
    and s: "compact_spec t e m"
    by (rule get_compact_parts [OF t])
  from s have d: "set_compact (get_compact t neg) =
      (compact_value e m, neg, m \<noteq> 0 \<and> (e > 34 \<or> e = 4 \<and> m > 0xff00))"
    unfolding g by (intro set_compact_parts) (auto simp: compact_spec_def)
  have s': "compact_spec (compact_value e m) e m"
    using s by (auto simp: compact_spec_def compact_value_def)
  obtain e' m' where
    g': "get_compact (compact_value e m) neg = int e' * 2 ^ 24 + of_bool neg * 2 ^ 23 + m'"
    and u: "compact_spec (compact_value e m) e' m'"
    by (rule get_compact_parts [OF compact_value_bounds(1) [OF t s]])
  from compact_spec_unique [OF s' u] show ?thesis
    unfolding d fst_conv unfolding g g' by simp
qed

theorem compact_canonical_witness:
  "(0 :: int) \<le> 2147483649 \<and>
   get_compact (fst (set_compact (get_compact 2147483649 True))) True = get_compact 2147483649 True"
  using compact_canonical [of 2147483649 True] by simp

text \<open>What the overflow flag of \<^verbatim>\<open>set_compact\<close> means: the exponent exceeds 34, or it is 4
  and the mantissa exceeds \<open>0xff00\<close>.  The C++ rule the comment refers to also covers exponents
  33 and 34, and does not flag exponent 4.\<close>

theorem set_compact_overflow_flag:
  "snd (snd (set_compact n)) \<longleftrightarrow>
     n mod 2 ^ 23 \<noteq> 0 \<and> (n div 2 ^ 24 > 34 \<or> n div 2 ^ 24 = 4 \<and> n mod 2 ^ 23 > 0xff00)"
  by (simp add: set_compact_eq Let_def)


lemma set_compact_nonneg: "0 \<le> fst (set_compact n)"
  by (simp add: set_compact_eq Let_def pos_imp_zdiv_nonneg_iff)

text \<open>Every packed target that does not fit in 256 bits fails to convert to 32 bytes.\<close>

lemma compact_value_256:
  assumes "compact_spec t e m" "2 ^ 256 \<le> t"
  shows "2 ^ 256 \<le> compact_value e m"
proof (cases "e \<le> 35")
  case True
  have p: "(2 :: int) ^ 256 = 256 ^ (32 - (e - 3)) * 256 ^ (e - 3)"
    using True by (simp flip: power_add)
  have "256 ^ (32 - (e - 3)) \<le> t div 256 ^ (e - 3)"
    using zdiv_mono1 [OF assms(2) [unfolded p], of "256 ^ (e - 3)"] by simp
  then have "256 ^ (32 - (e - 3)) * 256 ^ (e - 3) \<le> t div 256 ^ (e - 3) * 256 ^ (e - 3)"
    by (intro mult_right_mono) auto
  then show ?thesis
    by (simp only: p compact_spec_value [OF assms(1)])
next
  case False
  then have "(256 :: int) ^ 32 \<le> 256 ^ (e - 3)"
    by (intro power_increasing) auto
  also have "\<dots> \<le> m * 256 ^ (e - 3)"
    using assms(1) by (auto simp: compact_spec_def)
  finally show ?thesis
    using False by (simp add: compact_value_def)
qed

text \<open>For a non-negative multiplier and a positive divider, \<^verbatim>\<open>adjust_nbits_by_multiplier\<close>
  returns exactly when the scaled target fits in 256 bits; otherwise \<^verbatim>\<open>to_bytes\<close> raises.  So the
  \<^verbatim>\<open>overflow\<close> flag of a returned dictionary is never set.\<close>

theorem adjust_overflow_never_returned:
  assumes "0 \<le> multiplier" "0 < divider"
  shows "case adjust_nbits_by_multiplier b multiplier divider of
      Inl err \<Rightarrow> err = OverflowError \<and> 2 ^ 256 \<le> fst (set_compact b) * multiplier div divider
    | Inr r \<Rightarrow> \<not> adj_overflow r \<and> fst (set_compact b) * multiplier div divider < 2 ^ 256 \<and>
        from_be (adj_target_bytes r) \<le> fst (set_compact b) * multiplier div divider"
proof -
  obtain bt neg ob where b: "set_compact b = (bt, neg, ob)"
    by (cases "set_compact b")
  define t where "t = bt * multiplier div divider"
  have t: "0 \<le> t"
    using assms set_compact_nonneg [of b] by (simp add: t_def b pos_imp_zdiv_nonneg_iff)
  obtain t' neg' ovf where d: "set_compact (get_compact t neg) = (t', neg', ovf)"
    by (cases "set_compact (get_compact t neg)")
  note bounds = decode_get_compact_bounds [OF t d]
  have big: "2 ^ 256 \<le> t' \<longleftrightarrow> 2 ^ 256 \<le> t"
  proof
    assume "2 ^ 256 \<le> t"
    then have "0 < t" by simp
    then obtain e m where "compact_spec t e m" "set_compact (get_compact t neg) =
        (compact_value e m, neg, e > 34 \<or> e = 4 \<and> m > 0xff00)"
      by (rule decode_get_compact)
    with d have "compact_spec t e m" "t' = compact_value e m" by simp_all
    with compact_value_256 \<open>2 ^ 256 \<le> t\<close> show "2 ^ 256 \<le> t'" by blast
  qed (use bounds in simp)
  have bl: "bit_length t > 256 \<longleftrightarrow> 2 ^ 256 \<le> t"
    using bit_length_le_iff [OF t, of 256] by linarith
  show ?thesis
    using assms(2) bounds big bl
    by (auto simp: adjust_nbits_by_multiplier_def b t_def [symmetric] d to_bytes_be_def
        from_be_def from_le_le_bytes)
qed


theorem adjust_overflow_never_returned_witness:
  "(0 :: int) \<le> 3 \<and> (0 :: int) < 2 \<and>
   (case adjust_nbits_by_multiplier 486604799 3 2 of
      Inl err \<Rightarrow> err = OverflowError \<and> 2 ^ 256 \<le> fst (set_compact 486604799) * 3 div 2
    | Inr r \<Rightarrow> \<not> adj_overflow r \<and> fst (set_compact 486604799) * 3 div 2 < 2 ^ 256 \<and>
        from_be (adj_target_bytes r) \<le> fst (set_compact 486604799) * 3 div 2)"
  using adjust_overflow_never_returned [of 3 2 486604799] by simp

text \<open>The block target the consensus rule allows: base times \<open>N\<close> over \<open>D\<close>, capped at the limit.\<close>

definition consensus_target :: "int \<Rightarrow> int \<Rightarrow> int \<Rightarrow> int \<Rightarrow> int" where
  "consensus_target b d n l =
     min (fst (set_compact l)) (fst (set_compact b) * n div d)"

lemma consensus_target_nonneg: "0 < d \<Longrightarrow> 0 < n \<Longrightarrow> 0 \<le> consensus_target b d n l"
  using set_compact_nonneg [of b] set_compact_nonneg [of l]
  by (simp add: consensus_target_def pos_imp_zdiv_nonneg_iff)

text \<open>C26: with positive difficulty, normalizer and power limit, and a limit that fits in 256 bits,
  \<^verbatim>\<open>derive_adjusted_block_target\<close> always returns; the target it returns is never easier than the
  consensus target, loses at most one part in 32768 of it, and is the one its compact bits
  stand for.\<close>

theorem derive_adjusted_sound:
  assumes "0 < d" "0 < n" "0 < l" "fst (set_compact l) < 2 ^ 256"
  shows "\<exists>r. derive_adjusted_block_target b (Some d) (Some n) (Some l) = Inr r \<and>
    length (adj_target_bytes r) = 32 \<and>
    from_be (adj_target_bytes r) \<le> consensus_target b d n l \<and>
    (consensus_target b d n l - from_be (adj_target_bytes r)) * 2 ^ 15 \<le> consensus_target b d n l \<and>
    set_compact (adj_nbits r) = (from_be (adj_target_bytes r), adj_negative r, adj_overflow r)"
proof -
  obtain bt neg ob where b: "set_compact b = (bt, neg, ob)"
    by (cases "set_compact b")
  obtain lt' ln lo where l: "set_compact l = (lt', ln, lo)"
    by (cases "set_compact l")
  define t where "t = consensus_target b d n l"
  have t: "0 \<le> t" "t < 2 ^ 256"
    using assms consensus_target_nonneg [of d n b l] by (auto simp: t_def consensus_target_def)
  have eq: "(if bt * n div d > lt' then lt' else bt * n div d) = t"
    by (simp add: t_def consensus_target_def b l min_def)
  obtain t' neg' ovf where d: "set_compact (get_compact t neg) = (t', neg', ovf)"
    by (cases "set_compact (get_compact t neg)")
  note bounds = decode_get_compact_bounds [OF t(1) d]
  have be: "from_be (rev (le_bytes 32 t')) = t'"
    using bounds t(2) by (simp add: from_be_def from_le_le_bytes)
  show ?thesis
    unfolding t_def [symmetric]
    using assms(1-3) bounds t
    by (simp add: derive_adjusted_block_target_def positive_arg_def b l eq Let_def d
        to_bytes_be_def be)
qed

theorem derive_adjusted_sound_witness:
  "\<exists>r. derive_adjusted_block_target 545259519 (Some 900000) (Some 1000000) (Some 545259519) = Inr r \<and>
    length (adj_target_bytes r) = 32 \<and>
    from_be (adj_target_bytes r) \<le> consensus_target 545259519 900000 1000000 545259519 \<and>
    (consensus_target 545259519 900000 1000000 545259519 - from_be (adj_target_bytes r)) * 2 ^ 15
      \<le> consensus_target 545259519 900000 1000000 545259519 \<and>
    set_compact (adj_nbits r) = (from_be (adj_target_bytes r), adj_negative r, adj_overflow r)"
proof (rule derive_adjusted_sound)
  show "fst (set_compact 545259519) < 2 ^ 256" by code_simp
qed simp_all

text \<open>A missing or non-positive difficulty, normalizer or power limit is a ValueError, whatever
  the other arguments; there is no other ValueError.\<close>

theorem derive_adjusted_errors:
  "derive_adjusted_block_target b d n l = Inl ValueError \<longleftrightarrow>
     (\<exists>a \<in> {d, n, l}. case a of None \<Rightarrow> True | Some v \<Rightarrow> v \<le> 0)"
  by (auto simp: derive_adjusted_block_target_def positive_arg_def rbind_Inl_iff to_bytes_be_def
      Let_def split: option.splits if_splits prod.splits)

end
