(* ===== verification/Sha256.thy ===== *)
theory Sha256
  imports ByteCodec
begin

text \<open>
  The batched SHA-256 of \<^verbatim>\<open>pow_utils.py\<close>: the Triton kernel (64-bit lanes that hold 32-bit words,
  padding computed byte by byte, sixteen schedule registers rotated in place) and the entry
  \<^verbatim>\<open>sha256_many\<close> that chooses between it and \<^verbatim>\<open>hashlib\<close>.  \<^verbatim>\<open>hashlib.sha256\<close> belongs to the
  standard library and is modelled by the standard it implements (FIPS 180-4) on 32-bit words.
  The theory shows that the kernel computes the same digests, so that the choice of the path
  cannot be observed.
\<close>

section \<open>FIPS 180-4\<close>

type_synonym word32 = "32 word"
type_synonym lane = "64 word"

definition sha256_K :: "int list" where
  "sha256_K = concat [
    [0x428a2f98, 0x71374491, 0xb5c0fbcf, 0xe9b5dba5, 0x3956c25b, 0x59f111f1, 0x923f82a4, 0xab1c5ed5],
    [0xd807aa98, 0x12835b01, 0x243185be, 0x550c7dc3, 0x72be5d74, 0x80deb1fe, 0x9bdc06a7, 0xc19bf174],
    [0xe49b69c1, 0xefbe4786, 0x0fc19dc6, 0x240ca1cc, 0x2de92c6f, 0x4a7484aa, 0x5cb0a9dc, 0x76f988da],
    [0x983e5152, 0xa831c66d, 0xb00327c8, 0xbf597fc7, 0xc6e00bf3, 0xd5a79147, 0x06ca6351, 0x14292967],
    [0x27b70a85, 0x2e1b2138, 0x4d2c6dfc, 0x53380d13, 0x650a7354, 0x766a0abb, 0x81c2c92e, 0x92722c85],
    [0xa2bfe8a1, 0xa81a664b, 0xc24b8b70, 0xc76c51a3, 0xd192e819, 0xd6990624, 0xf40e3585, 0x106aa070],
    [0x19a4c116, 0x1e376c08, 0x2748774c, 0x34b0bcb5, 0x391c0cb3, 0x4ed8aa4a, 0x5b9cca4f, 0x682e6ff3],
    [0x748f82ee, 0x78a5636f, 0x84c87814, 0x8cc70208, 0x90befffa, 0xa4506ceb, 0xbef9a3f7, 0xc67178f2]]"

definition sha256_H :: "int list" where
  "sha256_H = [0x6a09e667, 0xbb67ae85, 0x3c6ef372, 0xa54ff53a,
               0x510e527f, 0x9b05688c, 0x1f83d9ab, 0x5be0cd19]"

text \<open>Padding: one 1 bit, zeros, the bit length in 64 bits, up to a multiple of 64 bytes.\<close>

definition sha_blocks :: "nat \<Rightarrow> nat" where
  "sha_blocks l = (l + 9 + 63) div 64"

definition sha_pad :: "byte list \<Rightarrow> byte list" where
  "sha_pad m = m @ [0x80] @ replicate (64 * sha_blocks (length m) - 9 - length m) 0 @
     rev (le_bytes 8 (8 * int (length m)))"

definition be_word :: "byte list \<Rightarrow> word32" where
  "be_word bs = word_of_int (from_be bs)"

definition sha_block :: "byte list \<Rightarrow> nat \<Rightarrow> word32 list" where
  "sha_block p b = map (\<lambda>i. be_word (take 4 (drop (64 * b + 4 * i) p))) [0..<16]"

definition sigma0 :: "word32 \<Rightarrow> word32" where
  "sigma0 x = word_rotr 7 x XOR word_rotr 18 x XOR drop_bit 3 x"

definition sigma1 :: "word32 \<Rightarrow> word32" where
  "sigma1 x = word_rotr 17 x XOR word_rotr 19 x XOR drop_bit 10 x"

text \<open>One more word of the message schedule.\<close>

definition schedule_ext :: "word32 list \<Rightarrow> word32 list" where
  "schedule_ext ws = (let n = length ws in
     ws @ [ws ! (n - 16) + sigma0 (ws ! (n - 15)) + ws ! (n - 7) + sigma1 (ws ! (n - 2))])"

definition schedule :: "word32 list \<Rightarrow> word32 list" where
  "schedule blk = (schedule_ext ^^ 48) blk"

fun sha_step :: "word32 \<Rightarrow> word32 \<Rightarrow> word32 list \<Rightarrow> word32 list" where
  "sha_step k w [a, b, c, d, e, f, g, h] =
     (let S1 = word_rotr 6 e XOR word_rotr 11 e XOR word_rotr 25 e;
          ch = (e AND f) XOR (NOT e AND g);
          t1 = h + S1 + ch + k + w;
          S0 = word_rotr 2 a XOR word_rotr 13 a XOR word_rotr 22 a;
          maj = (a AND b) XOR (a AND c) XOR (b AND c);
          t2 = S0 + maj
      in [t1 + t2, a, b, c, d + t1, e, f, g])"
| "sha_step k w s = s"

definition sha_compress :: "word32 list \<Rightarrow> word32 list \<Rightarrow> word32 list" where
  "sha_compress blk h =
     (let ws = schedule blk
      in map2 (+) h (fold (\<lambda>t. sha_step (word_of_int (sha256_K ! t)) (ws ! t)) [0..<64] h))"

definition sha256 :: "byte list \<Rightarrow> byte list" where
  "sha256 m =
     (let p = sha_pad m
      in concat (map (\<lambda>w. rev (le_bytes 4 (uint w)))
           (fold (\<lambda>b. sha_compress (sha_block p b)) [0..<sha_blocks (length m)]
              (map word_of_int sha256_H))))"

section \<open>The kernel\<close>

text \<open>
  A lane is an \<^verbatim>\<open>int64\<close>; \<^verbatim>\<open>>>\<close> is the arithmetic shift.  Offsets and lengths are Python or
  \<^verbatim>\<open>int32\<close> scalars that stay far below their limits and are \<^typ>\<open>int\<close> here.
\<close>

definition rotr32 :: "lane \<Rightarrow> nat \<Rightarrow> lane" where
  "rotr32 x n = (signed_drop_bit n x OR push_bit (32 - n) x) AND 0xFFFFFFFF"

text \<open>\<^verbatim>\<open>tl.load(ptr + i, mask, other=0)\<close> on a byte buffer.\<close>

definition tl_load :: "byte list \<Rightarrow> int \<Rightarrow> bool \<Rightarrow> lane" where
  "tl_load buf i live = (if live then ucast (buf ! nat i) else 0)"

definition blk_byte :: "byte list \<Rightarrow> int \<Rightarrow> int \<Rightarrow> int \<Rightarrow> int \<Rightarrow> int \<Rightarrow> bool \<Rightarrow> lane" where
  "blk_byte msg row_base pos Lc last8 bitlen rmask =
     (let in_msg = pos < Lc;
          is_pad = (pos = Lc);
          in_len = pos \<ge> last8;
          data = tl_load msg (row_base + pos) (rmask \<and> in_msg);
          len_idx = pos - last8;
          shift = max (min ((7 - len_idx) * 8) 56) 0;
          len_byte = drop_bit (nat shift) bitlen AND 0xFF;
          bval = data + 0x80 * of_bool is_pad + word_of_int len_byte * of_bool in_len
      in bval AND 0xFF)"

definition blkword ::
    "byte list \<Rightarrow> int \<Rightarrow> int \<Rightarrow> nat \<Rightarrow> int \<Rightarrow> int \<Rightarrow> int \<Rightarrow> bool \<Rightarrow> lane" where
  "blkword msg row_base bb p Lc last8 bitlen rmask =
     fold (\<lambda>k word. push_bit 8 word OR
             blk_byte msg row_base (bb + (int p * 4 + int k)) Lc last8 bitlen rmask)
       [0..<4] 0 AND 0xFFFFFFFF"

text \<open>
  One round: the eight working registers, and the sixteen schedule registers \<open>m0, ..., m15\<close> as a
  list that is rotated by one slot.
\<close>

fun kernel_round :: "nat \<Rightarrow> lane list \<times> lane list \<Rightarrow> lane list \<times> lane list" where
  "kernel_round t ([a, b, c, d, e, f, g, hh], m) =
     (let m0 = (if t \<ge> 16
          then (let s0 = (rotr32 (m ! 1) 7 XOR rotr32 (m ! 1) 18 XOR signed_drop_bit 3 (m ! 1)) AND 0xFFFFFFFF;
                    s1 = (rotr32 (m ! 14) 17 XOR rotr32 (m ! 14) 19 XOR signed_drop_bit 10 (m ! 14)) AND 0xFFFFFFFF
                in (m ! 0 + s0 + m ! 9 + s1) AND 0xFFFFFFFF)
          else m ! 0);
          kt = word_of_int (sha256_K ! t);
          S1 = (rotr32 e 6 XOR rotr32 e 11 XOR rotr32 e 25) AND 0xFFFFFFFF;
          ch = (e AND f) XOR ((e XOR 0xFFFFFFFF) AND g);
          temp1 = (hh + S1 + ch + kt + m0) AND 0xFFFFFFFF;
          S0 = (rotr32 a 2 XOR rotr32 a 13 XOR rotr32 a 22) AND 0xFFFFFFFF;
          maj = (a AND b) XOR (a AND c) XOR (b AND c);
          temp2 = (S0 + maj) AND 0xFFFFFFFF
      in ([(temp1 + temp2) AND 0xFFFFFFFF, a, b, c, (d + temp1) AND 0xFFFFFFFF, e, f, g],
          tl m @ [m0]))"
| "kernel_round t s = s"

definition kernel_block :: "lane list \<Rightarrow> lane list \<Rightarrow> lane list" where
  "kernel_block m h =
     map2 (\<lambda>x y. (x + y) AND 0xFFFFFFFF) h (fst (fold kernel_round [0..<64] (h, m)))"

definition kernel_state :: "byte list \<Rightarrow> nat \<Rightarrow> nat \<Rightarrow> nat \<Rightarrow> nat \<Rightarrow> lane list" where
  "kernel_state msg B L n_blocks row =
     (let rmask = row < B;
          row_base = int row * int L;
          bitlen = int L * 8;
          last8 = int n_blocks * 64 - 8
      in fold (\<lambda>bidx. kernel_block
                 (map (\<lambda>p. blkword msg row_base (int bidx * 64) p (int L) last8 bitlen rmask) [0..<16]))
           [0..<n_blocks] (map word_of_int sha256_H))"

text \<open>\<^verbatim>\<open>_store_word\<close>: four masked byte stores.\<close>

definition store_word :: "nat \<Rightarrow> nat \<Rightarrow> lane \<Rightarrow> bool \<Rightarrow> byte list \<Rightarrow> byte list" where
  "store_word out_row widx hv rmask out =
     (if rmask
      then out[out_row + (widx * 4 + 0) := ucast (signed_drop_bit 24 hv AND 0xFF),
               out_row + (widx * 4 + 1) := ucast (signed_drop_bit 16 hv AND 0xFF),
               out_row + (widx * 4 + 2) := ucast (signed_drop_bit 8 hv AND 0xFF),
               out_row + (widx * 4 + 3) := ucast (hv AND 0xFF)]
      else out)"

text \<open>One lane of one program instance, and the lanes of the whole grid.\<close>

definition sha256_lane :: "byte list \<Rightarrow> nat \<Rightarrow> nat \<Rightarrow> nat \<Rightarrow> nat \<Rightarrow> byte list \<Rightarrow> byte list" where
  "sha256_lane msg B L n_blocks row out =
     (let h = kernel_state msg B L n_blocks row
      in fold (\<lambda>widx. store_word (row * 32) widx (h ! widx) (row < B)) [0..<8] out)"

definition SHA256_ROWS :: nat where
  "SHA256_ROWS = 64"

definition grid_rows :: "nat \<Rightarrow> nat list" where
  "grid_rows B = concat (map (\<lambda>pid. map (\<lambda>i. pid * SHA256_ROWS + i) [0..<SHA256_ROWS])
                   [0..<(B + SHA256_ROWS - 1) div SHA256_ROWS])"

text \<open>
  \<^verbatim>\<open>_sha256_many_triton\<close>: the input tensor is contiguous (its rows one after the other); the
  output buffer is \<^verbatim>\<open>torch.empty\<close>, so its first contents \<open>out0\<close> are arbitrary, and the
  device runs the lanes in an order of its own.
\<close>

definition rows_of :: "nat \<Rightarrow> nat \<Rightarrow> 'a list \<Rightarrow> 'a list list" where
  "rows_of w n xs = map (\<lambda>i. take w (drop (w * i) xs)) [0..<n]"

definition sha256_many_triton ::
    "nat list \<Rightarrow> byte list \<Rightarrow> nat \<Rightarrow> byte list list \<Rightarrow> byte list list" where
  "sha256_many_triton order out0 L msg =
     (let B = length msg; n_blocks = (L + 9 + 63) div 64
      in rows_of 32 B (fold (sha256_lane (concat msg) B L n_blocks) order out0))"

definition sha256_many_cpu :: "byte list list \<Rightarrow> byte list list" where
  "sha256_many_cpu msg = map sha256 msg"

text \<open>
  \<^verbatim>\<open>sha256_many\<close>: the kernel may also fail to launch, which falls back to the CPU path
  (\<open>launch_ok\<close>); \<open>is_cuda\<close> and \<open>use_triton\<close> are where the tensor lives and
  \<^verbatim>\<open>_sha256_use_triton()\<close>.
\<close>

definition sha256_use_triton :: "bool \<Rightarrow> bool \<Rightarrow> bool option \<Rightarrow> bool" where
  "sha256_use_triton disabled importable has_triton =
     (if disabled \<or> \<not> importable then False else has_triton \<noteq> Some False)"

definition sha256_many ::
    "bool \<Rightarrow> bool \<Rightarrow> bool \<Rightarrow> nat list \<Rightarrow> byte list \<Rightarrow> nat \<Rightarrow> byte list list \<Rightarrow> byte list list" where
  "sha256_many is_cuda use_triton launch_ok order out0 L msg =
     (if msg = [] then []
      else if is_cuda \<and> 0 < L \<and> use_triton \<and> launch_ok then sha256_many_triton order out0 L msg
      else sha256_many_cpu msg)"

section \<open>Lanes hold 32-bit words\<close>

abbreviation lane_of :: "word32 \<Rightarrow> lane" where
  "lane_of w \<equiv> ucast w"

abbreviation low :: "lane \<Rightarrow> word32" where
  "low x \<equiv> ucast x"

lemma bit_word32D: "bit (w :: word32) n \<Longrightarrow> n < 32"
  using bit_imp_le_length [of w n] by simp

lemma low_lane [simp]: "low (lane_of w) = w"
  by (rule bit_word_eqI) (simp add: bit_simps)

lemma and_mask_lane: "(x :: lane) AND 0xFFFFFFFF = lane_of (low x)"
proof -
  have m: "(0xFFFFFFFF :: lane) = mask 32"
    by (simp add: mask_eq_exp_minus_1)
  show ?thesis unfolding m
    by (rule bit_word_eqI) (auto simp add: bit_simps)
qed

lemma low_word_of_int: "low (word_of_int k) = word_of_int k"
  by (rule bit_word_eqI) (simp add: bit_simps)

lemma low_eq: "low x = word_of_int (uint x)"
  by simp

lemma low_add: "low (x + y) = low x + low y"
proof -
  have "x + y = word_of_int (uint x + uint y)"
    by simp
  then have "low (x + y) = word_of_int (uint x + uint y)"
    by (simp only: low_word_of_int)
  then show ?thesis by simp
qed

lemma low_and: "low (x AND y) = low x AND low y"
  by (rule bit_word_eqI) (simp add: bit_simps)
lemma low_xor: "low (x XOR y) = low x XOR low y"
  by (rule bit_word_eqI) (simp add: bit_simps)

lemma lane_and: "lane_of x AND lane_of y = lane_of (x AND y)"
  by (rule bit_word_eqI) (auto simp add: bit_simps)
lemma lane_xor: "lane_of x XOR lane_of y = lane_of (x XOR y)"
  by (rule bit_word_eqI) (auto simp add: bit_simps)
lemma lane_not: "lane_of x XOR 0xFFFFFFFF = lane_of (NOT x)"
proof -
  have m: "(0xFFFFFFFF :: lane) = mask 32"
    by (simp add: mask_eq_exp_minus_1)
  show ?thesis unfolding m
    by (rule bit_word_eqI) (auto simp add: bit_simps dest: bit_word32D)
qed

lemma rotr32_lane: "0 < n \<Longrightarrow> n < 32 \<Longrightarrow> rotr32 (lane_of x) n = lane_of (word_rotr n x)"
  unfolding rotr32_def and_mask_lane
  by (rule bit_word_eqI)
    (auto simp add: bit_simps mod_if add.commute [of n] dest: bit_word32D)

lemma shr_lane: "0 < n \<Longrightarrow> n < 32 \<Longrightarrow> signed_drop_bit n (lane_of x) = lane_of (drop_bit n x)"
  by (rule bit_word_eqI) (auto simp add: bit_simps dest: bit_word32D)

lemma length_8: "length s = 8 \<longleftrightarrow> (\<exists>a b c d e f g h. s = [a, b, c, d, e, f, g, h])"
  by (auto simp: length_Suc_conv numeral_eq_Suc)

lemmas lane_simps = rotr32_lane shr_lane lane_xor lane_and lane_not and_mask_lane low_add low_xor
  low_and low_word_of_int low_lane

lemma kernel_round_early:
  assumes "length s = 8" "t < 16" "m = lane_of w # m'"
  shows "kernel_round t (map lane_of s, m) =
    (map lane_of (sha_step (word_of_int (sha256_K ! t)) w s), m' @ [lane_of w])"
  using assms by (auto simp: length_8 Let_def lane_simps)

lemma kernel_round_late:
  assumes "length s = 8" "16 \<le> t" "length ws = 16"
    "w = ws ! 0 + sigma0 (ws ! 1) + ws ! 9 + sigma1 (ws ! 14)"
  shows "kernel_round t (map lane_of s, map lane_of ws) =
    (map lane_of (sha_step (word_of_int (sha256_K ! t)) w s), map lane_of (tl ws @ [w]))"
  using assms by (auto simp: length_8 Let_def lane_simps sigma0_def sigma1_def map_tl)

lemma length_sha_step [simp]: "length (sha_step k w s) = length s"
  by (cases "(k, w, s)" rule: sha_step.cases) (simp_all add: Let_def)

lemma length_schedule_ext [simp]: "length ((schedule_ext ^^ n) ws) = length ws + n"
  by (induction n) (simp_all add: schedule_ext_def Let_def)

lemma schedule_ext_prefix: "take (length ws + n) ((schedule_ext ^^ (n + k)) ws) = (schedule_ext ^^ n) ws"
proof (induction k)
  case 0
  then show ?case by simp
next
  case (Suc k)
  then show ?case by (simp add: schedule_ext_def [of "(schedule_ext ^^ (n + k)) ws"] Let_def)
qed

definition rounds :: "word32 list \<Rightarrow> nat list \<Rightarrow> word32 list \<Rightarrow> word32 list" where
  "rounds ws ts s = fold (\<lambda>t. sha_step (word_of_int (sha256_K ! t)) (ws ! t)) ts s"

lemma length_rounds [simp]: "length (rounds ws ts s) = length s"
  unfolding rounds_def by (induction ts arbitrary: s) auto

lemma rounds_append: "rounds ws (ts @ us) s = rounds ws us (rounds ws ts s)"
  by (simp add: rounds_def)

lemma rounds_early:
  assumes "length ws = 16" "length s = 8" "n \<le> 16"
  shows "fold kernel_round [0..<n] (map lane_of s, map lane_of ws) =
    (map lane_of (rounds ws [0..<n] s), map lane_of (drop n ws @ take n ws))"
  using assms(3)
proof (induction n)
  case 0
  then show ?case by (simp add: rounds_def)
next
  case (Suc n)
  then have "drop n ws = ws ! n # drop (Suc n) ws"
    using assms(1) by (simp add: Cons_nth_drop_Suc)
  moreover have "take (Suc n) ws = take n ws @ [ws ! n]"
    using Suc assms(1) by (simp add: take_Suc_conv_app_nth)
  ultimately show ?case
    using Suc assms
    by (simp add: kernel_round_early [where w = "ws ! n"] rounds_def)
       (simp add: kernel_round_early [where w = "ws ! n"] flip: rounds_def)
qed

lemma rounds_late:
  assumes "length ws = 16" "length s = 8" "n \<le> 48"
  shows "fold kernel_round [16..<16 + n] (map lane_of s, map lane_of ws) =
    (map lane_of (rounds (schedule ws) [16..<16 + n] s),
     map lane_of (drop n ((schedule_ext ^^ n) ws)))"
  using assms(3)
proof (induction n)
  case 0
  then show ?case by (simp add: rounds_def)
next
  case (Suc n)
  let ?v = "(schedule_ext ^^ n) ws"
  let ?w = "?v ! n + sigma0 (?v ! (n + 1)) + ?v ! (n + 9) + sigma1 (?v ! (n + 14))"
  have l: "length ?v = 16 + n" using assms by simp
  have e: "(schedule_ext ^^ Suc n) ws = ?v @ [?w]"
    using l by (simp add: schedule_ext_def [of ?v] Let_def add.commute [of n])
  have "take (length ws + Suc n) (schedule ws) = ?v @ [?w]"
    using schedule_ext_prefix [of ws "Suc n" "47 - n"] Suc.prems by (simp add: schedule_def e del: funpow.simps)
  then have "schedule ws ! (16 + n) = (?v @ [?w]) ! (16 + n)"
    using assms by (metis add_Suc_right lessI nth_take)
  then have w: "schedule ws ! (16 + n) = ?w"
    using l by (simp add: nth_append)
  have k: "drop n ?v ! i = ?v ! (n + i)" for i
    using l by simp
  have eqw: "?w = drop n ?v ! 0 + sigma0 (drop n ?v ! 1) + drop n ?v ! 9 + sigma1 (drop n ?v ! 14)"
    by (simp only: k add_0_right)
  have d: "kernel_round (16 + n) (map lane_of t, map lane_of (drop n ?v)) =
    (map lane_of (sha_step (word_of_int (sha256_K ! (16 + n))) ?w t),
     map lane_of (tl (drop n ?v) @ [?w]))" if "length t = 8" for t
    by (rule kernel_round_late [OF that _ _ eqw]) (use l in simp_all)
  have u: "[16..<16 + Suc n] = [16..<16 + n] @ [16 + n]"
    unfolding add_Suc_right by (rule upt_Suc_append) simp
  show ?case
    using Suc assms l unfolding e u fold_append o_apply rounds_append
    by (simp add: d w tl_drop drop_Suc) (simp add: rounds_def w)
qed

lemma rounds_cong: "(\<And>t. t \<in> set ts \<Longrightarrow> ws ! t = vs ! t) \<Longrightarrow> rounds ws ts s = rounds vs ts s"
  unfolding rounds_def by (rule fold_cong) auto

lemma kernel_block_eq:
  assumes "length ws = 16" "length h = 8"
  shows "kernel_block (map lane_of ws) (map lane_of h) = map lane_of (sha_compress ws h)"
proof -
  have u: "[0..<64] = [0..<16] @ [16..<16 + 48]"
    using upt_add_eq_append [of 0 16 48] by simp
  have "take 16 (schedule ws) = ws"
    using schedule_ext_prefix [of ws 0 48] assms(1) by (simp add: schedule_def del: funpow.simps)
  then have p: "rounds ws [0..<16] h = rounds (schedule ws) [0..<16] h"
    by (intro rounds_cong) (metis atLeastLessThan_iff nth_take set_upt)
  have "fst (fold kernel_round [0..<64] (map lane_of h, map lane_of ws)) =
      map lane_of (rounds (schedule ws) [0..<64] h)"
    unfolding u fold_append o_apply
    using rounds_early [OF assms(1,2), of 16] rounds_late [OF assms(1), of "rounds ws [0..<16] h" 48]
      assms by (simp add: p rounds_append)
  then show ?thesis
    by (simp add: kernel_block_def sha_compress_def Let_def rounds_def [symmetric] zip_map_map
        and_mask_lane low_add case_prod_unfold)
qed

lemma length_sha_compress [simp]: "length (sha_compress ws h) = length h"
  by (simp add: sha_compress_def Let_def rounds_def [symmetric])

section \<open>The padded block, byte by byte\<close>

lemma length_sha_pad: "length (sha_pad m) = 64 * sha_blocks (length m)"
proof -
  have "length m + 9 \<le> 64 * sha_blocks (length m)"
    unfolding sha_blocks_def by presburger
  then show ?thesis by (simp add: sha_pad_def)
qed

lemma le_bytes_nth: "i < n \<Longrightarrow> le_bytes n v ! i = word_of_int (v div 256 ^ i)"
proof (induction n arbitrary: v i)
  case 0
  then show ?case by simp
next
  case (Suc n)
  then show ?case by (cases i) (auto simp: zdiv_zmult2_eq)
qed

lemma and_FF_lane: "(x :: lane) AND 0xFF = ucast (ucast x :: byte)"
proof -
  have m: "(0xFF :: lane) = mask 8"
    by (simp add: mask_eq_exp_minus_1)
  show ?thesis unfolding m
    by (rule bit_word_eqI) (auto simp add: bit_simps)
qed

lemma ucast_byte_lane [simp]: "ucast (ucast (b :: byte) :: lane) = b"
  by (rule bit_word_eqI) (simp add: bit_simps)

lemma and_FF_int: "word_of_int (v AND 0xFF) AND 0xFF = (ucast (word_of_int v :: byte) :: lane)"
proof -
  have m: "(0xFF :: lane) = mask 8" "(0xFF :: int) = mask 8"
    by (simp_all add: mask_eq_exp_minus_1)
  show ?thesis unfolding m
    by (rule bit_word_eqI) (auto simp add: bit_simps)
qed

lemma blk_byte_eq:
  assumes "length m = L" "n = sha_blocks L" "i < 64 * n"
    "L * r + L \<le> length buf" "take L (drop (L * r) buf) = m"
  shows "blk_byte buf (int r * int L) (int i) (int L) (int n * 64 - 8) (int L * 8) True =
    ucast (sha_pad m ! i)"
proof -
  have n: "L + 9 \<le> 64 * n"
    unfolding assms(2) sha_blocks_def by presburger
  consider "i < L" | "i = L" | "L < i" "i < 64 * n - 8" | "64 * n - 8 \<le> i" "L < i"
    using n by linarith
  then show ?thesis
  proof cases
    case 1
    have "m ! i = buf ! (L * r + i)"
      using 1 assms(4) unfolding assms(5) [symmetric] by simp
    moreover have "nat (int r * int L + int i) = L * r + i"
      by (metis mult.commute nat_int of_nat_add of_nat_mult)
    ultimately show ?thesis
      using 1 n assms(1) by (simp add: blk_byte_def tl_load_def sha_pad_def nth_append and_FF_lane)
  next
    case 2
    then show ?thesis
      using n assms(1) by (simp add: blk_byte_def tl_load_def sha_pad_def nth_append and_FF_lane)
  next
    case 3
    then have "\<not> int n * 64 - 8 \<le> int i" "i - Suc L < 64 * n - (9 + L)"
      using n by linarith+
    then show ?thesis
      using 3 assms(1,2) by (simp add: blk_byte_def tl_load_def sha_pad_def nth_append)
  next
    case 4
    define j where "j = i - (64 * n - 8)"
    have j: "j < 8" "i = 64 * n - 8 + j"
      using 4 assms(3) by (simp_all add: j_def)
    define front where "front = m @ [0x80] @ replicate (64 * n - 9 - L) 0"
    have "length front = 64 * n - 8"
      using n assms(1) by (simp add: front_def)
    moreover have "sha_pad m = front @ rev (le_bytes 8 (8 * int L))"
      using assms(1,2) by (simp add: sha_pad_def front_def)
    ultimately have "sha_pad m ! i = rev (le_bytes 8 (8 * int L)) ! j"
      unfolding j(2) by (metis nth_append_length_plus)
    also have "\<dots> = word_of_int (8 * int L div 256 ^ (7 - j))"
      using j by (simp add: rev_nth le_bytes_nth)
    finally have s: "sha_pad m ! i = word_of_int (drop_bit (8 * (7 - j)) (8 * int L))"
      by (simp add: drop_bit_eq_div power_mult)
    have k: "nat (max (min ((7 - (int i - (int n * 64 - 8))) * 8) 56) 0) = 8 * (7 - j)"
      using j n by (simp add: of_nat_diff)
    have f: "(int i < int L) = False" "(int i = int L) = False" "(int n * 64 - 8 \<le> int i) = True"
      using 4 n by auto
    show ?thesis
      unfolding blk_byte_def tl_load_def Let_def k s f
      by (simp add: and_FF_int mult.commute)
  qed
qed

lemma le4: "take 4 (drop i xs) = [xs ! i, xs ! (i + 1), xs ! (i + 2), xs ! (i + 3)]"
  if "i + 4 \<le> length xs"
  using that by (intro nth_equalityI) (auto simp: less_Suc_eq numeral_eq_Suc)


lemma be_word_4:
  "be_word [a, b, c, d] =
     push_bit 24 (ucast a) OR push_bit 16 (ucast b) OR push_bit 8 (ucast c) OR ucast d"
proof -
  have p: "push_bit 8 (w :: word32) + ucast (x :: byte) = push_bit 8 w OR ucast x" for w x
    by (rule disjunctive_add_eq_or)
      (rule bit_word_eqI, auto simp: bit_simps dest: bit_imp_le_length)
  have "be_word [a, b, c, d] = 
    push_bit 8 (push_bit 8 (push_bit 8 (ucast a) + ucast b) + ucast c) + ucast d"
    by (simp add: be_word_def from_be_def push_bit_eq_mult algebra_simps)
  then show ?thesis unfolding p
    by (simp only:) (rule bit_word_eqI, auto simp: bit_simps)
qed

lemma blkword_eq:
  assumes "length m = L" "n = sha_blocks L" "b < n" "p < 16"
    "L * r + L \<le> length buf" "take L (drop (L * r) buf) = m"
  shows "blkword buf (int r * int L) (int b * 64) p (int L) (int n * 64 - 8) (int L * 8) True =
    lane_of (sha_block (sha_pad m) b ! p)"
proof -
  let ?f = "\<lambda>k. sha_pad m ! (64 * b + 4 * p + k)"
  have i: "64 * b + 4 * p + k < 64 * n" if "k < 4" for k
    using that assms by linarith
  have f: "blk_byte buf (int r * int L) (int b * 64 + (int p * 4 + int k)) (int L)
      (int n * 64 - 8) (int L * 8) True = ucast (?f k)" if "k < 4" for k
    using blk_byte_eq [OF assms(1,2) i [OF that] assms(5,6)] by (simp add: ac_simps)
  have "sha_block (sha_pad m) b ! p = be_word [?f 0, ?f 1, ?f 2, ?f 3]"
    using assms(4) i [of 3] by (simp add: sha_block_def le4 length_sha_pad assms(1,2))
  moreover have "[0..<4] = [0, 1, 2, 3 :: nat]"
    by (simp add: upt_rec)
  ultimately show ?thesis
    unfolding blkword_def and_mask_lane
    by (simp add: f [of 0, simplified] f [of 1, simplified] f [of 2, simplified] f [of 3, simplified])
       (rule bit_word_eqI, auto simp: bit_simps be_word_4)
qed

lemma kernel_state_eq:
  assumes "length m = L" "r < B"
    "L * r + L \<le> length buf" "take L (drop (L * r) buf) = m"
  shows "kernel_state buf B L (sha_blocks L) r =
    map lane_of (fold (\<lambda>b. sha_compress (sha_block (sha_pad m) b)) [0..<sha_blocks L]
              (map word_of_int sha256_H))" (is "_ = map _ (?g (sha_blocks L))")
proof -
  have l: "length (?g n) = 8" for n
    by (induction n) (simp_all add: sha256_H_def)
  have "fold (\<lambda>bidx. kernel_block
                 (map (\<lambda>p. blkword buf (int r * int L) (int bidx * 64) p (int L)
                       (int (sha_blocks L) * 64 - 8) (int L * 8) True) [0..<16]))
           [0..<n] (map word_of_int sha256_H) = map lane_of (?g n)" if "n \<le> sha_blocks L" for n
    using that
  proof (induction n)
    case 0
    then show ?case by (simp add: sha256_H_def)
  next
    case (Suc n)
    then have "map (\<lambda>p. blkword buf (int r * int L) (int n * 64) p (int L)
        (int (sha_blocks L) * 64 - 8) (int L * 8) True) [0..<16] =
      map lane_of (sha_block (sha_pad m) n)"
      using assms by (intro nth_equalityI) (simp_all add: blkword_eq sha_block_def)
    moreover have "length (sha_block (sha_pad m) n) = 16"
      by (simp add: sha_block_def)
    ultimately show ?case
      using Suc l by (simp add: kernel_block_eq)
  qed
  from this [of "sha_blocks L"] show ?thesis
    using assms(2) by (simp add: kernel_state_def Let_def)
qed

section \<open>Storing the digests\<close>

lemma store_byte: "ucast (signed_drop_bit n (lane_of w) AND 0xFF) = (ucast (drop_bit n w) :: byte)"
    if "n < 32"
proof -
  have m: "(0xFF :: lane) = mask 8"
    by (simp add: mask_eq_exp_minus_1)
  show ?thesis unfolding m
    using that by (intro bit_word_eqI) (auto simp add: bit_simps dest: bit_imp_le_length)
qed

lemma be_bytes_word:
  "rev (le_bytes 4 (uint (w :: word32))) =
     [ucast (drop_bit 24 w), ucast (drop_bit 16 w), ucast (drop_bit 8 w), ucast w]"
proof -
  have e: "word_of_int (uint w div 2 ^ n) = (ucast (drop_bit n w) :: byte)" for n
    by (rule bit_word_eqI) (simp add: bit_simps flip: drop_bit_eq_div)
  have "le_bytes 4 (uint w) = map (\<lambda>i. word_of_int (uint w div 256 ^ i)) [0, 1, 2, 3]"
    using zdiv_zmult2_eq [of 256 "uint w" 256] zdiv_zmult2_eq [of 256 "uint w" 65536]
    by (simp add: numeral_eq_Suc)
  then show ?thesis
    using e [of 0] e [of 8] e [of 16] e [of 24] zdiv_zmult2_eq [of 256 "uint w" 256]
      zdiv_zmult2_eq [of 65536 "uint w" 256] by simp
qed

text \<open>Replacing a stretch of a list.\<close>

definition splice :: "nat \<Rightarrow> 'a list \<Rightarrow> 'a list \<Rightarrow> 'a list" where
  "splice i ys xs = take i xs @ ys @ drop (i + length ys) xs"

lemma length_splice: "i + length ys \<le> length xs \<Longrightarrow> length (splice i ys xs) = length xs"
  by (simp add: splice_def)

lemma splice_splice:
  "i + length ys + length zs \<le> length xs \<Longrightarrow>
   splice (i + length ys) zs (splice i ys xs) = splice i (ys @ zs) xs"
  by (simp add: splice_def ac_simps)

lemma splice_1: "i < length xs \<Longrightarrow> xs[i := y] = splice i [y] xs"
  by (simp add: splice_def upd_conv_take_nth_drop)

lemma nth_splice:
  assumes "i + length ys \<le> length xs" "j < length xs"
  shows "splice i ys xs ! j = (if i \<le> j \<and> j < i + length ys then ys ! (j - i) else xs ! j)"
  using assms by (auto simp: splice_def nth_append)

lemma take_drop_splice:
  assumes "i + length ys \<le> length xs"
  shows "take (length ys) (drop i (splice i ys xs)) = ys"
    and "k + n \<le> i \<or> i + length ys \<le> k \<Longrightarrow> take n (drop k (splice i ys xs)) = take n (drop k xs)"
proof -
  show "take (length ys) (drop i (splice i ys xs)) = ys"
    using assms by (simp add: splice_def)
  assume "k + n \<le> i \<or> i + length ys \<le> k"
  then show "take n (drop k (splice i ys xs)) = take n (drop k xs)"
    using assms by (intro nth_equalityI) (auto simp: length_splice nth_splice)
qed

lemma store_word_eq:
  assumes "row + (4 * i + 4) \<le> length out"
  shows "store_word row i (lane_of w) True out =
    splice (row + 4 * i) (rev (le_bytes 4 (uint w))) out"
proof -
  let ?k = "row + 4 * i"
  have "store_word row i (lane_of w) True out = 
     splice (?k + 3) [ucast w] (splice (?k + 2) [ucast (drop_bit 8 w)]
       (splice (?k + 1) [ucast (drop_bit 16 w)] (splice ?k [ucast (drop_bit 24 w)] out)))"
    using assms store_byte [of 24 w] store_byte [of 16 w] store_byte [of 8 w] store_byte [of 0 w]
    by (simp add: store_word_def splice_1 length_splice ac_simps)
  also have "\<dots> = splice ?k (rev (le_bytes 4 (uint w))) out"
    using assms splice_splice [of ?k "[ucast (drop_bit 24 w)]" "[ucast (drop_bit 16 w)]" out]
     splice_splice [of ?k "[ucast (drop_bit 24 w), ucast (drop_bit 16 w)]" "[ucast (drop_bit 8 w)]" out]
     splice_splice [of ?k "[ucast (drop_bit 24 w), ucast (drop_bit 16 w), ucast (drop_bit 8 w)]" "[ucast w]" out]
    by (simp add: be_bytes_word numeral_3_eq_3)
  finally show ?thesis .
qed


lemma sha256_lane_eq:
  assumes "length m = L" "r < B" "32 * B \<le> length out"
    "L * r + L \<le> length buf" "take L (drop (L * r) buf) = m"
  shows "sha256_lane buf B L (sha_blocks L) r out = splice (32 * r) (sha256 m) out"
proof -
  define h where "h = fold (\<lambda>b. sha_compress (sha_block (sha_pad m) b)) [0..<sha_blocks L]
              (map word_of_int sha256_H)"
  let ?be = "\<lambda>w :: word32. rev (le_bytes 4 (uint w))"
  have l: "length h = 8"
  proof -
    have "length (fold (\<lambda>b. sha_compress (sha_block (sha_pad m) b)) bs (s :: word32 list)) = length s" for bs s
      by (induction bs arbitrary: s) simp_all
    then show ?thesis by (simp add: h_def sha256_H_def)
  qed
  have r: "32 * r + 32 \<le> length out"
    using assms(2,3) by linarith
  have len: "length (concat (map ?be ws)) = 4 * length ws" for ws
    by (induction ws) simp_all
  have "fold (\<lambda>widx. store_word (r * 32) widx (map lane_of h ! widx) True) [0..<n] out =
      splice (32 * r) (concat (map ?be (take n h))) out" if "n \<le> 8" for n
    using that
  proof (induction n)
    case 0
    show ?case by (simp add: splice_def)
  next
    case (Suc n)
    have t: "take (Suc n) h = take n h @ [h ! n]"
      using Suc.prems l by (simp add: take_Suc_conv_app_nth)
    from Suc l r show ?case
      using splice_splice [of "32 * r" "concat (map ?be (take n h))" "?be (h ! n)" out]
      unfolding t
      by (simp add: store_word_eq length_splice len ac_simps)
  qed
  from this [of 8] l kernel_state_eq [OF assms(1,2,4,5)] show ?thesis
    using assms(1,2) by (simp add: sha256_lane_def sha256_def Let_def h_def)
qed

lemma length_sha256: "length (sha256 m) = 32"
proof -
  have l: "length (fold (\<lambda>b. sha_compress (sha_block (sha_pad m) b)) bs (s :: word32 list)) = length s" for bs s
    by (induction bs arbitrary: s) simp_all
  have "length (concat (map (\<lambda>w :: word32. rev (le_bytes 4 (uint w))) ws)) = 4 * length ws" for ws
    by (induction ws) simp_all
  then show ?thesis
    by (simp add: sha256_def Let_def l sha256_H_def)
qed

lemma sha256_lane_idle: "\<not> r < B \<Longrightarrow> sha256_lane buf B L n r out = out"
proof -
  assume "\<not> r < B"
  then have "fold (\<lambda>widx. store_word k widx (h ! widx) (r < B)) is out = out" for k "is" h
    by (induction "is") (simp_all add: store_word_def)
  then show ?thesis by (simp add: sha256_lane_def Let_def)
qed

lemma grid_rows_cover: "{..<B} \<subseteq> set (grid_rows B)"
proof
  fix i assume "i \<in> {..<B}"
  then have pid: "i div 64 < (B + 63) div 64"
    using div_le_mono [of i "B - 1" 64] by (cases B) simp_all
  have "i div 64 * 64 + i mod 64 \<in> (\<lambda>j. i div 64 * 64 + j) ` set [0..<64]"
    unfolding set_upt by (rule imageI) simp
  then have "i \<in> set (map (\<lambda>j. i div 64 * 64 + j) [0..<64])"
    unfolding set_map by (simp only: div_mult_mod_eq)
  moreover from pid have p: "i div 64 \<in> set [0..<(B + 63) div 64]"
    unfolding set_upt by simp
  moreover have "B + 64 - 1 = B + 63" by simp
  then have eq: "grid_rows B =
      concat (map (\<lambda>pid. map (\<lambda>i. pid * 64 + i) [0..<64]) [0..<(B + 63) div 64])"
    unfolding grid_rows_def SHA256_ROWS_def by (simp only:)
  ultimately show "i \<in> set (grid_rows B)"
    unfolding eq set_concat set_map [of _ "[0..<(B + 63) div 64]"] by (intro UN_I [OF imageI [OF p]])
qed

lemma take_drop_concat:
  "\<forall>x \<in> set xs. length x = L \<Longrightarrow> i < length xs \<Longrightarrow>
   L * i + L \<le> length (concat xs) \<and> take L (drop (L * i) (concat xs)) = xs ! i"
proof (induction xs arbitrary: i)
  case Nil
  then show ?case by simp
next
  case (Cons x xs)
  then show ?case by (cases i) auto
qed

lemma lanes_fill:
  assumes "\<forall>m \<in> set msg. length m = L" "length out = 32 * length msg"
  shows "length (fold (sha256_lane (concat msg) (length msg) L (sha_blocks L)) order out) = 32 * length msg
    \<and> (\<forall>i \<in> set order. i < length msg \<longrightarrow>
      take 32 (drop (32 * i) (fold (sha256_lane (concat msg) (length msg) L (sha_blocks L)) order out)) =
        sha256 (msg ! i))"
proof (induction order rule: rev_induct)
  case Nil
  with assms show ?case by simp
next
  case (snoc r order)
  let ?out = "fold (sha256_lane (concat msg) (length msg) L (sha_blocks L)) order out"
  show ?case
  proof (cases "r < length msg")
    case False
    with snoc show ?thesis by (auto simp: sha256_lane_idle)
  next
    case True
    have "length (msg ! r) = L" using assms(1) True by simp
    then have lane: "sha256_lane (concat msg) (length msg) L (sha_blocks L) r ?out =
        splice (32 * r) (sha256 (msg ! r)) ?out"
      using snoc True take_drop_concat [OF assms(1) True] by (intro sha256_lane_eq) auto
    have "32 * r + 32 \<le> 32 * length msg"
      using True by simp
    have sep: "32 * i + 32 \<le> 32 * r \<or> 32 * r + 32 \<le> 32 * i" if "i \<noteq> r" for i
      using that by linarith
    have "take 32 (drop (32 * i) (splice (32 * r) (sha256 (msg ! r)) ?out)) =
        (if i = r then sha256 (msg ! r) else take 32 (drop (32 * i) ?out))" for i
      using take_drop_splice [of "32 * r" "sha256 (msg ! r)" ?out] sep [of i] snoc
        \<open>32 * r + 32 \<le> 32 * length msg\<close> by (simp add: length_sha256)
    with snoc \<open>32 * r + 32 \<le> 32 * length msg\<close> show ?thesis
      by (simp add: lane length_splice length_sha256)
  qed
qed

lemma triton_digests:
  assumes "set (grid_rows (length msg)) \<subseteq> set order"
    "\<forall>m \<in> set msg. length m = L" "length out0 = 32 * length msg"
  shows "sha256_many_triton order out0 L msg = map sha256 msg"
proof -
  have "i \<in> set order" if "i < length msg" for i
    using that assms(1) grid_rows_cover [of "length msg"] by auto
  then show ?thesis
    using lanes_fill [OF assms(2,3), of order]
    by (intro nth_equalityI) (auto simp: sha256_many_triton_def rows_of_def Let_def sha_blocks_def)
qed

section \<open>Properties\<close>

text \<open>C19: the Triton kernel and \<^verbatim>\<open>hashlib\<close> give the same digests: for any batch of equally long
  rows, any first contents of the output buffer and any order in which the device runs the lanes of
  the grid, \<^verbatim>\<open>sha256_many\<close> returns the FIPS 180-4 digest of every row, whichever path it takes.\<close>

theorem sha256_many_path_independent:
  assumes "set order = set (grid_rows (length msg))"
    "\<forall>m \<in> set msg. length m = L" "length out0 = 32 * length msg"
  shows "sha256_many is_cuda use_triton launch_ok order out0 L msg = map sha256 msg"
  using triton_digests [of msg order L out0] assms
  by (simp add: sha256_many_def sha256_many_cpu_def)

theorem sha256_many_path_independent_witness:
  "sha256_many True True True (rev (grid_rows 2)) (replicate 64 0) 3 [[97, 98, 99], [100, 101, 102]] =
     map sha256 [[97, 98, 99], [100, 101, 102]]"
  by (rule sha256_many_path_independent) (simp_all add: numeral_2_eq_2)
end
