(* ===== verification/TargetCheck.thy ===== *)
theory TargetCheck
  imports Hex Uint256
begin

text \<open>
  The target side of \<^verbatim>\<open>pow_utils.py\<close>: the byte-wise comparison of digests with a target, and the
  decoders of targets given as hexadecimal text or as compact bits.
\<close>

section \<open>Comparison\<close>

text \<open>
  One iteration of \<^verbatim>\<open>check_hash_against_target\<close> for one row: the flags \<^verbatim>\<open>decided\<close> and
  \<^verbatim>\<open>result\<close> after byte \<open>i\<close>.
\<close>

definition decide_byte :: "byte list \<Rightarrow> nat \<Rightarrow> byte list \<Rightarrow> bool \<times> bool \<Rightarrow> bool \<times> bool" where
  "decide_byte t_le i d = (\<lambda>(decided, result).
     (let lt = d ! i < t_le ! i \<and> \<not> decided;
          gt = d ! i > t_le ! i \<and> \<not> decided
      in (decided \<or> lt \<or> gt, result \<or> lt)))"

text \<open>The loop over byte positions, left as soon as every row is decided.\<close>

fun target_loop :: "byte list \<Rightarrow> byte list list \<Rightarrow> nat list \<Rightarrow> (bool \<times> bool) list \<Rightarrow> (bool \<times> bool) list" where
  "target_loop t_le digest [] st = st"
| "target_loop t_le digest (i # is) st =
     (let st' = map2 (decide_byte t_le i) digest st
      in if list_all fst st' then st' else target_loop t_le digest is st')"

definition check_hash_against_target :: "byte list list \<Rightarrow> byte list \<Rightarrow> bool list" where
  "check_hash_against_target digest target =
     (let t_le = rev target
      in map (\<lambda>(decided, result). result \<or> \<not> decided)
           (target_loop t_le digest (rev [0..<32]) (replicate (length digest) (False, False))))"

text \<open>\<^verbatim>\<open>hex_to_bytes_tensor\<close> and \<^verbatim>\<open>nbits_to_target\<close>.\<close>

definition hex_to_bytes_tensor :: "string \<Rightarrow> byte list res" where
  "hex_to_bytes_tensor s = (if s = [] then Inr [] else unhexlify s)"

definition nbits_to_target :: "int \<Rightarrow> byte list res" where
  "nbits_to_target n =
     (let exponent = drop_bit 24 n;
          mantissa = n AND 0x00ffffff;
          target_int = (if exponent \<le> 3 then drop_bit (nat (8 * (3 - exponent))) mantissa
                        else push_bit (nat (8 * (exponent - 3))) mantissa)
      in to_bytes_be 32 target_int)"

section \<open>The comparison is the integer comparison\<close>

lemma from_le_Cons_less:
  assumes "length xs = length ys"
  shows "from_le (x # xs) < from_le (y # ys) \<longleftrightarrow> from_le xs < from_le ys \<or> xs = ys \<and> x < y"
proof -
  have x: "0 \<le> uint x" "uint x < 256" and y: "0 \<le> uint y" "uint y < 256"
    using uint_bounded [of x] uint_bounded [of y] by auto
  consider "from_le xs < from_le ys" | "from_le xs = from_le ys" | "from_le ys < from_le xs"
    by linarith
  then show ?thesis
  proof cases
    case 1
    then have "uint x + 256 * from_le xs < uint y + 256 * from_le ys"
      using x y by linarith
    with 1 show ?thesis by simp
  next
    case 2
    then have "xs = ys" using from_le_inj [OF assms] by simp
    then show ?thesis by (simp add: word_less_def)
  next
    case 3
    then have "xs \<noteq> ys" by auto
    moreover from 3 have "\<not> uint x + 256 * from_le xs < uint y + 256 * from_le ys"
      using x y by linarith
    ultimately show ?thesis using 3 by simp
  qed
qed

text \<open>The flags that byte positions from \<open>k\<close> upwards determine.\<close>

definition flags_from :: "byte list \<Rightarrow> nat \<Rightarrow> byte list \<Rightarrow> bool \<times> bool" where
  "flags_from t k d = (drop k d \<noteq> drop k t, from_le (drop k d) < from_le (drop k t))"

lemma decide_byte_flags:
  assumes "length d = length t" "k < length t"
  shows "decide_byte t k d (flags_from t (Suc k) d) = flags_from t k d"
proof -
  have "drop k d = d ! k # drop (Suc k) d" "drop k t = t ! k # drop (Suc k) t"
    using assms by (simp_all add: Cons_nth_drop_Suc)
  moreover have "length (drop (Suc k) d) = length (drop (Suc k) t)"
    using assms by simp
  ultimately show ?thesis
    by (simp only: flags_from_def from_le_Cons_less)
      (auto simp: decide_byte_def Let_def)
qed

lemma flags_final:
  assumes "length d = length t" "fst (flags_from t k d)"
  shows "snd (flags_from t k d) \<longleftrightarrow> from_le d \<le> from_le t"
proof (cases "k \<le> length t")
  case True
  let ?a = "from_le (take k d)" and ?b = "from_le (take k t)"
  have len: "length (take k d) = k" "length (take k t) = k"
    using assms True by simp_all
  have b: "0 \<le> ?a" "?a < 256 ^ k" "0 \<le> ?b" "?b < 256 ^ k"
    using from_le_bounds [of "take k d"] from_le_bounds [of "take k t"] len by auto
  have e: "from_le d = ?a + 256 ^ k * from_le (drop k d)" "from_le t = ?b + 256 ^ k * from_le (drop k t)"
    using from_le_append [of "take k d" "drop k d"] from_le_append [of "take k t" "drop k t"] len
    by simp_all
  have ne: "from_le (drop k d) \<noteq> from_le (drop k t)"
    using assms from_le_inj [of "drop k d" "drop k t"] by (simp add: flags_from_def)
  have step: "a + 256 ^ k * x < b + 256 ^ k * y" if "x < y" "a < 256 ^ k" "0 \<le> b" for a b x y :: int
  proof -
    have "256 ^ k * (x + 1) \<le> 256 ^ k * y"
      using that by (intro mult_left_mono) auto
    with that show ?thesis by (simp add: algebra_simps)
  qed
  show ?thesis
    using ne step [of "from_le (drop k d)" "from_le (drop k t)" ?a ?b]
      step [of "from_le (drop k t)" "from_le (drop k d)" ?b ?a] b
    unfolding flags_from_def snd_conv e by linarith
next
  case False
  with assms show ?thesis by (simp add: flags_from_def)
qed

lemma target_loop_result:
  assumes "\<forall>d \<in> set ds. length d = length t" "k \<le> length t"
  shows "map (\<lambda>(decided, result). result \<or> \<not> decided)
      (target_loop t ds (rev [0..<k]) (map (flags_from t k) ds)) = map (\<lambda>d. from_le d \<le> from_le t) ds"
  using assms(2)
proof (induction k)
  case 0
  have "from_le d \<le> from_le t \<longleftrightarrow> from_le d < from_le t \<or> d = t" if "d \<in> set ds" for d
    using that assms(1) from_le_inj [of d t] by auto
  then show ?case
    by (auto simp: flags_from_def)
next
  case (Suc k)
  have st: "map2 (decide_byte t k) ds (map (flags_from t (Suc k)) ds) = map (flags_from t k) ds"
    using Suc.prems assms(1) by (intro nth_equalityI) (auto simp: decide_byte_flags)
  have "snd (flags_from t k d) \<or> \<not> fst (flags_from t k d) \<longleftrightarrow> from_le d \<le> from_le t"
    if "d \<in> set ds" "fst (flags_from t k d)" for d
    using flags_final [of d t k] that assms(1) by auto
  then have "map (\<lambda>(decided, result). result \<or> \<not> decided) (map (flags_from t k) ds) =
      map (\<lambda>d. from_le d \<le> from_le t) ds" if "list_all fst (map (flags_from t k) ds)"
    using that by (auto simp: list_all_iff case_prod_unfold)
  moreover have "target_loop t ds (rev [0..<Suc k]) (map (flags_from t (Suc k)) ds) =
      (if list_all fst (map (flags_from t k) ds) then map (flags_from t k) ds
       else target_loop t ds (rev [0..<k]) (map (flags_from t k) ds))"
    by (simp only: upt_Suc_append rev_append rev.simps append_Nil append_Cons zero_le target_loop.simps
        st Let_def)
  ultimately show ?case
    using Suc by (cases "list_all fst (map (flags_from t k) ds)") simp_all
qed

lemma hash_check_correct:
  assumes "\<forall>d \<in> set digests. length d = 32" "length target = 32"
  shows "check_hash_against_target digests target = map (\<lambda>d. from_le d \<le> from_be target) digests"
proof -
  have "replicate (length digests) (False, False) = map (flags_from (rev target) 32) digests"
    using assms by (intro nth_equalityI) (auto simp: flags_from_def)
  with target_loop_result [of digests "rev target" 32] assms show ?thesis
    by (simp add: check_hash_against_target_def from_be_def)
qed

section \<open>The two decoders of compact bits\<close>

lemma and_ffffff: "(n :: int) AND 0xffffff = n mod 2 ^ 24"
proof -
  have "(0xffffff :: int) = mask 24"
    by (simp add: mask_eq_exp_minus_1)
  then show ?thesis
    by (simp only: take_bit_eq_mask [symmetric] take_bit_eq_mod)
qed

lemma mod_24_23: "(n :: int) mod 2 ^ 24 = n mod 2 ^ 23 + of_bool (odd (n div 2 ^ 23)) * 2 ^ 23"
proof -
  have "n mod (2 ^ 23 * 2) = 2 ^ 23 * (n div 2 ^ 23 mod 2) + n mod 2 ^ 23"
    by (rule zmod_zmult2_eq) simp
  then show ?thesis
    by (simp add: mod2_eq_if)
qed

lemma nbits_to_target_eq:
  "nbits_to_target n =
     (let e = n div 2 ^ 24; m = n mod 2 ^ 24
      in to_bytes_be 32 (if e \<le> 3 then m div 256 ^ nat (3 - e) else m * 256 ^ nat (e - 3)))"
proof -
  have p: "(2 :: int) ^ nat (8 * k) = 256 ^ nat k" if "0 \<le> k" for k
    using that by (simp add: nat_mult_distrib power_mult)
  show ?thesis
    using p [of "3 - n div 2 ^ 24"] p [of "n div 2 ^ 24 - 3"]
    unfolding nbits_to_target_def Let_def and_ffffff drop_bit_eq_div push_bit_eq_mult
    by auto
qed

section \<open>Properties\<close>

text \<open>C23: \<^verbatim>\<open>check_hash_against_target\<close> accepts a row exactly when the digest, read as a
  little-endian integer, is at most the target, read as a big-endian integer; leaving the loop
  early does not change any row.\<close>

theorem check_hash_is_integer_order:
  assumes "\<forall>d \<in> set digests. length d = 32" "length target = 32"
  shows "check_hash_against_target digests target = map (\<lambda>d. from_le d \<le> from_be target) digests"
  by (rule hash_check_correct [OF assms])

theorem check_hash_is_integer_order_witness:
  "check_hash_against_target [replicate 31 0 @ [3], replicate 32 7] (5 # replicate 31 0) =
     map (\<lambda>d. from_le d \<le> from_be (5 # replicate 31 0)) [replicate 31 0 @ [3], replicate 32 7]"
  by (rule check_hash_is_integer_order) simp_all

text \<open>C31: \<^verbatim>\<open>nbits_to_target\<close> and \<^verbatim>\<open>set_compact\<close> decode the same compact bits differently: they
  agree when the sign bit is clear; when it is set, \<^verbatim>\<open>nbits_to_target\<close> takes it for a mantissa
  bit and yields a target that is larger by \<open>2 ^ 23\<close> shifted by the exponent.\<close>


theorem nbits_to_target_sign_bit:
  "nbits_to_target n = to_bytes_be 32
     (if \<not> fst (snd (set_compact n)) then fst (set_compact n)
      else if n div 2 ^ 24 \<le> 3 then (n mod 2 ^ 23 + 2 ^ 23) div 256 ^ nat (3 - n div 2 ^ 24)
      else fst (set_compact n) + 2 ^ 23 * 256 ^ nat (n div 2 ^ 24 - 3))"
  unfolding nbits_to_target_eq set_compact_eq Let_def mod_24_23
  by (simp add: algebra_simps)

end
