(* ===== verification/Doubles.thy ===== *)
theory Doubles
  imports Complex_Main Uint256
begin

text \<open>
  Python floats (IEEE binary64), modelled exactly as dyadic numbers: the comparisons and
  \<^verbatim>\<open>math.frexp\<close> as the modules use them, and the real number a finite double stands for.
\<close>

section \<open>Values and comparisons\<close>

text \<open>A finite double is \<open>m * 2 ^ e\<close>; \<open>f64_ok\<close> bounds the significand to 53 bits.\<close>

datatype f64 = NaN | Inf bool | Fin int int

fun f64_ok :: "f64 \<Rightarrow> bool" where
  "f64_ok (Fin m e) = (\<bar>m\<bar> < 2 ^ 53)"
| "f64_ok x = True"

fun isfinite :: "f64 \<Rightarrow> bool" where
  "isfinite (Fin m e) = True"
| "isfinite x = False"

text \<open>\<^verbatim>\<open>x <= y\<close> and \<^verbatim>\<open>x < y\<close>; comparisons with NaN are false.\<close>

fun f64_le :: "f64 \<Rightarrow> f64 \<Rightarrow> bool" where
  "f64_le (Fin m e) (Fin n f) = (let d = min e f in m * 2 ^ nat (e - d) \<le> n * 2 ^ nat (f - d))"
| "f64_le NaN y = False"
| "f64_le x NaN = False"
| "f64_le (Inf s) (Inf t) = (s \<or> \<not> t)"
| "f64_le (Inf s) (Fin n f) = s"
| "f64_le (Fin m e) (Inf t) = (\<not> t)"

definition f64_lt :: "f64 \<Rightarrow> f64 \<Rightarrow> bool" where
  "f64_lt x y = (f64_le x y \<and> \<not> f64_le y x)"

text \<open>
  \<^verbatim>\<open>m, e = math.frexp(x); mant = int(math.ldexp(m, 53))\<close> for a positive finite \<open>x\<close>: the
  53-bit integer significand and the exponent of \<^verbatim>\<open>frexp\<close>.
\<close>

definition frexp53 :: "int \<Rightarrow> int \<Rightarrow> int \<times> int" where
  "frexp53 m e = (let b = bit_length m in (m * 2 ^ (53 - b), e + int b))"

section \<open>The real number a double stands for\<close>

fun dval :: "f64 \<Rightarrow> real" where
  "dval (Fin m e) = real_of_int m * 2 powr real_of_int e"
| "dval x = 0"

lemma f64_le_dval:
  assumes "isfinite x" "isfinite y"
  shows "f64_le x y \<longleftrightarrow> dval x \<le> dval y"
proof -
  obtain m e n f where x: "x = Fin m e" and y: "y = Fin n f"
    using assms by (cases x; cases y) auto
  define d where "d = min e f"
  have p: "2 powr real_of_int k = 2 powr real_of_int d * 2 ^ nat (k - d)" if "d \<le> k" for k
  proof -
    have "real_of_int k = real_of_int d + real (nat (k - d))"
      using that by simp
    then show ?thesis
      by (simp only: powr_add powr_realpow)
  qed
  have "dval x \<le> dval y \<longleftrightarrow>
      2 powr real_of_int d * (real_of_int m * 2 ^ nat (e - d)) \<le>
      2 powr real_of_int d * (real_of_int n * 2 ^ nat (f - d))"
    using p [of e] p [of f] by (simp add: x y d_def ac_simps)
  also have "\<dots> \<longleftrightarrow> real_of_int m * 2 ^ nat (e - d) \<le> real_of_int n * 2 ^ nat (f - d)"
    by simp
  also have "\<dots> \<longleftrightarrow> real_of_int (m * 2 ^ nat (e - d)) \<le> real_of_int (n * 2 ^ nat (f - d))"
    by (simp only: of_int_mult of_int_power of_int_numeral)
  also have "\<dots> \<longleftrightarrow> m * 2 ^ nat (e - d) \<le> n * 2 ^ nat (f - d)"
    by (rule of_int_le_iff)
  finally show ?thesis
    by (simp add: x y Let_def d_def)
qed

lemma dval_0_1 [simp]: "dval (Fin 0 0) = 0" "dval (Fin 1 0) = 1"
  by simp_all

lemma frexp53_scaled:
  assumes "0 < m" "m < 2 ^ 53" "frexp53 m e = (mant, ex)"
  shows "real_of_int m * 2 powr real_of_int e * 2 ^ 63 =
    real_of_int mant * 2 powr real_of_int (ex + 10)"
proof -
  define b where "b = bit_length m"
  have b: "b \<le> 53"
    using assms bit_length_le_iff [of m 53] by (simp add: b_def)
  have "real_of_int mant * 2 powr real_of_int (ex + 10) =
      real_of_int m * (2 powr real (53 - b) * 2 powr real_of_int (e + int b + 10))"
    using assms(3) by (auto simp: frexp53_def Let_def b_def powr_realpow)
  also have "2 powr real (53 - b) * 2 powr real_of_int (e + int b + 10) =
      2 powr (real_of_int e + 63 :: real)"
    using b by (simp add: add.commute flip: powr_add)
  also have "2 powr (real_of_int e + 63 :: real) = 2 powr real_of_int e * 2 ^ 63"
    using powr_realpow [of 2 63] by (simp only: powr_add) simp
  finally show ?thesis by simp
qed

lemma powr_neg_nat:
  assumes "s < 0"
  shows "2 powr real_of_int s = 1 / 2 ^ nat (- s)"
proof -
  have "real_of_int s = - real (nat (- s))"
    using assms by simp
  then show ?thesis
    by (simp only: powr_minus powr_realpow inverse_eq_divide)
qed

lemma powr_pos_nat: "0 \<le> s \<Longrightarrow> 2 powr real_of_int s = 2 ^ nat s"
  by (metis of_nat_nat powr_realpow of_int_of_nat_eq zero_less_numeral)

end
