(* ===== verification/BCred.thy ===== *)
theory BCred
  imports Doubles
begin

text \<open>
  Section 4 and 5 of \<^verbatim>\<open>pow_v3.py\<close>: the integer credit of a step.  The credit-threshold table (\<^verbatim>\<open>bcred_table_r1024.py\<close>, a generated payload) is an
  argument \<open>thr\<close> of the definitions, and \<open>threshold_table\<close> states what the search needs of it.
  The interface is interpreted on the table the payload's header documents,
  \<^verbatim>\<open>floor(2^63 * 2^(-n/R))\<close>.
\<close>

section \<open>Constants\<close>

definition BCRED_R :: nat where "BCRED_R = 1024"
definition BCRED_N_MAX :: nat where "BCRED_N_MAX = 32 * BCRED_R"
definition BCRED_Q_ONE :: int where "BCRED_Q_ONE = push_bit 63 1"
definition ATOL_Q63_CEIL :: int where "ATOL_Q63_CEIL = 922337203685478"
definition B_FLOOR_UNITS :: int where "B_FLOOR_UNITS = 45 * int BCRED_R"
definition B_FREE_UNITS :: int where "B_FREE_UNITS = 70 * int BCRED_R"

section \<open>Interval mass\<close>

definition f64_to_q63_floor :: "f64 \<Rightarrow> int res" where
  "f64_to_q63_floor x =
     (if f64_le x (Fin 0 0) then Inr 0
      else if f64_le (Fin 1 0) x then Inr BCRED_Q_ONE
      else case x of
        Fin m0 e0 \<Rightarrow>
          (let (mant, e) = frexp53 m0 e0; shift = e + 10
           in if shift \<ge> 0 then Inr (push_bit (nat shift) mant)
              else Inr (drop_bit (nat (- shift)) mant))
      | _ \<Rightarrow> Inl ValueError)"

definition f64_to_q63_ceil :: "f64 \<Rightarrow> int res" where
  "f64_to_q63_ceil x =
     (if f64_le x (Fin 0 0) then Inr 0
      else if f64_le (Fin 1 0) x then Inr BCRED_Q_ONE
      else case x of
        Fin m0 e0 \<Rightarrow>
          (let (mant, e) = frexp53 m0 e0; shift = e + 10
           in if shift \<ge> 0 then Inr (push_bit (nat shift) mant)
              else (let s = nat (- shift) in Inr (drop_bit s (mant + push_bit s 1 - 1))))
      | _ \<Rightarrow> Inl ValueError)"

definition mass_q63_for_step :: "int \<Rightarrow> f64 \<Rightarrow> f64 \<Rightarrow> int res" where
  "mass_q63_for_step atol_q63_ceil lower upper =
     (if \<not> isfinite lower \<or> \<not> isfinite upper then Inl ValueError
      else if f64_lt upper lower then Inl ValueError
      else rbind (f64_to_q63_ceil upper) (\<lambda>hi_q.
           rbind (f64_to_q63_floor lower) (\<lambda>lo_q.
             (let mass = (hi_q - lo_q) + 2 * atol_q63_ceil
              in Inr (if mass > BCRED_Q_ONE then BCRED_Q_ONE else mass)))))"

section \<open>Credit\<close>

text \<open>The binary search for the largest index whose threshold is at least the mass.\<close>

function credit_search :: "int list \<Rightarrow> int \<Rightarrow> nat \<Rightarrow> nat \<Rightarrow> nat" where
  "credit_search thr q lo hi =
     (if lo < hi
      then (let mid = (lo + hi + 1) div 2
            in if thr ! mid \<ge> q then credit_search thr q mid hi
               else credit_search thr q lo (mid - 1))
      else lo)"
  by pat_completeness auto
termination
  by (relation "measure (\<lambda>(thr, q, lo, hi). hi - lo)") auto

declare credit_search.simps [simp del]

definition credit_units_for_step :: "int list \<Rightarrow> int \<Rightarrow> nat res" where
  "credit_units_for_step thr mass_q63 =
     (if mass_q63 \<le> 0 then Inl ValueError
      else Inr (credit_search thr mass_q63 0 BCRED_N_MAX))"

definition step_credit :: "int list \<Rightarrow> int \<Rightarrow> f64 \<times> f64 \<Rightarrow> nat res" where
  "step_credit thr atol_q63_ceil = (\<lambda>(lo, hi).
     rbind (mass_q63_for_step atol_q63_ceil lo hi) (credit_units_for_step thr))"

definition b_cred_units_from_bounds :: "int list \<Rightarrow> int \<Rightarrow> f64 list \<Rightarrow> f64 list \<Rightarrow> nat res" where
  "b_cred_units_from_bounds thr atol_q63_ceil lower_bounds upper_bounds =
     (if length lower_bounds \<noteq> length upper_bounds then Inl ValueError
      else rbind (mapr (step_credit thr atol_q63_ceil) (zip lower_bounds upper_bounds))
             (\<lambda>us. Inr (foldl (+) 0 us)))"

text \<open>\<^verbatim>\<open>b_cred_units / BCRED_R\<close>; the quotient by \<open>2 ^ 10\<close> is exact for 53-bit units.\<close>

definition b_cred_bits :: "int \<Rightarrow> f64" where
  "b_cred_bits b_cred_units = Fin b_cred_units (- 10)"

section \<open>Tiers\<close>

datatype tier = TIER_INVALID | TIER_ADMISSION | TIER_FREE

instantiation tier :: linorder
begin

fun tier_rank :: "tier \<Rightarrow> nat" where
  "tier_rank TIER_INVALID = 0"
| "tier_rank TIER_ADMISSION = 1"
| "tier_rank TIER_FREE = 2"

definition less_eq_tier :: "tier \<Rightarrow> tier \<Rightarrow> bool" where
  "less_eq_tier a b = (tier_rank a \<le> tier_rank b)"

definition less_tier :: "tier \<Rightarrow> tier \<Rightarrow> bool" where
  "less_tier a b = (tier_rank a < tier_rank b)"

instance
proof
  fix a b :: tier
  show "a \<le> b \<Longrightarrow> b \<le> a \<Longrightarrow> a = b"
    by (cases a; cases b) (simp_all add: less_eq_tier_def)
qed (auto simp: less_eq_tier_def less_tier_def)

end

definition tier_for_b_cred_units :: "int \<Rightarrow> int \<Rightarrow> int \<Rightarrow> tier" where
  "tier_for_b_cred_units b_floor_units b_free_units b_cred_units =
     (if b_cred_units < b_floor_units then TIER_INVALID
      else if b_cred_units < b_free_units then TIER_ADMISSION
      else TIER_FREE)"

section \<open>Exactness of the quantisation\<close>

text \<open>Clamping to the unit interval commutes with the integer rounding.\<close>

definition clamp_unit :: "real \<Rightarrow> real" where
  "clamp_unit r = max 0 (min 1 r)"

lemma f64_cases:
  assumes "f64_ok x" "isfinite x"
  obtains "dval x \<le> 0" "f64_le x (Fin 0 0)"
  | "1 \<le> dval x" "\<not> f64_le x (Fin 0 0)" "f64_le (Fin 1 0) x"
  | m e where "x = Fin m e" "0 < m" "m < 2 ^ 53" "0 < dval x" "dval x < 1"
      "\<not> f64_le x (Fin 0 0)" "\<not> f64_le (Fin 1 0) x"
proof -
  obtain m e where x: "x = Fin m e"
    using assms(2) by (cases x) auto
  have f: "f64_le x (Fin 0 0) \<longleftrightarrow> dval x \<le> 0" "f64_le (Fin 1 0) x \<longleftrightarrow> 1 \<le> dval x"
    using f64_le_dval [of x "Fin 0 0"] f64_le_dval [of "Fin 1 0" x] by (simp_all add: x)
  show thesis
  proof (cases "dval x \<le> 0 \<or> 1 \<le> dval x")
    case True
    with f that(1,2) show ?thesis by linarith
  next
    case False
    then have "0 < real_of_int m * 2 powr real_of_int e"
      by (simp add: x)
    then have "0 < m"
      by (simp add: zero_less_mult_iff)
    with False f assms(1) that(3) [of m e] show ?thesis
      by (simp add: x)
  qed
qed

lemma floor_exact:
  assumes "f64_ok x" "isfinite x"
  shows "f64_to_q63_floor x = Inr \<lfloor>clamp_unit (dval x) * 2 ^ 63\<rfloor>"
  using assms
proof (cases x rule: f64_cases)
  case (3 m e)
  obtain mant ex where fr: "frexp53 m e = (mant, ex)"
    by (cases "frexp53 m e")
  note sc = frexp53_scaled [OF 3(2,3) fr]
  have "\<lfloor>dval x * 2 ^ 63\<rfloor> =
    (if ex + 10 \<ge> 0 then push_bit (nat (ex + 10)) mant else drop_bit (nat (- (ex + 10))) mant)"
  proof (cases "ex + 10 \<ge> 0")
    case True
    then have "dval x * 2 ^ 63 = real_of_int (push_bit (nat (ex + 10)) mant)"
      using sc powr_pos_nat [of "ex + 10"] by (simp add: 3(1) push_bit_eq_mult)
    then have "\<lfloor>dval x * 2 ^ 63\<rfloor> = push_bit (nat (ex + 10)) mant"
      by (simp only: floor_of_int)
    with True show ?thesis by simp
  next
    case False
    then have "dval x * 2 ^ 63 = real_of_int mant / real_of_int (2 ^ nat (- (ex + 10)))"
      using sc powr_neg_nat [of "ex + 10"] by (simp add: 3(1))
    then have "\<lfloor>dval x * 2 ^ 63\<rfloor> = drop_bit (nat (- (ex + 10))) mant"
      by (simp only: floor_divide_of_int_eq drop_bit_eq_div)
    with False show ?thesis by simp
  qed
  moreover have "clamp_unit (dval x) = dval x"
    using 3 by (simp add: clamp_unit_def)
  ultimately show ?thesis
    using 3 by (simp add: f64_to_q63_floor_def fr Let_def del: dval.simps)
qed (simp_all add: f64_to_q63_floor_def clamp_unit_def BCRED_Q_ONE_def push_bit_eq_mult)

lemma ceil_div:
  assumes "0 < (d :: int)"
  shows "- ((- a) div d) = (a + d - 1) div d"
proof -
  have "(- a) div d * d \<le> - a" "- a < ((- a) div d + 1) * d"
    using int_div_bounds [OF assms, of "- a"] by auto
  then have "(a + d - 1) div d = - ((- a) div d)"
    by (intro int_div_pos_eq [where r = "a + d - 1 + (- a) div d * d"]) (auto simp: algebra_simps)
  then show ?thesis by simp
qed

lemma ceil_exact:
  assumes "f64_ok x" "isfinite x"
  shows "f64_to_q63_ceil x = Inr \<lceil>clamp_unit (dval x) * 2 ^ 63\<rceil>"
  using assms
proof (cases x rule: f64_cases)
  case (3 m e)
  obtain mant ex where fr: "frexp53 m e = (mant, ex)"
    by (cases "frexp53 m e")
  note sc = frexp53_scaled [OF 3(2,3) fr]
  have "\<lceil>dval x * 2 ^ 63\<rceil> =
    (if ex + 10 \<ge> 0 then push_bit (nat (ex + 10)) mant
     else drop_bit (nat (- (ex + 10))) (mant + push_bit (nat (- (ex + 10))) 1 - 1))"
  proof (cases "ex + 10 \<ge> 0")
    case True
    then have "dval x * 2 ^ 63 = real_of_int (push_bit (nat (ex + 10)) mant)"
      using sc powr_pos_nat [of "ex + 10"] by (simp add: 3(1) push_bit_eq_mult)
    then have "\<lceil>dval x * 2 ^ 63\<rceil> = push_bit (nat (ex + 10)) mant"
      by (simp only: ceiling_of_int)
    with True show ?thesis by simp
  next
    case False
    let ?d = "2 ^ nat (- (ex + 10)) :: int"
    from False have "dval x * 2 ^ 63 = real_of_int mant / real_of_int ?d"
      using sc powr_neg_nat [of "ex + 10"] by (simp add: 3(1))
    then have "\<lceil>dval x * 2 ^ 63\<rceil> = - ((- mant) div ?d)"
      by (simp only: ceiling_divide_eq_div)
    also have "\<dots> = (mant + ?d - 1) div ?d"
    proof -
      have "(0 :: int) < ?d" by simp
      then show ?thesis by (rule ceil_div)
    qed
    also have "\<dots> = drop_bit (nat (- (ex + 10))) (mant + push_bit (nat (- (ex + 10))) 1 - 1)"
      by (simp add: drop_bit_eq_div push_bit_eq_mult)
    finally show ?thesis using False by simp
  qed
  moreover have "clamp_unit (dval x) = dval x"
    using 3 by (simp add: clamp_unit_def)
  ultimately show ?thesis
    using 3 by (simp add: f64_to_q63_ceil_def fr Let_def del: dval.simps)
qed (simp_all add: f64_to_q63_ceil_def clamp_unit_def BCRED_Q_ONE_def push_bit_eq_mult)


lemma mass_bounds:
  assumes "f64_ok lower" "f64_ok upper" "isfinite lower" "isfinite upper"
    "dval lower \<le> dval upper" "0 \<le> atol"
  obtains q where "mass_q63_for_step atol lower upper = Inr q" "0 \<le> q" "q \<le> 2 ^ 63"
    "2 * atol \<le> q \<or> q = 2 ^ 63"
    "q = 2 ^ 63 \<or> (clamp_unit (dval upper) - clamp_unit (dval lower)) * 2 ^ 63 + 2 * real_of_int atol \<le> real_of_int q"
proof -
  let ?u = "clamp_unit (dval upper) * 2 ^ 63" and ?l = "clamp_unit (dval lower) * 2 ^ 63"
  define mass where "mass = \<lceil>?u\<rceil> - \<lfloor>?l\<rfloor> + 2 * atol"
  have "?l \<le> ?u"
    using assms(5) by (simp add: clamp_unit_def)
  then have "\<lfloor>?l\<rfloor> \<le> \<lceil>?u\<rceil>"
    by linarith
  with assms(6) have m: "0 \<le> mass" "2 * atol \<le> mass"
    by (simp_all add: mass_def)
  have r: "?u - ?l + 2 * real_of_int atol \<le> real_of_int mass"
    unfolding mass_def by (simp, linarith)
  have "mass_q63_for_step atol lower upper = Inr (if 2 ^ 63 < mass then 2 ^ 63 else mass)"
    using assms f64_le_dval [of lower upper]
    by (simp add: mass_q63_for_step_def f64_lt_def floor_exact ceil_exact mass_def Let_def
        BCRED_Q_ONE_def push_bit_eq_mult)
  with that [of "if 2 ^ 63 < mass then 2 ^ 63 else mass"] m r show thesis
    by (auto simp: left_diff_distrib)
qed

section \<open>The credit search\<close>

locale threshold_table =
  fixes thr :: "int list"
  assumes table_length: "length thr = BCRED_N_MAX + 1"
    and table_top: "thr ! 0 = BCRED_Q_ONE"
    and table_noninc: "i \<le> j \<Longrightarrow> j \<le> BCRED_N_MAX \<Longrightarrow> thr ! j \<le> thr ! i"
begin

lemma credit_search_spec:
  assumes "lo \<le> hi" "hi \<le> BCRED_N_MAX" "q \<le> thr ! lo"
  shows "lo \<le> credit_search thr q lo hi" "credit_search thr q lo hi \<le> hi"
    "q \<le> thr ! credit_search thr q lo hi"
    "\<And>m. credit_search thr q lo hi < m \<Longrightarrow> m \<le> hi \<Longrightarrow> thr ! m < q"
proof -
  have "lo \<le> credit_search thr q lo hi \<and> credit_search thr q lo hi \<le> hi \<and>
      q \<le> thr ! credit_search thr q lo hi \<and>
      (\<forall>m. credit_search thr q lo hi < m \<and> m \<le> hi \<longrightarrow> thr ! m < q)"
    using assms
  proof (induction "hi - lo" arbitrary: lo hi rule: less_induct)
    case less
    define mid where "mid = (lo + hi + 1) div 2"
    show ?case
    proof (cases "lo < hi")
      case False
      with less.prems show ?thesis
        by (subst (1 2 3 4) credit_search.simps) simp
    next
      case True
      then have mid: "lo < mid" "mid \<le> hi"
        by (simp_all add: mid_def)
      have step: "credit_search thr q lo hi =
          (if q \<le> thr ! mid then credit_search thr q mid hi else credit_search thr q lo (mid - 1))"
        using True by (subst credit_search.simps) (simp add: Let_def mid_def)
      show ?thesis
      proof (cases "q \<le> thr ! mid")
        case True
        have "hi - mid < hi - lo"
          using mid by simp
        with less.hyps [of hi mid] less.prems mid True
        have "mid \<le> credit_search thr q mid hi \<and> credit_search thr q mid hi \<le> hi \<and>
          q \<le> thr ! credit_search thr q mid hi \<and>
          (\<forall>m. credit_search thr q mid hi < m \<and> m \<le> hi \<longrightarrow> thr ! m < q)"
          by blast
        with mid True show ?thesis
          by (simp add: step)
      next
        case False
        let ?s = "credit_search thr q lo (mid - 1)"
        have ih: "lo \<le> ?s" "?s \<le> mid - 1" "q \<le> thr ! ?s"
          "\<forall>m. ?s < m \<and> m \<le> mid - 1 \<longrightarrow> thr ! m < q"
          using less.hyps [of "mid - 1" lo] less.prems mid by auto
        have "thr ! m < q" if "?s < m" "m \<le> hi" for m
        proof (cases "m \<le> mid - 1")
          case False
          with that less.prems table_noninc [of mid m] have "thr ! m \<le> thr ! mid"
            by linarith
          with \<open>\<not> q \<le> thr ! mid\<close> show ?thesis by simp
        qed (use ih that in blast)
        with ih mid False show ?thesis
          by (simp add: step)
      qed
    qed
  qed
  then show "lo \<le> credit_search thr q lo hi" "credit_search thr q lo hi \<le> hi"
    "q \<le> thr ! credit_search thr q lo hi"
    "\<And>m. credit_search thr q lo hi < m \<Longrightarrow> m \<le> hi \<Longrightarrow> thr ! m < q"
    by blast+
qed

lemma credit_largest:
  assumes "0 < q" "q \<le> BCRED_Q_ONE"
  shows "\<exists>n \<le> BCRED_N_MAX. credit_units_for_step thr q = Inr n \<and> q \<le> thr ! n \<and>
    (\<forall>m \<le> BCRED_N_MAX. n < m \<longrightarrow> thr ! m < q)"
  using credit_search_spec [of 0 BCRED_N_MAX q] assms table_top
  by (auto simp: credit_units_for_step_def)

lemma credit_antimono:
  assumes "0 < p" "p \<le> q" "q \<le> BCRED_Q_ONE" "credit_units_for_step thr p = Inr a"
    "credit_units_for_step thr q = Inr b"
  shows "b \<le> a"
proof (rule ccontr)
  assume "\<not> b \<le> a"
  with credit_search_spec [of 0 BCRED_N_MAX q] credit_search_spec(4) [of 0 BCRED_N_MAX p b]
    assms table_top show False
    by (auto simp: credit_units_for_step_def split: if_splits)
qed

end

text \<open>The table documented in the header of \<^verbatim>\<open>bcred_table_r1024.py\<close>.\<close>

definition documented_threshold :: "nat \<Rightarrow> int" where
  "documented_threshold n = \<lfloor>2 ^ 63 * 2 powr (- (real n / real BCRED_R))\<rfloor>"

definition documented_table :: "int list" where
  "documented_table = map documented_threshold [0..<BCRED_N_MAX + 1]"

lemma documented_nth: "n \<le> BCRED_N_MAX \<Longrightarrow> documented_table ! n = documented_threshold n"
  unfolding documented_table_def by (simp del: upt_Suc add: nth_append less_Suc_eq_le)

interpretation doc: threshold_table documented_table
proof
  show "length documented_table = BCRED_N_MAX + 1"
    by (simp add: documented_table_def del: upt_Suc)
  show "documented_table ! 0 = BCRED_Q_ONE"
    by (simp add: documented_nth documented_threshold_def BCRED_Q_ONE_def push_bit_eq_mult)
  fix i j :: nat assume ij: "i \<le> j" "j \<le> BCRED_N_MAX"
  then have "2 powr (- (real j / real BCRED_R)) \<le> 2 powr (- (real i / real BCRED_R))"
    by (intro powr_mono) (auto simp: BCRED_R_def divide_right_mono)
  then have "documented_threshold j \<le> documented_threshold i"
    unfolding documented_threshold_def by (intro floor_mono) simp
  with ij show "documented_table ! j \<le> documented_table ! i"
    by (simp add: documented_nth)
qed

text \<open>The widened mass of a step as a real number.\<close>

definition widened_mass :: "int \<Rightarrow> f64 \<times> f64 \<Rightarrow> real" where
  "widened_mass atol = (\<lambda>(lo, hi).
     min 1 (clamp_unit (dval hi) - clamp_unit (dval lo) + 2 * real_of_int atol / 2 ^ 63))"

definition valid_step :: "f64 \<times> f64 \<Rightarrow> bool" where
  "valid_step = (\<lambda>(lo, hi). f64_ok lo \<and> f64_ok hi \<and> isfinite lo \<and> isfinite hi \<and> f64_le lo hi)"

lemma step_credit_sound:
  assumes "valid_step s" "0 < atol"
  shows "\<exists>n \<le> BCRED_N_MAX. step_credit documented_table atol s = Inr n \<and>
    widened_mass atol s \<le> 2 powr (- (real n / real BCRED_R))"
proof -
  obtain lo hi where s: "s = (lo, hi)" by (cases s)
  obtain q where q: "mass_q63_for_step atol lo hi = Inr q" "0 \<le> q" "q \<le> 2 ^ 63"
    "2 * atol \<le> q \<or> q = 2 ^ 63"
    "q = 2 ^ 63 \<or> (clamp_unit (dval hi) - clamp_unit (dval lo)) * 2 ^ 63 + 2 * real_of_int atol \<le> real_of_int q"
    using assms by (auto simp: s valid_step_def f64_le_dval intro: mass_bounds [of lo hi atol])
  obtain n where n: "n \<le> BCRED_N_MAX" "credit_units_for_step documented_table q = Inr n"
      "q \<le> documented_table ! n"
    using doc.credit_largest [of q] q(3,4) assms(2)
    by (auto simp: BCRED_Q_ONE_def push_bit_eq_mult)
  have "real_of_int q \<le> 2 ^ 63 * 2 powr (- (real n / real BCRED_R))"
    using n(1,3) by (simp add: documented_nth documented_threshold_def le_floor_iff)
  moreover have "widened_mass atol s * 2 ^ 63 \<le> real_of_int q"
    using q(5) by (auto simp: s widened_mass_def min_def field_simps)
  ultimately have "widened_mass atol s \<le> 2 powr (- (real n / real BCRED_R))"
    by simp
  with n q(1) show ?thesis
    by (auto simp: s step_credit_def)
qed

lemma credits_sound:
  assumes "\<forall>s \<in> set ss. valid_step s" "0 < atol"
  shows "\<exists>ns. mapr (step_credit documented_table atol) ss = Inr ns \<and>
    sum_list ns \<le> BCRED_N_MAX * length ss \<and>
    prod_list (map (widened_mass atol) ss) \<le> 2 powr (- (real (sum_list ns) / real BCRED_R))"
  using assms(1)
proof (induction ss)
  case Nil
  then show ?case by simp
next
  case (Cons s ss)
  obtain ns where ns: "mapr (step_credit documented_table atol) ss = Inr ns"
    "sum_list ns \<le> BCRED_N_MAX * length ss"
    "prod_list (map (widened_mass atol) ss) \<le> 2 powr (- (real (sum_list ns) / real BCRED_R))"
    using Cons by auto
  obtain n where n: "n \<le> BCRED_N_MAX" "step_credit documented_table atol s = Inr n"
    "widened_mass atol s \<le> 2 powr (- (real n / real BCRED_R))"
    using step_credit_sound [OF _ assms(2), of s] Cons.prems by auto
  have nonneg: "0 \<le> widened_mass atol x" if "valid_step x" for x
  proof (cases x)
    case (Pair lo hi)
    with that f64_le_dval [of lo hi] have "dval lo \<le> dval hi"
      by (simp add: valid_step_def)
    then have "clamp_unit (dval lo) \<le> clamp_unit (dval hi)"
      by (simp add: clamp_unit_def)
    with Pair assms(2) show ?thesis
      by (simp add: widened_mass_def)
  qed
  have "0 \<le> prod_list (map (widened_mass atol) ss)"
    using Cons.prems nonneg by (induction ss) auto
  with ns n nonneg [of s] Cons.prems
  have "widened_mass atol s * prod_list (map (widened_mass atol) ss) \<le>
      2 powr (- (real n / real BCRED_R)) * 2 powr (- (real (sum_list ns) / real BCRED_R))"
    by (intro mult_mono) auto
  also have "\<dots> = 2 powr (- (real (sum_list (n # ns)) / real BCRED_R))"
    by (simp add: powr_add [symmetric] add_divide_distrib)
  finally show ?case
    using ns n by simp
qed

lemma foldl_sum: "foldl (+) (a :: nat) ns = a + sum_list ns"
  by (induction ns arbitrary: a) (simp_all add: add.assoc)

lemma b_cred_sound:
  assumes "length los = length his" "\<forall>s \<in> set (zip los his). valid_step s" "0 < atol"
  shows "\<exists>u. b_cred_units_from_bounds documented_table atol los his = Inr u \<and>
    u \<le> BCRED_N_MAX * length los \<and>
    prod_list (map (widened_mass atol) (zip los his)) \<le> 2 powr (- (real u / real BCRED_R))"
  using credits_sound [OF assms(2,3)] assms(1)
  by (auto simp: b_cred_units_from_bounds_def foldl_sum)

lemma mass_total:
  assumes "0 < atol" "f64_ok lo" "f64_ok hi"
  shows "step_credit thr atol (lo, hi) = (if valid_step (lo, hi)
    then Inr (credit_search thr (case mass_q63_for_step atol lo hi of Inr q \<Rightarrow> q) 0 BCRED_N_MAX)
    else Inl ValueError)"
proof (cases "valid_step (lo, hi)")
  case True
  then have "dval lo \<le> dval hi"
    using f64_le_dval [of lo hi] by (simp add: valid_step_def)
  with True obtain q where "mass_q63_for_step atol lo hi = Inr q" "0 \<le> q" "q \<le> 2 ^ 63"
    "2 * atol \<le> q \<or> q = 2 ^ 63"
    using assms by (auto simp: valid_step_def intro: mass_bounds [of lo hi atol])
  with assms(1) True show ?thesis
    by (auto simp: step_credit_def credit_units_for_step_def)
next
  case False
  have total: "f64_le lo hi \<or> f64_le hi lo" if "isfinite lo" "isfinite hi"
    using f64_le_dval [of lo hi] f64_le_dval [of hi lo] that by auto
  from False assms have "mass_q63_for_step atol lo hi = Inl ValueError"
    using total by (auto simp: mass_q63_for_step_def valid_step_def f64_lt_def)
  with False show ?thesis
    by (simp add: step_credit_def)
qed

lemma mapr_if:
  "\<forall>x \<in> set xs. f x = (if P x then Inr (g x) else Inl err) \<Longrightarrow>
   mapr f xs = (if \<forall>x \<in> set xs. P x then Inr (map g xs) else Inl err)"
  by (induction xs) auto

lemma b_cred_total:
  assumes "0 < atol" "\<forall>x \<in> set los \<union> set his. f64_ok x" "length los = length his"
  shows "\<exists>g. mapr (step_credit thr atol) (zip los his) =
    (if \<forall>s \<in> set (zip los his). valid_step s then Inr (map g (zip los his)) else Inl ValueError)"
proof -
  define g where "g = (\<lambda>(lo, hi). credit_search thr (case mass_q63_for_step atol lo hi of Inr q \<Rightarrow> q) 0 BCRED_N_MAX)"
  have "step_credit thr atol s = (if valid_step s then Inr (g s) else Inl ValueError)"
    if "s \<in> set (zip los his)" for s
    using mass_total [OF assms(1), of "fst s" "snd s" thr] set_zip_leftD [of "fst s" "snd s"]
      set_zip_rightD [of "fst s" "snd s"] that assms(2) by (auto simp: g_def case_prod_beta)
  then have "mapr (step_credit thr atol) (zip los his) =
    (if \<forall>s \<in> set (zip los his). valid_step s then Inr (map g (zip los his)) else Inl ValueError)"
    by (intro mapr_if) blast
  then show ?thesis by blast
qed

section \<open>Properties\<close>

text \<open>The quantisation of a bound is exact: for every finite double the floor (ceiling) helper
  returns the floor (ceiling) of the bound, clamped to the unit interval, times \<open>2 ^ 63\<close>, with no
  rounding in between.\<close>

theorem q63_quantisation_exact:
  assumes "f64_ok x" "isfinite x"
  shows "f64_to_q63_floor x = Inr \<lfloor>clamp_unit (dval x) * 2 ^ 63\<rfloor> \<and>
    f64_to_q63_ceil x = Inr \<lceil>clamp_unit (dval x) * 2 ^ 63\<rceil>"
  using floor_exact [OF assms] ceil_exact [OF assms] by simp

theorem q63_quantisation_exact_witness:
  "f64_to_q63_floor (Fin 3602879701896397 (- 55)) = Inr \<lfloor>clamp_unit (dval (Fin 3602879701896397 (- 55))) * 2 ^ 63\<rfloor> \<and>
   f64_to_q63_ceil (Fin 3602879701896397 (- 55)) = Inr \<lceil>clamp_unit (dval (Fin 3602879701896397 (- 55))) * 2 ^ 63\<rceil>"
  by (rule q63_quantisation_exact) simp_all

text \<open>For every non-increasing threshold table that starts at \<open>2 ^ 63\<close>, the binary search of
  \<^verbatim>\<open>credit_units_for_step\<close> ends and returns the largest index whose threshold is at least the
  mass.\<close>

theorem credit_is_largest_index:
  assumes "threshold_table thr" "0 < q" "q \<le> BCRED_Q_ONE"
  shows "\<exists>n \<le> BCRED_N_MAX. credit_units_for_step thr q = Inr n \<and> q \<le> thr ! n \<and>
    (\<forall>m \<le> BCRED_N_MAX. n < m \<longrightarrow> thr ! m < q)"
  by (rule threshold_table.credit_largest [OF assms])

theorem credit_is_largest_index_witness:
  "\<exists>n \<le> BCRED_N_MAX. credit_units_for_step documented_table 5000000000 = Inr n \<and>
    5000000000 \<le> documented_table ! n \<and>
    (\<forall>m \<le> BCRED_N_MAX. n < m \<longrightarrow> documented_table ! m < 5000000000)"
  by (rule credit_is_largest_index [OF doc.threshold_table_axioms])
    (simp_all add: BCRED_Q_ONE_def push_bit_eq_mult)

text \<open>C24: the credit never over-counts: with the documented table and any positive tolerance, the
  credit of a window of finite, ordered bounds is returned, stays below the cap, and the product of
  the widened masses of its steps is at most two to the minus credited bits.\<close>

theorem b_cred_never_over_credits:
  assumes "length los = length his" "\<forall>s \<in> set (zip los his). valid_step s" "0 < atol"
  shows "\<exists>u. b_cred_units_from_bounds documented_table atol los his = Inr u \<and>
    u \<le> BCRED_N_MAX * length los \<and>
    prod_list (map (widened_mass atol) (zip los his)) \<le> 2 powr (- (real u / real BCRED_R))"
  by (rule b_cred_sound [OF assms])

theorem b_cred_never_over_credits_witness:
  "\<exists>u. b_cred_units_from_bounds documented_table ATOL_Q63_CEIL [Fin 0 0, Fin 1 (- 2)] [Fin 1 (- 3), Fin 1 (- 1)] = Inr u \<and>
    u \<le> BCRED_N_MAX * length [Fin 0 0, Fin 1 (- 2)] \<and>
    prod_list (map (widened_mass ATOL_Q63_CEIL) (zip [Fin 0 0, Fin 1 (- 2)] [Fin 1 (- 3), Fin 1 (- 1)]))
      \<le> 2 powr (- (real u / real BCRED_R))"
  by (rule b_cred_never_over_credits) (simp_all add: valid_step_def ATOL_Q63_CEIL_def)

text \<open>The tier bounds the joint mass of the window: a window that needs no admission has
  joint mass at most \<open>2 ^ -70\<close>, one that needs admission at most \<open>2 ^ -45\<close>.\<close>

theorem tier_bounds_mass:
  assumes "length los = length his" "\<forall>s \<in> set (zip los his). valid_step s" "0 < atol"
    "b_cred_units_from_bounds documented_table atol los his = Inr u"
  shows "prod_list (map (widened_mass atol) (zip los his)) \<le>
    (case tier_for_b_cred_units B_FLOOR_UNITS B_FREE_UNITS (int u) of
       TIER_INVALID \<Rightarrow> 1 | TIER_ADMISSION \<Rightarrow> 2 powr (- 45) | TIER_FREE \<Rightarrow> 2 powr (- 70))"
proof -
  have le: "prod_list (map (widened_mass atol) (zip los his)) \<le> 2 powr (- (real u / real BCRED_R))"
    using b_cred_sound [OF assms(1-3)] assms(4) by simp
  have p: "2 powr (- (real u / real BCRED_R)) \<le> 2 powr (- real b)" if "b * 1024 \<le> u" for b
  proof -
    have "real b \<le> real u / real BCRED_R"
      using that by (simp add: BCRED_R_def pos_le_divide_eq)
    then show ?thesis by simp
  qed
  consider "u < 46080" | "46080 \<le> u" "u < 71680" | "71680 \<le> u"
    by linarith
  then show ?thesis
  proof cases
    case 1
    then show ?thesis
      using order_trans [OF le p [of 0]]
      by (simp add: tier_for_b_cred_units_def B_FLOOR_UNITS_def BCRED_R_def)
  next
    case 2
    then show ?thesis
      using order_trans [OF le p [of 45]]
      by (simp add: tier_for_b_cred_units_def B_FLOOR_UNITS_def B_FREE_UNITS_def BCRED_R_def)
  next
    case 3
    then show ?thesis
      using order_trans [OF le p [of 70]]
      by (simp add: tier_for_b_cred_units_def B_FLOOR_UNITS_def B_FREE_UNITS_def BCRED_R_def)
  qed
qed

theorem tier_bounds_mass_witness:
  "\<exists>u. b_cred_units_from_bounds documented_table ATOL_Q63_CEIL [Fin 0 0, Fin 1 (- 2)] [Fin 1 (- 3), Fin 1 (- 1)] = Inr u \<and>
    prod_list (map (widened_mass ATOL_Q63_CEIL) (zip [Fin 0 0, Fin 1 (- 2)] [Fin 1 (- 3), Fin 1 (- 1)])) \<le>
    (case tier_for_b_cred_units B_FLOOR_UNITS B_FREE_UNITS (int u) of
       TIER_INVALID \<Rightarrow> 1 | TIER_ADMISSION \<Rightarrow> 2 powr (- 45) | TIER_FREE \<Rightarrow> 2 powr (- 70))"
proof -
  let ?los = "[Fin 0 0, Fin 1 (- 2)]" and ?his = "[Fin 1 (- 3), Fin 1 (- 1)]"
  have v: "\<forall>s \<in> set (zip ?los ?his). valid_step s" and a: "0 < ATOL_Q63_CEIL"
    by (simp_all add: valid_step_def ATOL_Q63_CEIL_def)
  obtain u where "b_cred_units_from_bounds documented_table ATOL_Q63_CEIL ?los ?his = Inr u"
    using b_cred_sound [OF _ v a] by auto
  with tier_bounds_mass [OF _ v a] show ?thesis by simp
qed

text \<open>C19: \<^verbatim>\<open>b_cred_units_from_bounds\<close> raises ValueError, and nothing else, exactly when the lists
  differ in length or some step has a bound that is not finite or an upper bound below its lower
  bound.\<close>

theorem b_cred_rejects_invalid:
  assumes "0 < atol" "\<forall>x \<in> set los \<union> set his. f64_ok x"
  shows "case b_cred_units_from_bounds thr atol los his of
      Inl err \<Rightarrow> err = ValueError \<and>
        (length los \<noteq> length his \<or> (\<exists>s \<in> set (zip los his). \<not> valid_step s))
    | Inr u \<Rightarrow> length los = length his \<and> (\<forall>s \<in> set (zip los his). valid_step s)"
  using b_cred_total [OF assms, of thr]
  by (auto simp: b_cred_units_from_bounds_def)

theorem b_cred_rejects_invalid_witness:
  "case b_cred_units_from_bounds documented_table ATOL_Q63_CEIL [Fin 1 0, NaN] [Fin 1 (- 1), Fin 1 0] of
      Inl err \<Rightarrow> err = ValueError \<and>
        (length [Fin 1 0, NaN] \<noteq> length [Fin 1 (- 1), Fin 1 0] \<or>
         (\<exists>s \<in> set (zip [Fin 1 0, NaN] [Fin 1 (- 1), Fin 1 0]). \<not> valid_step s))
    | Inr u \<Rightarrow> length [Fin 1 0, NaN] = length [Fin 1 (- 1), Fin 1 0] \<and>
        (\<forall>s \<in> set (zip [Fin 1 0, NaN] [Fin 1 (- 1), Fin 1 0]). valid_step s)"
  by (rule b_cred_rejects_invalid) (simp_all add: ATOL_Q63_CEIL_def)

end
