(* ===== verification/PowV3.thy ===== *)
theory PowV3
  imports Hex Sha256 BCred
begin

text \<open>
  Sections 6 and 7 of \<^verbatim>\<open>pow_v3.py\<close>: the step message every draw is hashed from, the commitment
  to the prompt, the Argon2id admission message and its target, and the builder of the grind
  inputs.  A Python \<^verbatim>\<open>str\<close> is represented by its UTF-8 encoding, one character per byte.
  Argon2id (the package \<^verbatim>\<open>argon2\<close>) is an argument of the definitions that call it.
\<close>

section \<open>Constants\<close>

definition POW_WINDOW_SIZE :: nat where "POW_WINDOW_SIZE = 256"
definition ADMISSION_NONCE_BYTES :: nat where "ADMISSION_NONCE_BYTES = 32"
definition PROMPT_COMMITMENT_BYTES :: nat where "PROMPT_COMMITMENT_BYTES = 32"
definition ARGON2_HASH_LEN :: nat where "ARGON2_HASH_LEN = 32"
definition UINT256_MAX :: int where "UINT256_MAX = push_bit 256 1 - 1"

definition utf8 :: "string \<Rightarrow> byte list" where
  "utf8 s = map of_char s"

definition PROMPT_CTX_TAG :: "byte list" where
  "PROMPT_CTX_TAG = utf8 ''TC_V3_PROMPT_CTX''"

definition ARGON2_SALT :: "byte list" where
  "ARGON2_SALT = utf8 ''TC_V3_ADMISSION!''"

text \<open>The consensus parameters of the admission puzzle, the defaults of the keyword arguments.\<close>

record admission_params =
  normalizer :: int
  decode_us_at_normalizer :: int
  elig_alpha_num :: int
  elig_alpha_den :: int
  argon_ref_us :: int

definition default_params :: admission_params where
  "default_params = \<lparr>normalizer = 1000000, decode_us_at_normalizer = 6000000,
     elig_alpha_num = 4, elig_alpha_den = 100, argon_ref_us = 4000\<rparr>"

section \<open>The step message\<close>

text \<open>
  The window: \<^verbatim>\<open>[0] * window_size\<close> whose tail is overwritten with the last tokens.
\<close>

definition ctx_window :: "nat \<Rightarrow> int list \<Rightarrow> int list" where
  "ctx_window window_size context_tokens =
     (let window = replicate window_size 0;
          ctx = py_tail window_size context_tokens
      in if ctx \<noteq> [] then take (window_size - length ctx) window @ ctx else window)"

definition build_step_message ::
    "byte list \<Rightarrow> byte list \<Rightarrow> int \<Rightarrow> int \<Rightarrow> int list \<Rightarrow> string \<Rightarrow> byte list option \<Rightarrow> nat \<Rightarrow>
     byte list res" where
  "build_step_message header_prefix vdf tick step context_tokens precision admission_nonce window_size =
     (if (case admission_nonce of None \<Rightarrow> False | Some n \<Rightarrow> length n \<noteq> ADMISSION_NONCE_BYTES)
      then Inl ValueError
      else rbind (mapr i64le (ctx_window window_size context_tokens)) (\<lambda>toks.
        (let parts = [header_prefix, vdf, u32le tick, u32le step, concat toks, utf8 precision] @
               (case admission_nonce of None \<Rightarrow> [] | Some n \<Rightarrow> [n])
         in Inr (concat parts))))"

text \<open>\<^verbatim>\<open>step_u_from_message\<close>: the quotient by \<open>2 ^ 32\<close> of a 32-bit integer is an exact double.\<close>

definition step_u_from_message :: "byte list \<Rightarrow> f64 \<times> byte list" where
  "step_u_from_message message =
     (let digest = sha256 message in (Fin (from_le (take 4 digest)) (- 32), digest))"

section \<open>The prompt commitment\<close>

definition prompt_preimage :: "int list \<Rightarrow> bool list option \<Rightarrow> byte list res" where
  "prompt_preimage tokens pad_mask =
     (if length tokens > 0xFFFFFFFF then Inl ValueError
      else (let mask0 = (case pad_mask of None \<Rightarrow> replicate (length tokens) False | Some m \<Rightarrow> m)
            in if length mask0 \<noteq> length tokens then Inl ValueError
               else if length mask0 > 0xFFFFFFFF then Inl ValueError
               else rbind (mapr i64le tokens) (\<lambda>toks.
                 Inr (concat [PROMPT_CTX_TAG, u32le (int (length tokens)), concat toks,
                        u32le (int (length mask0)), map (\<lambda>b. if b then 1 else 0) mask0]))))"

definition prompt_commitment :: "int list \<Rightarrow> bool list option \<Rightarrow> byte list res" where
  "prompt_commitment tokens pad_mask =
     rbind (prompt_preimage tokens pad_mask) (\<lambda>p. Inr (sha256 p))"

section \<open>The admission puzzle\<close>

definition admission_message :: "byte list \<Rightarrow> string \<Rightarrow> byte list \<Rightarrow> byte list \<Rightarrow> byte list res" where
  "admission_message window_first_step_message model_identifier admission_nonce commitment =
     (if length admission_nonce \<noteq> ADMISSION_NONCE_BYTES then Inl ValueError
      else if length commitment \<noteq> PROMPT_COMMITMENT_BYTES then Inl ValueError
      else (let mid = utf8 model_identifier
            in if length mid > 0xFFFF then Inl ValueError
               else rbind (u16le (int (length mid))) (\<lambda>n.
                 Inr (concat [window_first_step_message, commitment, n, mid, admission_nonce]))))"

text \<open>
  \<^verbatim>\<open>hash_secret_raw\<close> is the function of the package: secret, salt, time cost, memory, lanes and
  output length.
\<close>

definition argon2id_digest ::
    "(byte list \<Rightarrow> byte list \<Rightarrow> nat \<Rightarrow> nat \<Rightarrow> nat \<Rightarrow> nat \<Rightarrow> byte list) \<Rightarrow> byte list \<Rightarrow> byte list" where
  "argon2id_digest hash_secret_raw message =
     hash_secret_raw message ARGON2_SALT 1 8192 1 ARGON2_HASH_LEN"

definition admission_expected_tries :: "admission_params \<Rightarrow> int \<Rightarrow> int res" where
  "admission_expected_tries p difficulty =
     (if difficulty \<le> 0 then Inl ValueError
      else (let numerator = elig_alpha_num p * decode_us_at_normalizer p * normalizer p;
                denominator = elig_alpha_den p * argon_ref_us p * difficulty
            in if denominator \<le> 0 then Inl ValueError
               else Inr (max 1 (numerator div denominator))))"

definition admission_target :: "admission_params \<Rightarrow> int \<Rightarrow> int res" where
  "admission_target p difficulty =
     rbind (admission_expected_tries p difficulty) (\<lambda>n. Inr (UINT256_MAX div n))"

definition admission_valid :: "byte list \<Rightarrow> int \<Rightarrow> bool res" where
  "admission_valid digest target =
     (if length digest \<noteq> ARGON2_HASH_LEN then Inl ValueError else Inr (from_le digest < target))"

text \<open>The five grind inputs, in the order of the tuple.\<close>

record grind_inputs =
  gi_msg_w :: "byte list"
  gi_model_identifier :: string
  gi_target_le :: "byte list"
  gi_max_tries :: int
  gi_commitment :: "byte list"

definition build_admission_preimage ::
    "byte list \<Rightarrow> byte list \<Rightarrow> int \<Rightarrow> int \<Rightarrow> int list \<Rightarrow> int list \<Rightarrow> bool list option \<Rightarrow> string \<Rightarrow> int \<Rightarrow>
     string \<Rightarrow> int \<Rightarrow> grind_inputs res" where
  "build_admission_preimage header_prefix vdf tick step context_tokens prefix_tokens prefix_pad_mask
     precision difficulty model_identifier max_tries_factor =
     rbind (build_step_message header_prefix vdf tick step context_tokens precision None POW_WINDOW_SIZE) (\<lambda>msg_w.
     rbind (prompt_commitment prefix_tokens prefix_pad_mask) (\<lambda>commitment.
     rbind (admission_target default_params difficulty) (\<lambda>target.
     rbind (to_bytes_le 32 target) (\<lambda>target_le.
     rbind (admission_expected_tries default_params difficulty) (\<lambda>tries.
       Inr \<lparr>gi_msg_w = msg_w, gi_model_identifier = model_identifier, gi_target_le = target_le,
            gi_max_tries = tries * max_tries_factor, gi_commitment = commitment\<rparr>)))))"

section \<open>The layout of the step message\<close>

lemma ctx_window_eq: "0 < W \<Longrightarrow> ctx_window W ctx = left_pad W 0 ctx"
  by (cases "length ctx \<le> W")
    (auto simp: ctx_window_def Let_def py_tail_def left_pad_short left_pad_long)

lemma mapr_i64le:
  "mapr i64le ts = (if list_all i64_ok ts then Inr (map (le_bytes 8) ts) else Inl StructError)"
  by (induction ts) (auto simp: i64le_def i64_ok_def)

lemma step_message_layout:
  assumes "0 < W" "list_all i64_ok (left_pad W 0 ctx)" "\<forall>n. nonce = Some n \<longrightarrow> length n = 32"
  shows "build_step_message header vdf tick step ctx prec nonce W =
    Inr (header @ vdf @ le_bytes 4 tick @ le_bytes 4 step @
         concat (map (le_bytes 8) (left_pad W 0 ctx)) @ utf8 prec @ (case nonce of None \<Rightarrow> [] | Some n \<Rightarrow> n))"
  using assms
  by (auto simp: build_step_message_def ctx_window_eq mapr_i64le ADMISSION_NONCE_BYTES_def u32le_eq
      split: option.splits)

lemma left_pad_tail: "length xs = length ys \<Longrightarrow> left_pad n z (us @ xs) = left_pad n z xs"
  if "n \<le> length xs" for us
  using that by (simp add: left_pad_long)

lemma step_message_total:
  "build_step_message header vdf tick step ctx prec nonce POW_WINDOW_SIZE =
     (if (\<exists>n. nonce = Some n \<and> length n \<noteq> 32) then Inl ValueError
      else if \<not> list_all i64_ok (left_pad 256 0 ctx) then Inl StructError
      else Inr (header @ vdf @ le_bytes 4 tick @ le_bytes 4 step @
         concat (map (le_bytes 8) (left_pad 256 0 ctx)) @ utf8 prec @ (case nonce of None \<Rightarrow> [] | Some n \<Rightarrow> n)))"
  by (auto simp: build_step_message_def ctx_window_eq mapr_i64le ADMISSION_NONCE_BYTES_def u32le_eq
      POW_WINDOW_SIZE_def split: option.splits)

lemma step_message_fields:
  assumes "build_step_message h v t s ctx p n POW_WINDOW_SIZE = Inr msg"
    "build_step_message h' v' t' s' ctx' p' n' POW_WINDOW_SIZE = Inr msg"
    "length h = length h'" "length v = length v'" "length p = length p'"
  shows "h = h' \<and> v = v' \<and> t mod 2 ^ 32 = t' mod 2 ^ 32 \<and> s mod 2 ^ 32 = s' mod 2 ^ 32 \<and>
    left_pad 256 0 ctx = left_pad 256 0 ctx' \<and> utf8 p = utf8 p' \<and> n = n'"
proof -
  have len: "length (utf8 p) = length (utf8 p')"
    using assms(5) by (simp add: utf8_def)
  have ok: "list_all i64_ok (left_pad 256 0 ctx)" "list_all i64_ok (left_pad 256 0 ctx')"
    "\<forall>k. n = Some k \<longrightarrow> length k = 32" "\<forall>k. n' = Some k \<longrightarrow> length k = 32"
    using assms(1,2) by (auto simp: step_message_total split: if_splits)
  let ?e = "\<lambda>h v t s w p (n :: byte list option). h @ v @ le_bytes 4 t @ le_bytes 4 s @
    concat (map (le_bytes 8) (left_pad 256 0 w)) @ utf8 p @ (case n of None \<Rightarrow> [] | Some n \<Rightarrow> n)"
  have "?e h v t s ctx p n = ?e h' v' t' s' ctx' p' n'"
    using assms(1,2) by (simp add: step_message_total split: if_splits)
  then have eqs: "h = h'" "v = v'" "le_bytes 4 t = le_bytes 4 t'" "le_bytes 4 s = le_bytes 4 s'"
    "concat (map (le_bytes 8) (left_pad 256 0 ctx)) @ utf8 p @ (case n of None \<Rightarrow> [] | Some n \<Rightarrow> n) =
     concat (map (le_bytes 8) (left_pad 256 0 ctx')) @ utf8 p' @ (case n' of None \<Rightarrow> [] | Some n \<Rightarrow> n)"
    using assms(3,4) by (simp_all add: append_eq_append_conv)
  have "left_pad 256 0 ctx = left_pad 256 0 ctx' \<and>
     utf8 p @ (case n of None \<Rightarrow> [] | Some n \<Rightarrow> n) = utf8 p' @ (case n' of None \<Rightarrow> [] | Some n \<Rightarrow> n)"
    using i64c.fields_boundary [OF ok(1,2)] eqs(5) by simp
  moreover have "t mod 2 ^ 32 = t' mod 2 ^ 32" "s mod 2 ^ 32 = s' mod 2 ^ 32"
    using arg_cong [OF eqs(3), of from_le] arg_cong [OF eqs(4), of from_le]
    by (simp_all add: from_le_le_bytes)
  ultimately show ?thesis
    using eqs(1,2) len ok(3,4)
    by (cases n; cases n') (auto dest: arg_cong [where f = length])
qed

section \<open>The prompt commitment binds the prefix\<close>

definition effective_mask :: "int list \<Rightarrow> bool list option \<Rightarrow> bool list" where
  "effective_mask tokens m = (case m of None \<Rightarrow> replicate (length tokens) False | Some m \<Rightarrow> m)"

lemma prompt_preimage_total:
  "prompt_preimage ts m =
     (if length ts > 0xFFFFFFFF \<or> length (effective_mask ts m) \<noteq> length ts then Inl ValueError
      else if \<not> list_all i64_ok ts then Inl StructError
      else Inr (PROMPT_CTX_TAG @ le_bytes 4 (int (length ts)) @ concat (map (le_bytes 8) ts) @
        le_bytes 4 (int (length ts)) @ map (\<lambda>b. if b then 1 else 0) (effective_mask ts m)))"
  by (auto simp: prompt_preimage_def Let_def mapr_i64le u32le_eq effective_mask_def)

lemma prompt_preimage_fields:
  assumes "prompt_preimage ts m = Inr p" "prompt_preimage ts' m' = Inr p"
  shows "ts = ts' \<and> effective_mask ts m = effective_mask ts' m'"
proof -
  have ok: "length ts \<le> 0xFFFFFFFF" "length ts' \<le> 0xFFFFFFFF" "list_all i64_ok ts" "list_all i64_ok ts'"
    using assms by (auto simp: prompt_preimage_total split: if_splits)
  let ?b = "\<lambda>ts m. le_bytes 4 (int (length ts)) @ concat (map (le_bytes 8) ts) @
    le_bytes 4 (int (length ts)) @ map (\<lambda>b. if b then 1 else 0 :: byte) (effective_mask ts m)"
  have "p = PROMPT_CTX_TAG @ ?b ts m" "p = PROMPT_CTX_TAG @ ?b ts' m'"
    using assms by (auto simp: prompt_preimage_total split: if_splits)
  then have e: "?b ts m = ?b ts' m'"
    by (metis same_append_eq)
  then have "le_bytes 4 (int (length ts)) = le_bytes 4 (int (length ts'))"
    by (simp add: append_eq_append_conv)
  then have len: "length ts = length ts'"
    using u32c.enc_inj [of "int (length ts)" "int (length ts')"] ok by (simp add: u_ok_def)
  with e have "concat (map (le_bytes 8) ts) @ le_bytes 4 (int (length ts)) @
       map (\<lambda>b. if b then 1 else 0 :: byte) (effective_mask ts m) =
     concat (map (le_bytes 8) ts') @ le_bytes 4 (int (length ts')) @
       map (\<lambda>b. if b then 1 else 0) (effective_mask ts' m')"
    by simp
  then have "ts = ts' \<and> map (\<lambda>b. if b then 1 else 0 :: byte) (effective_mask ts m) =
      map (\<lambda>b. if b then 1 else 0) (effective_mask ts' m')"
    using i64c.fields_boundary [OF ok(3,4) len] len by auto
  moreover have inj: "inj (\<lambda>b. if b then 1 else 0 :: byte)"
    by (simp add: inj_def)
  ultimately show ?thesis
    by (auto simp only: inj_map_eq_map [OF inj])
qed

section \<open>The admission message is unambiguous\<close>

lemma admission_message_total:
  "admission_message w mid n c =
     (if length n \<noteq> 32 \<or> length c \<noteq> 32 \<or> length (utf8 mid) > 0xFFFF then Inl ValueError
      else Inr (w @ c @ le_bytes 2 (int (length (utf8 mid))) @ utf8 mid @ n))"
  by (auto simp: admission_message_def Let_def u16le_def ADMISSION_NONCE_BYTES_def
      PROMPT_COMMITMENT_BYTES_def)

lemma admission_message_fields:
  assumes "admission_message w mid n c = Inr x" "admission_message w' mid' n' c' = Inr x"
    "length w = length w'"
  shows "w = w' \<and> c = c' \<and> utf8 mid = utf8 mid' \<and> n = n'"
proof -
  have ok: "length n = 32" "length n' = 32" "length c = length c'"
    "length (utf8 mid) \<le> 0xFFFF" "length (utf8 mid') \<le> 0xFFFF"
    using assms by (auto simp: admission_message_total split: if_splits)
  have "w @ c @ le_bytes 2 (int (length (utf8 mid))) @ utf8 mid @ n =
     w' @ c' @ le_bytes 2 (int (length (utf8 mid'))) @ utf8 mid' @ n'"
    using assms(1,2) by (simp add: admission_message_total split: if_splits)
  with assms(3) ok(3) have e: "w = w'" "c = c'"
    "le_bytes 2 (int (length (utf8 mid))) @ utf8 mid @ n = le_bytes 2 (int (length (utf8 mid'))) @ utf8 mid' @ n'"
    by (simp_all add: append_eq_append_conv)
  then have "utf8 mid @ n = utf8 mid' @ n'"
    using u16c.field_boundary [of "int (length (utf8 mid))" "int (length (utf8 mid'))"] ok
    by (simp add: u_ok_def)
  with e ok show ?thesis
    by (simp add: append_eq_append_conv)
qed

section \<open>The admission target\<close>

lemma expected_tries_pos: "admission_expected_tries p d = Inr n \<Longrightarrow> 1 \<le> n"
  by (auto simp: admission_expected_tries_def Let_def split: if_splits)

lemma default_tries: "0 < d \<Longrightarrow> admission_expected_tries default_params d = Inr (max 1 (24000000000000 div (400000 * d)))"
  by (simp add: admission_expected_tries_def default_params_def mult.commute)

lemma UINT256_MAX_eq: "UINT256_MAX = 2 ^ 256 - 1"
  by (simp add: UINT256_MAX_def push_bit_eq_mult)

lemma target_range:
  assumes "admission_expected_tries p d = Inr n" "admission_target p d = Inr t"
  shows "0 \<le> t" "t < 2 ^ 256" "t * n \<le> 2 ^ 256 - 1" "2 ^ 256 - 1 < (t + 1) * n"
proof -
  have n: "1 \<le> n" and t: "t = UINT256_MAX div n"
    using assms expected_tries_pos by (auto simp: admission_target_def)
  show "t * n \<le> 2 ^ 256 - 1" "2 ^ 256 - 1 < (t + 1) * n"
    using int_div_bounds [of n "2 ^ 256 - 1"] n by (simp_all add: t UINT256_MAX_eq)
  show "0 \<le> t"
    using n by (simp add: t UINT256_MAX_eq pos_imp_zdiv_nonneg_iff)
  have "UINT256_MAX div n \<le> UINT256_MAX"
    using zdiv_mono2 [of UINT256_MAX 1 n] n by (simp add: UINT256_MAX_eq)
  then show "t < 2 ^ 256"
    by (simp add: t UINT256_MAX_eq)
qed

lemma bij_digests: "bij_betw (le_bytes n) {0..<256 ^ n} {ds. length ds = n}"
proof (rule bij_betw_byWitness [where f' = from_le])
  show "\<forall>a\<in>{0..<256 ^ n}. from_le (le_bytes n a) = a"
    by (simp add: from_le_le_bytes)
  show "\<forall>ds\<in>{ds. length ds = n}. le_bytes n (from_le ds) = ds"
    using le_bytes_from_le by auto
  show "le_bytes n ` {0..<256 ^ n} \<subseteq> {ds. length ds = n}"
    by auto
  show "from_le ` {ds. length ds = n} \<subseteq> {0..<256 ^ n}"
    using from_le_bounds by auto
qed

lemma admitted_digests:
  assumes "0 \<le> t" "t \<le> 2 ^ 256"
  shows "card {d. admission_valid d t = Inr True} = nat t"
proof -
  have "{d. admission_valid d t = Inr True} = le_bytes 32 ` {0..<t}"
  proof (intro equalityI subsetI)
    fix d assume "d \<in> {d. admission_valid d t = Inr True}"
    then have "length d = 32" "from_le d < t"
      by (auto simp: admission_valid_def ARGON2_HASH_LEN_def split: if_splits)
    then have "d = le_bytes 32 (from_le d)" "from_le d \<in> {0..<t}"
      using le_bytes_from_le [of d] by auto
    then show "d \<in> le_bytes 32 ` {0..<t}" by blast
  next
    fix d assume "d \<in> le_bytes 32 ` {0..<t}"
    then show "d \<in> {d. admission_valid d t = Inr True}"
      using assms by (auto simp: admission_valid_def ARGON2_HASH_LEN_def from_le_le_bytes)
  qed
  moreover have "inj_on (le_bytes 32) {0..<t}"
    using bij_digests [of 32] assms by (intro inj_on_subset [OF bij_betw_imp_inj_on]) auto
  ultimately show ?thesis
    by (simp add: card_image)
qed

section \<open>Properties\<close>

text \<open>C21: \<^verbatim>\<open>build_step_message\<close> on every input: a nonce of the wrong length is a ValueError, a token
  of the window outside the signed 64-bit range a struct error; otherwise the message is header, VDF,
  tick and step in 32 bits, the last 256 tokens left-padded with zeros in 8 bytes each, the
  precision and the nonce, in this order.\<close>

theorem step_message_functional:
  "build_step_message header vdf tick step ctx prec nonce POW_WINDOW_SIZE =
     (if (\<exists>n. nonce = Some n \<and> length n \<noteq> 32) then Inl ValueError
      else if \<not> list_all i64_ok (left_pad 256 0 ctx) then Inl StructError
      else Inr (header @ vdf @ le_bytes 4 tick @ le_bytes 4 step @
         concat (map (le_bytes 8) (left_pad 256 0 ctx)) @ utf8 prec @ (case nonce of None \<Rightarrow> [] | Some n \<Rightarrow> n)))"
  by (rule step_message_total)

text \<open>C25: the step message binds its fields: for fixed lengths of header, VDF and precision, equal
  messages have equal header, VDF, tick and step modulo \<open>2 ^ 32\<close>, window, precision and nonce.\<close>

theorem step_message_binds:
  assumes "build_step_message h v t s ctx p n POW_WINDOW_SIZE = Inr msg"
    "build_step_message h' v' t' s' ctx' p' n' POW_WINDOW_SIZE = Inr msg"
    "length h = length h'" "length v = length v'" "length p = length p'"
  shows "h = h' \<and> v = v' \<and> t mod 2 ^ 32 = t' mod 2 ^ 32 \<and> s mod 2 ^ 32 = s' mod 2 ^ 32 \<and>
    left_pad 256 0 ctx = left_pad 256 0 ctx' \<and> utf8 p = utf8 p' \<and> n = n'"
  by (rule step_message_fields [OF assms])

theorem step_message_binds_witness:
  "\<exists>msg. build_step_message [1] [2] 3 4 [7] ''fp16'' None POW_WINDOW_SIZE = Inr msg \<and>
    ([1] = [1 :: byte] \<and> [2] = [2 :: byte] \<and> (3 :: int) mod 2 ^ 32 = (2 ^ 32 + 3) mod 2 ^ 32 \<and>
     (4 :: int) mod 2 ^ 32 = 4 mod 2 ^ 32 \<and> left_pad 256 0 [7 :: int] = left_pad 256 0 [0, 7] \<and>
     utf8 ''fp16'' = utf8 ''fp16'' \<and> (None :: byte list option) = None)"
proof -
  have w: "left_pad 256 0 [7 :: int] = left_pad 256 0 [0, 7]"
    by (simp add: left_pad_short numeral_eq_Suc)
  have ok: "list_all i64_ok (left_pad 256 0 [7])"
    by (simp add: left_pad_short i64_ok_def list_all_iff)
  have t: "le_bytes 4 (2 ^ 32 + 3) = le_bytes 4 3"
    using le_bytes_mod [of 4 "2 ^ 32 + 3"] by simp
  obtain msg where m: "build_step_message [1] [2] 3 4 [7] ''fp16'' None POW_WINDOW_SIZE = Inr msg"
    using ok by (simp add: step_message_total)
  moreover have "build_step_message [1] [2] (2 ^ 32 + 3) 4 [0, 7] ''fp16'' None POW_WINDOW_SIZE = Inr msg"
    using m ok by (simp only: step_message_total w t)
  ultimately show ?thesis
    using step_message_binds by blast
qed

text \<open>The commitment's preimage determines the whole prefix: equal preimages have equal token
  lists and equal masks, where a missing mask counts as all false.\<close>

theorem prompt_preimage_binds:
  assumes "prompt_preimage ts m = Inr p" "prompt_preimage ts' m' = Inr p"
  shows "ts = ts' \<and> effective_mask ts m = effective_mask ts' m'"
  by (rule prompt_preimage_fields [OF assms])

theorem prompt_preimage_binds_witness:
  "\<exists>p. prompt_preimage [5, 6] None = Inr p \<and> prompt_preimage [5, 6] (Some [False, False]) = Inr p \<and>
     [5, 6] = [5, 6 :: int] \<and> effective_mask [5, 6] None = effective_mask [5, 6] (Some [False, False])"
proof -
  have "\<exists>p. prompt_preimage [5, 6] None = Inr p \<and> prompt_preimage [5, 6] (Some [False, False]) = Inr p"
    by (simp add: prompt_preimage_total effective_mask_def i64_ok_def)
  then show ?thesis using prompt_preimage_binds by blast
qed

text \<open>The admission message is unambiguous: for step messages of equal length, equal admission
  messages have the same step message, commitment, model identifier and nonce.\<close>

theorem admission_message_binds:
  assumes "admission_message w mid n c = Inr x" "admission_message w' mid' n' c' = Inr x"
    "length w = length w'"
  shows "w = w' \<and> c = c' \<and> utf8 mid = utf8 mid' \<and> n = n'"
  by (rule admission_message_fields [OF assms])

theorem admission_message_binds_witness:
  "\<exists>x. admission_message [1, 2] ''m'' (replicate 32 7) (replicate 32 9) = Inr x \<and>
    [1, 2] = [1, 2 :: byte] \<and> replicate 32 9 = replicate 32 (9 :: byte) \<and> utf8 ''m'' = utf8 ''m'' \<and>
    replicate 32 7 = replicate 32 (7 :: byte)"
proof -
  have "\<exists>x. admission_message [1, 2] ''m'' (replicate 32 7) (replicate 32 9) = Inr x"
    by (simp add: admission_message_total utf8_def)
  then show ?thesis using admission_message_binds by blast
qed

text \<open>The admission target realises the derived difficulty: for a positive difficulty the target
  is returned, exactly \<open>target\<close> of the \<open>2 ^ 256\<close> digests are admitted, and this number times the
  expected tries is \<open>2 ^ 256 - 1\<close> up to less than one try.\<close>

theorem admission_target_realises_tries:
  assumes "0 < d"
  shows "\<exists>n t. admission_expected_tries default_params d = Inr n \<and>
    admission_target default_params d = Inr t \<and> n = max 1 (24000000000000 div (400000 * d)) \<and>
    int (card {h. admission_valid h t = Inr True}) = t \<and>
    t * n \<le> 2 ^ 256 - 1 \<and> 2 ^ 256 - 1 < (t + 1) * n"
proof -
  note n = default_tries [OF assms]
  then obtain t where t: "admission_target default_params d = Inr t"
    by (simp add: admission_target_def)
  note r = target_range [OF n t]
  with n t admitted_digests [of t] show ?thesis by auto
qed

theorem admission_target_realises_tries_witness:
  "\<exists>n t. admission_expected_tries default_params 1000000 = Inr n \<and>
    admission_target default_params 1000000 = Inr t \<and> n = max 1 (24000000000000 div (400000 * 1000000)) \<and>
    int (card {h. admission_valid h t = Inr True}) = t \<and>
    t * n \<le> 2 ^ 256 - 1 \<and> 2 ^ 256 - 1 < (t + 1) * n"
  by (rule admission_target_realises_tries) simp

lemma grind_inputs_exist:
  assumes "0 < d" "list_all i64_ok (left_pad 256 0 ctx)" "list_all i64_ok prefix"
    "length prefix \<le> 0xFFFFFFFF" "length (effective_mask prefix pmask) = length prefix"
  obtains g where
    "build_admission_preimage header vdf tick step ctx prefix pmask prec d mid f = Inr g"
    "length (gi_commitment g) = 32" "length (gi_target_le g) = 32"
    "admission_target default_params d = Inr (from_le (gi_target_le g))"
    "gi_model_identifier g = mid"
proof -
  note n = default_tries [OF assms(1)]
  then obtain t where t: "admission_target default_params d = Inr t"
    by (simp add: admission_target_def)
  from target_range [OF n t] have "to_bytes_le 32 t = Inr (le_bytes 32 t)" "from_le (le_bytes 32 t) = t"
    by (simp_all add: to_bytes_le_def from_le_le_bytes)
  moreover obtain c where "prompt_commitment prefix pmask = Inr c" "length c = 32"
    using assms(3-5) by (simp add: prompt_commitment_def prompt_preimage_total length_sha256)
  moreover obtain w where "build_step_message header vdf tick step ctx prec None POW_WINDOW_SIZE = Inr w"
    using assms(2) by (simp add: step_message_total)
  ultimately have b: "build_admission_preimage header vdf tick step ctx prefix pmask prec d mid f =
      Inr \<lparr>gi_msg_w = w, gi_model_identifier = mid, gi_target_le = le_bytes 32 t,
           gi_max_tries = max 1 (24000000000000 div (400000 * d)) * f, gi_commitment = c\<rparr>"
    using n t by (simp only: build_admission_preimage_def rbind.simps)
  show thesis
    by (rule that [OF b]) (use t \<open>from_le (le_bytes 32 t) = t\<close> \<open>length c = 32\<close> in simp_all)
qed

text \<open>The grind inputs verify: for valid tokens, a mask of the right length and a positive
  difficulty the builder returns; its target bytes decode to the admission target, and for every
  32-byte nonce and every model identifier that fits the length prefix the admission message exists
  and its Argon2id digest is admitted exactly when it is below these target bytes.\<close>

theorem grind_inputs_verify:
  assumes "0 < d" "list_all i64_ok (left_pad 256 0 ctx)" "list_all i64_ok prefix"
    "length prefix \<le> 0xFFFFFFFF" "length (effective_mask prefix pmask) = length prefix"
    "length nonce = 32" "length mid \<le> 0xFFFF" "\<And>s salt t k l n. length (hsr s salt t k l n) = n"
  shows "\<exists>g m. build_admission_preimage header vdf tick step ctx prefix pmask prec d mid f = Inr g \<and>
    admission_target default_params d = Inr (from_le (gi_target_le g)) \<and> length (gi_target_le g) = 32 \<and>
    admission_message (gi_msg_w g) (gi_model_identifier g) nonce (gi_commitment g) = Inr m \<and>
    admission_valid (argon2id_digest hsr m) (from_le (gi_target_le g)) =
      Inr (from_le (argon2id_digest hsr m) < from_le (gi_target_le g))"
proof -
  obtain g where "build_admission_preimage header vdf tick step ctx prefix pmask prec d mid f = Inr g"
    "length (gi_commitment g) = 32" "length (gi_target_le g) = 32"
    "admission_target default_params d = Inr (from_le (gi_target_le g))"
    "gi_model_identifier g = mid"
    by (rule grind_inputs_exist [OF assms(1-5)])
  with assms(6-8) show ?thesis
    by (simp add: admission_message_total utf8_def admission_valid_def argon2id_digest_def)
qed

theorem grind_inputs_verify_witness:
  "\<exists>g m. build_admission_preimage [1] [2] 3 4 [7] [5, 6] None ''fp16'' 1000000 ''m'' 1 = Inr g \<and>
    admission_target default_params 1000000 = Inr (from_le (gi_target_le g)) \<and> length (gi_target_le g) = 32 \<and>
    admission_message (gi_msg_w g) (gi_model_identifier g) (replicate 32 0) (gi_commitment g) = Inr m \<and>
    admission_valid (argon2id_digest (\<lambda>s salt t k l n. replicate n 1) m) (from_le (gi_target_le g)) =
      Inr (from_le (argon2id_digest (\<lambda>s salt t k l n. replicate n 1) m) < from_le (gi_target_le g))"
  by (rule grind_inputs_verify)
    (simp_all add: left_pad_short i64_ok_def list_all_iff effective_mask_def)

end
