(* ===== verification/RowManager.thy ===== *)
theory RowManager
  imports Prelude
begin

text \<open>
  \<^verbatim>\<open>RowManager\<close> of \<^verbatim>\<open>pow_utils.py\<close>: which buffer row a sequence owns.  The dictionary
  \<^verbatim>\<open>seqid_to_row\<close> is an association list in insertion order, the deque of free rows a list
  (\<^verbatim>\<open>popleft\<close> takes its head, \<^verbatim>\<open>append\<close> adds at its end).  The interface \<open>row_pool\<close> states what
  the samplers rely on and is interpreted on the operations of the class.
\<close>

section \<open>State and operations\<close>

record 'k row_manager =
  max_rows :: nat
  seqid_to_row :: "('k \<times> nat) list"
  free_rows :: "nat list"
  allocation_order :: "'k \<rightharpoonup> nat"
  next_allocation_id :: nat

definition rm_init :: "nat \<Rightarrow> 'k row_manager" where
  "rm_init n = \<lparr>max_rows = n, seqid_to_row = [], free_rows = [0..<n],
     allocation_order = Map.empty, next_allocation_id = 0\<rparr>"

definition get_row :: "'k row_manager \<Rightarrow> 'k \<Rightarrow> nat option" where
  "get_row m k = map_of (seqid_to_row m) k"

definition allocate_row :: "'k row_manager \<Rightarrow> 'k \<Rightarrow> 'k row_manager \<times> nat option" where
  "allocate_row m k =
     (case map_of (seqid_to_row m) k of
        Some r \<Rightarrow> (m, Some r)
      | None \<Rightarrow>
          (case free_rows m of
             [] \<Rightarrow> (m, None)
           | r # rs \<Rightarrow>
               (m\<lparr>free_rows := rs,
                  seqid_to_row := seqid_to_row m @ [(k, r)],
                  allocation_order := (allocation_order m)(k \<mapsto> next_allocation_id m),
                  next_allocation_id := next_allocation_id m + 1\<rparr>, Some r)))"

definition free_row :: "'k row_manager \<Rightarrow> 'k \<Rightarrow> 'k row_manager \<times> nat option" where
  "free_row m k =
     (case map_of (seqid_to_row m) k of
        None \<Rightarrow> (m, None)
      | Some r \<Rightarrow>
          (m\<lparr>seqid_to_row := filter (\<lambda>(k', _). k' \<noteq> k) (seqid_to_row m),
             free_rows := free_rows m @ [r],
             allocation_order := (allocation_order m)(k := None)\<rparr>, Some r))"

text \<open>\<^verbatim>\<open>xs.argmin()\<close> of a non-empty tensor: the first position of the least element.\<close>

fun argmin :: "nat list \<Rightarrow> nat" where
  "argmin [] = 0"
| "argmin [x] = 0"
| "argmin (x # y # ys) = (let j = argmin (y # ys) in if x \<le> (y # ys) ! j then 0 else Suc j)"

definition get_oldest_sequence :: "'k row_manager \<Rightarrow> nat list \<Rightarrow> ('k \<times> nat) option res" where
  "get_oldest_sequence m steps =
     (if seqid_to_row m = [] then Inr None
      else
        (let seq_ids = map fst (seqid_to_row m);
             rows = map snd (seqid_to_row m)
         in if \<exists>r \<in> set rows. r \<ge> length steps then Inl IndexError
            else
              (let steps_values = map (\<lambda>r. steps ! r) rows;
                   max_steps = foldr max steps_values 0;
                   tied_indices = filter (\<lambda>i. steps_values ! i = max_steps) [0..<length rows]
               in rbind (mapr (\<lambda>i. case allocation_order m (seq_ids ! i) of
                                  None \<Rightarrow> Inl KeyError | Some a \<Rightarrow> Inr a) tied_indices)
                    (\<lambda>tied_allocs. (let earliest_idx = tied_indices ! argmin tied_allocs
                       in Inr (Some (seq_ids ! earliest_idx, rows ! earliest_idx)))))))"

section \<open>The invariant\<close>

definition rm_ok :: "'k row_manager \<Rightarrow> bool" where
  "rm_ok m \<longleftrightarrow> distinct (map fst (seqid_to_row m)) \<and>
     distinct (map snd (seqid_to_row m) @ free_rows m) \<and>
     set (map snd (seqid_to_row m) @ free_rows m) = {0..<max_rows m} \<and>
     dom (allocation_order m) = set (map fst (seqid_to_row m)) \<and>
     (\<forall>k a. allocation_order m k = Some a \<longrightarrow> a < next_allocation_id m) \<and>
     inj_on (allocation_order m) (dom (allocation_order m))"

lemma rm_ok_init: "rm_ok (rm_init n)"
  by (auto simp: rm_ok_def rm_init_def)

lemma allocate_ok:
  assumes "rm_ok m"
  shows "rm_ok (fst (allocate_row m k))"
proof (cases "map_of (seqid_to_row m) k")
  case (Some r)
  with assms show ?thesis by (simp add: allocate_row_def)
next
  case None
  then have k: "k \<notin> set (map fst (seqid_to_row m))"
    by (simp add: map_of_eq_None_iff)
  show ?thesis
  proof (cases "free_rows m")
    case Nil
    with None assms show ?thesis by (simp add: allocate_row_def)
  next
    case (Cons r rs)
    let ?m = "fst (allocate_row m k)"
    have sets: "set (map snd (seqid_to_row ?m) @ free_rows ?m) = {0..<max_rows ?m}"
      using assms None Cons by (auto simp: allocate_row_def rm_ok_def)
    have ids: "\<forall>k' a. allocation_order ?m k' = Some a \<longrightarrow> a < next_allocation_id ?m"
      using assms None Cons by (auto simp: allocate_row_def rm_ok_def less_SucI)
    have "allocation_order m k' \<noteq> Some (next_allocation_id m)" for k'
      using assms by (auto simp: rm_ok_def)
    then have inj: "inj_on (allocation_order ?m) (dom (allocation_order ?m))"
      using assms None Cons k
      by (auto simp: allocate_row_def rm_ok_def inj_on_def dom_def)
    from assms None Cons k sets ids inj show ?thesis
      by (auto simp: allocate_row_def rm_ok_def)
  qed
qed


lemma free_ok:
  assumes "rm_ok m"
  shows "rm_ok (fst (free_row m k))"
proof (cases "map_of (seqid_to_row m) k")
  case None
  with assms show ?thesis by (simp add: free_row_def)
next
  case (Some r)
  let ?s = "seqid_to_row m" and ?m = "fst (free_row m k)"
  let ?f = "filter (\<lambda>(k', _). k' \<noteq> k) ?s"
  have d: "distinct (map fst ?s)" "distinct (map snd ?s)"
    using assms by (simp_all add: rm_ok_def)
  have kr: "(k, r) \<in> set ?s"
    using Some by (rule map_of_SomeD)
  have only: "k' = k \<longleftrightarrow> r' = r" if "(k', r') \<in> set ?s" for k' r'
  proof -
    have "inj_on fst (set ?s)" "inj_on snd (set ?s)"
      using d by (simp_all add: distinct_map)
    from inj_onD [OF this(1) _ that kr] inj_onD [OF this(2) _ that kr] show ?thesis by auto
  qed
  have rows: "set (map snd ?f) = set (map snd ?s) - {r}" and keys: "set (map fst ?f) = set (map fst ?s) - {k}"
    using only by (force simp: image_iff)+
  have r: "r \<in> set (map snd ?s)"
    using kr by force
  have "distinct (map fst ?f)" "distinct (map snd ?f)"
    using d by (auto intro: distinct_map_filter simp: distinct_map inj_on_subset)
  note d' = this
  have e: "seqid_to_row ?m = ?f" "free_rows ?m = free_rows m @ [r]" "max_rows ?m = max_rows m"
    "allocation_order ?m = (allocation_order m)(k := None)" "next_allocation_id ?m = next_allocation_id m"
    by (simp_all add: free_row_def Some)
  have inv: "distinct (map snd ?s @ free_rows m)" "set (map snd ?s @ free_rows m) = {0..<max_rows m}"
    "dom (allocation_order m) = set (map fst ?s)"
    "\<forall>k a. allocation_order m k = Some a \<longrightarrow> a < next_allocation_id m"
    "inj_on (allocation_order m) (dom (allocation_order m))"
    using assms unfolding rm_ok_def by blast+
  have "inj_on ((allocation_order m)(k := None)) (dom (allocation_order m) - {k})"
    using inv(5) unfolding inj_on_def by (metis Diff_iff fun_upd_other singletonI)
  moreover have "distinct (map snd ?f @ free_rows m @ [r])"
    using inv(1) d' rows r unfolding distinct_append by fastforce
  moreover have "set (map snd ?f @ free_rows m @ [r]) = {0..<max_rows m}"
    using inv(2) rows r unfolding set_append by auto
  moreover have "dom ((allocation_order m)(k := None)) = set (map fst ?f)"
    unfolding keys inv(3) [symmetric] by auto
  ultimately show ?thesis
    unfolding rm_ok_def e using inv(4) d' by simp
qed

lemma get_allocate:
  "get_row (fst (allocate_row m k)) k' =
     (if k' = k then snd (allocate_row m k) else get_row m k')"
  by (auto simp: get_row_def allocate_row_def map_add_def split: option.splits list.splits)

lemma get_free:
  "get_row (fst (free_row m k)) k' = (if k' = k then None else get_row m k')"
proof -
  have "map_of (filter (\<lambda>(k', _). k' \<noteq> k) xs) k' = (if k' = k then None else map_of xs k')"
    for xs :: "('a \<times> nat) list"
    by (induction xs) auto
  then show ?thesis
    by (auto simp: get_row_def free_row_def split: option.splits)
qed

lemma get_row_inj:
  assumes "rm_ok m" "get_row m k = Some r" "get_row m k' = Some r"
  shows "k = k'"
proof -
  have "(k, r) \<in> set (seqid_to_row m)" "(k', r) \<in> set (seqid_to_row m)"
    using assms(2,3) by (auto simp: get_row_def dest: map_of_SomeD)
  moreover have "inj_on snd (set (seqid_to_row m))"
    using assms(1) by (auto simp: rm_ok_def distinct_map)
  ultimately have "(k, r) = (k', r)"
    by (intro inj_onD [where f = snd and A = "set (seqid_to_row m)"]) simp_all
  then show ?thesis by simp
qed

lemma get_row_bound:
  assumes "rm_ok m" "get_row m k = Some r"
  shows "r < max_rows m"
proof -
  have "r \<in> set (map snd (seqid_to_row m))"
    using assms(2) by (force simp: get_row_def dest: map_of_SomeD)
  with assms(1) have "r \<in> {0..<max_rows m}"
    unfolding rm_ok_def by (metis UnI1 set_append)
  then show ?thesis by simp
qed

section \<open>The interface of a row pool\<close>

locale row_pool =
  fixes inv :: "'s \<Rightarrow> bool"
    and row_of :: "'s \<Rightarrow> 'k \<Rightarrow> nat option"
    and alloc :: "'s \<Rightarrow> 'k \<Rightarrow> 's \<times> nat option"
    and free :: "'s \<Rightarrow> 'k \<Rightarrow> 's \<times> nat option"
  assumes alloc_inv: "inv s \<Longrightarrow> inv (fst (alloc s k))"
    and free_inv: "inv s \<Longrightarrow> inv (fst (free s k))"
    and row_inj: "inv s \<Longrightarrow> row_of s k = Some r \<Longrightarrow> row_of s k' = Some r \<Longrightarrow> k = k'"
    and row_alloc: "inv s \<Longrightarrow> row_of (fst (alloc s k)) k' = (if k' = k then snd (alloc s k) else row_of s k')"
    and alloc_keep: "inv s \<Longrightarrow> row_of s k = Some r \<Longrightarrow> snd (alloc s k) = Some r"
    and row_free: "inv s \<Longrightarrow> row_of (fst (free s k)) k' = (if k' = k then None else row_of s k')"
begin

text \<open>A run of the pool: allocations (\<open>True\<close>) and releases (\<open>False\<close>) of sequence ids.\<close>

definition pool_run :: "(bool \<times> 'k) list \<Rightarrow> 's \<Rightarrow> 's" where
  "pool_run ops s = fold (\<lambda>(b, k) s. fst (if b then alloc s k else free s k)) ops s"

lemma run_inv: "inv s \<Longrightarrow> inv (pool_run ops s)"
  unfolding pool_run_def
  by (induction ops arbitrary: s) (auto simp: alloc_inv free_inv split: prod.splits)

lemma run_keeps_row:
  assumes "inv s" "row_of s k = Some r" "(False, k) \<notin> set ops"
  shows "row_of (pool_run ops s) k = Some r"
  using assms
proof (induction ops arbitrary: s)
  case Nil
  then show ?case by (simp add: pool_run_def)
next
  case (Cons op ops)
  obtain b k' where op: "op = (b, k')" by (cases op)
  let ?s = "fst (if b then alloc s k' else free s k')"
  have "row_of ?s k = Some r"
    using Cons.prems by (cases b) (auto simp: op row_alloc row_free alloc_keep)
  moreover have "inv ?s"
    using Cons.prems by (simp add: alloc_inv free_inv)
  ultimately show ?case
    using Cons.IH [of ?s] Cons.prems by (simp add: pool_run_def op)
qed

lemma run_disjoint:
  "inv s \<Longrightarrow> row_of (pool_run ops s) k = Some r \<Longrightarrow> row_of (pool_run ops s) k' = Some r \<Longrightarrow> k = k'"
  using run_inv row_inj by blast

end

interpretation rm: row_pool rm_ok get_row allocate_row free_row
proof
  show "\<And>s k. rm_ok s \<Longrightarrow> rm_ok (fst (allocate_row s k))" by (rule allocate_ok)
  show "\<And>s k. rm_ok s \<Longrightarrow> rm_ok (fst (free_row s k))" by (rule free_ok)
  show "\<And>s k r k'. rm_ok s \<Longrightarrow> get_row s k = Some r \<Longrightarrow> get_row s k' = Some r \<Longrightarrow> k = k'"
    by (rule get_row_inj)
  show "\<And>s k r. rm_ok s \<Longrightarrow> get_row s k = Some r \<Longrightarrow> snd (allocate_row s k) = Some r"
    by (simp add: allocate_row_def get_row_def)
qed (simp_all add: get_allocate get_free)

text \<open>The run of the class itself, from a fresh manager.\<close>

definition rm_run :: "(bool \<times> 'k) list \<Rightarrow> nat \<Rightarrow> 'k row_manager" where
  "rm_run ops n = fold (\<lambda>(b, k) m. fst (if b then allocate_row m k else free_row m k)) ops (rm_init n)"

lemma rm_run_eq: "rm_run ops n = rm.pool_run ops (rm_init n)"
  by (simp add: rm_run_def rm.pool_run_def)

lemma max_rows_run: "max_rows (fold (\<lambda>(b, k) m. fst (if b then allocate_row m k else free_row m k)) ops m) = max_rows m"
proof (induction ops arbitrary: m)
  case (Cons op ops)
  then show ?case
    by (cases op) (auto simp: allocate_row_def free_row_def split: option.splits list.splits)
qed simp

lemma argmin_spec:
  "xs \<noteq> [] \<Longrightarrow> argmin xs < length xs \<and> (\<forall>x \<in> set xs. xs ! argmin xs \<le> x)"
proof (induction xs rule: argmin.induct)
  case (3 x y ys)
  then show ?case
    by (auto simp: Let_def split: if_splits)
qed simp_all

lemma foldr_max: "(\<forall>x \<in> set xs. x \<le> foldr max xs (0 :: nat)) \<and> (xs \<noteq> [] \<longrightarrow> foldr max xs 0 \<in> set xs)"
  by (induction xs) (auto simp: max_def)

lemma get_oldest_correct:
  assumes ok: "rm_ok m" and ne: "seqid_to_row m \<noteq> []" and len: "max_rows m \<le> length steps"
  obtains k r a where "get_oldest_sequence m steps = Inr (Some (k, r))" "get_row m k = Some r"
    "allocation_order m k = Some a"
    "\<And>k' r'. get_row m k' = Some r' \<Longrightarrow> steps ! r' \<le> steps ! r"
    "\<And>k' r' a'. get_row m k' = Some r' \<Longrightarrow> steps ! r' = steps ! r \<Longrightarrow>
       allocation_order m k' = Some a' \<Longrightarrow> a \<le> a'"
proof -
  let ?s = "seqid_to_row m"
  let ?v = "map (\<lambda>r. steps ! r) (map snd ?s)"
  define mx where "mx = foldr max ?v 0"
  define tied where "tied = filter (\<lambda>i. ?v ! i = mx) [0..<length (map snd ?s)]"
  define al where "al i = the (allocation_order m (map fst ?s ! i))" for i
  have d: "distinct (map fst ?s)"
    using ok by (simp add: rm_ok_def)
  have dom: "allocation_order m (map fst ?s ! i) = Some (al i)" if "i < length ?s" for i
  proof -
    have "map fst ?s ! i \<in> dom (allocation_order m)"
      using ok that unfolding rm_ok_def by (metis length_map nth_mem)
    then show ?thesis by (auto simp: al_def dom_def)
  qed
  have al: "mapr (\<lambda>i. case allocation_order m (map fst ?s ! i) of None \<Rightarrow> Inl KeyError | Some a \<Rightarrow> Inr a) tied
      = Inr (map al tied)"
    by (rule mapr_Inr) (use dom in \<open>auto simp: tied_def\<close>)
  have rows: "\<not> (\<exists>r \<in> set (map snd ?s). r \<ge> length steps)"
  proof -
    have "set (map snd ?s) \<subseteq> {0..<max_rows m}"
      using ok unfolding rm_ok_def by (metis Un_upper1 set_append)
    with len show ?thesis by fastforce
  qed
  have "mx \<in> set ?v"
    using foldr_max [of ?v] ne by (simp add: mx_def)
  then obtain i where "i < length ?v" "?v ! i = mx"
    unfolding in_set_conv_nth by blast
  then have "i \<in> set tied"
    by (simp add: tied_def)
  then have tne: "tied \<noteq> []"
    by auto
  define j where "j = tied ! argmin (map al tied)"
  have j: "j \<in> set tied" "\<And>i. i \<in> set tied \<Longrightarrow> al j \<le> al i"
    using argmin_spec [of "map al tied"] tne by (auto simp: j_def)
  then have jl: "j < length ?s" "?v ! j = mx"
    by (auto simp: tied_def)
  have look: "get_row m k = Some r \<longleftrightarrow> (\<exists>i < length ?s. ?s ! i = (k, r))" for k r
    using d by (simp add: get_row_def map_of_eq_Some_iff in_set_conv_nth) 
  show thesis
  proof (rule that [of "fst (?s ! j)" "snd (?s ! j)" "al j"])
    show "get_oldest_sequence m steps = Inr (Some (fst (?s ! j), snd (?s ! j)))"
      using ne rows jl(1)
      unfolding get_oldest_sequence_def Let_def mx_def [symmetric] tied_def [symmetric] al
      by (simp add: j_def)
    show "get_row m (fst (?s ! j)) = Some (snd (?s ! j))"
      using jl(1) by (auto simp: look)
    show "allocation_order m (fst (?s ! j)) = Some (al j)"
      using dom [OF jl(1)] jl(1) by simp
    fix k' r' assume k': "get_row m k' = Some r'"
    then obtain i where i: "i < length ?s" "?s ! i = (k', r')"
      by (auto simp: look)
    have "?v ! i \<le> mx"
      using foldr_max [of ?v] i(1) by (simp add: mx_def)
    with i jl show le: "steps ! r' \<le> steps ! snd (?s ! j)"
      by simp
    fix a' assume eq: "steps ! r' = steps ! snd (?s ! j)" and a': "allocation_order m k' = Some a'"
    from eq i jl have "i \<in> set tied"
      by (simp add: tied_def)
    then have "al j \<le> al i" by (rule j(2))
    also have "al i = a'"
      using a' i by (simp add: al_def)
    finally show "al j \<le> a'" .
  qed
qed

lemma run_max_rows: "max_rows (rm_run ops n) = n"
  unfolding rm_run_def max_rows_run by (simp add: rm_init_def)

lemma run_ok: "rm_ok (rm_run ops n)"
  unfolding rm_run_eq by (rule rm.run_inv) (rule rm_ok_init)

lemma ran_get_row: "rm_ok m \<Longrightarrow> ran (get_row m) = set (map snd (seqid_to_row m))"
proof -
  assume "rm_ok m"
  then have "distinct (map fst (seqid_to_row m))"
    by (simp add: rm_ok_def)
  then have "ran (map_of (seqid_to_row m)) = snd ` set (seqid_to_row m)"
    by (rule ran_distinct)
  moreover have "get_row m = map_of (seqid_to_row m)"
    by (rule ext) (simp add: get_row_def)
  ultimately show ?thesis by simp
qed

section \<open>Properties\<close>

text \<open>C22: whatever allocations and releases happened, no two sequences share a row, every row of the
  buffer is either owned or free, never both, and the free list has no duplicates.\<close>

theorem rows_exclusive:
  "inj_on (get_row (rm_run ops n)) (dom (get_row (rm_run ops n))) \<and>
   ran (get_row (rm_run ops n)) \<union> set (free_rows (rm_run ops n)) = {0..<n} \<and>
   ran (get_row (rm_run ops n)) \<inter> set (free_rows (rm_run ops n)) = {} \<and>
   distinct (free_rows (rm_run ops n))"
proof -
  let ?m = "rm_run ops n"
  have ok: "rm_ok ?m" by (rule run_ok)
  have "inj_on (get_row ?m) (dom (get_row ?m))"
    using get_row_inj [OF ok] by (auto simp: inj_on_def dom_def)
  moreover have "distinct (map snd (seqid_to_row ?m) @ free_rows ?m)"
    "set (map snd (seqid_to_row ?m) @ free_rows ?m) = {0..<n}"
    using ok run_max_rows [of ops n] by (simp_all add: rm_ok_def)
  ultimately show ?thesis
    by (simp add: ran_get_row [OF ok])
qed

text \<open>A sequence keeps its row until it is released: neither allocations nor releases of other
  sequences move it.\<close>

theorem row_stable_until_released:
  assumes "get_row (rm_run ops n) k = Some r" "(False, k) \<notin> set ops'"
  shows "get_row (rm_run (ops @ ops') n) k = Some r"
proof -
  have "rm_run (ops @ ops') n = rm.pool_run ops' (rm_run ops n)"
    by (simp add: rm_run_def rm.pool_run_def)
  with rm.run_keeps_row [OF run_ok assms] show ?thesis by simp
qed

theorem row_stable_until_released_witness:
  "get_row (rm_run ([(True, ''a'')] @ [(True, ''b''), (False, ''b'')]) 2) ''a'' = Some 0"
proof (rule row_stable_until_released)
  show "get_row (rm_run [(True, ''a'')] 2) ''a'' = Some 0"
    by (simp add: rm_run_def rm_init_def get_row_def allocate_row_def upt_rec)
qed simp

text \<open>C13: \<^verbatim>\<open>get_oldest_sequence\<close> never raises on a reachable manager whose rows are all within the
  step counters: it returns no sequence exactly when none is allocated, and otherwise an owner of a
  row with the most steps that was allocated first among those.\<close>

theorem oldest_sequence_correct:
  assumes "n \<le> length steps"
  shows "case get_oldest_sequence (rm_run ops n) steps of
      Inl err \<Rightarrow> False
    | Inr None \<Rightarrow> dom (get_row (rm_run ops n)) = {}
    | Inr (Some (k, r)) \<Rightarrow> get_row (rm_run ops n) k = Some r \<and>
        (\<forall>k' r'. get_row (rm_run ops n) k' = Some r' \<longrightarrow> steps ! r' \<le> steps ! r \<and>
           (steps ! r' = steps ! r \<longrightarrow>
              the (allocation_order (rm_run ops n) k) \<le> the (allocation_order (rm_run ops n) k')))"
proof (cases "seqid_to_row (rm_run ops n) = []")
  case True
  then show ?thesis
    by (auto simp: get_oldest_sequence_def get_row_def)
next
  case False
  let ?m = "rm_run ops n"
  have dom: "\<exists>a. allocation_order ?m k' = Some a" if "get_row ?m k' = Some r'" for k' r'
  proof -
    have "k' \<in> set (map fst (seqid_to_row ?m))"
      using that by (force simp: get_row_def dest: map_of_SomeD)
    then show ?thesis
      using run_ok [of ops n] by (auto simp: rm_ok_def)
  qed
  obtain k r a where "get_oldest_sequence ?m steps = Inr (Some (k, r))" "get_row ?m k = Some r"
    "allocation_order ?m k = Some a"
    "\<And>k' r'. get_row ?m k' = Some r' \<Longrightarrow> steps ! r' \<le> steps ! r"
    "\<And>k' r' a'. get_row ?m k' = Some r' \<Longrightarrow> steps ! r' = steps ! r \<Longrightarrow>
       allocation_order ?m k' = Some a' \<Longrightarrow> a \<le> a'"
    by (rule get_oldest_correct [OF run_ok False, of steps]) (use assms in \<open>auto simp: run_max_rows\<close>)
  with dom show ?thesis
    by (fastforce)
qed

theorem oldest_sequence_correct_witness:
  "case get_oldest_sequence (rm_run [(True, ''a''), (True, ''b'')] 2) [3, 3] of
      Inl err \<Rightarrow> False
    | Inr None \<Rightarrow> dom (get_row (rm_run [(True, ''a''), (True, ''b'')] 2)) = {}
    | Inr (Some (k, r)) \<Rightarrow> get_row (rm_run [(True, ''a''), (True, ''b'')] 2) k = Some r \<and>
        (\<forall>k' r'. get_row (rm_run [(True, ''a''), (True, ''b'')] 2) k' = Some r' \<longrightarrow> [3, 3] ! r' \<le> [3, 3 :: nat] ! r \<and>
           ([3, 3] ! r' = [3, 3 :: nat] ! r \<longrightarrow>
              the (allocation_order (rm_run [(True, ''a''), (True, ''b'')] 2) k) \<le>
              the (allocation_order (rm_run [(True, ''a''), (True, ''b'')] 2) k')))"
  by (rule oldest_sequence_correct) simp

end
