(* ===== verification/RingBuffers.thy ===== *)
theory RingBuffers
  imports TargetCheck Doubles
begin

text \<open>
  \<^verbatim>\<open>RingBuffers\<close> of \<^verbatim>\<open>pow_utils.py\<close>: per buffer row the last \<open>window_size\<close> sampled steps, the
  step counter, the job parameters, the admission nonce, and the host mirrors of those device
  tensors that the hot path reads.  The tensors are laid out by row here (the code has the window
  position as the first index); a row index outside the buffer is an IndexError.
\<close>

section \<open>State\<close>

text \<open>One window position of one row.\<close>

record slot =
  chosen_token :: int
  chosen_prob :: f64
  topk_logits :: "f64 list"
  topk_indices :: "int list"
  sampling_u :: f64
  softmax_normalizer :: f64
  logsumexp_stats :: "f64 list"
  attention_mask :: bool

definition blank_slot :: slot where
  "blank_slot = \<lparr>chosen_token = 0, chosen_prob = Fin 0 0, topk_logits = replicate 70 (Fin 0 0),
     topk_indices = replicate 70 0, sampling_u = Fin 0 0, softmax_normalizer = Fin 0 0,
     logsumexp_stats = replicate 6 (Fin 0 0), attention_mask = False\<rparr>"

record rb_row =
  ring :: "slot list"
  steps :: nat
  steps_host :: nat
  pow_tick :: int
  pow_request_id :: int
  pow_header :: "byte list"
  pow_vdf :: "byte list"
  pow_vdf_len :: nat
  pow_target :: "byte list"
  pow_share_target :: "byte list"
  pow_block_hash :: "byte list"
  pow_header_len :: nat
  pow_valid :: bool
  pow_header_len_host :: nat
  pow_vdf_len_host :: nat
  pow_admission_nonce :: "byte list"
  pow_admission_valid :: bool
  pow_admission_valid_host :: bool

definition blank_row :: "nat \<Rightarrow> rb_row" where
  "blank_row W = \<lparr>ring = replicate W blank_slot, steps = 0, steps_host = 0, pow_tick = 0,
     pow_request_id = 0, pow_header = replicate 76 0, pow_vdf = replicate 1024 0, pow_vdf_len = 0,
     pow_target = replicate 32 0, pow_share_target = replicate 32 0, pow_block_hash = replicate 32 0,
     pow_header_len = 0, pow_valid = False, pow_header_len_host = 0, pow_vdf_len_host = 0,
     pow_admission_nonce = replicate 32 0, pow_admission_valid = False,
     pow_admission_valid_host = False\<rparr>"

record ring_buffers =
  window_size :: nat
  rb_rows :: "rb_row list"
  steps_host_fastpath :: bool
  steps_host_ok :: bool

definition rb_init :: "nat \<Rightarrow> nat \<Rightarrow> bool \<Rightarrow> ring_buffers" where
  "rb_init W n fastpath = \<lparr>window_size = W, rb_rows = replicate n (blank_row W),
     steps_host_fastpath = fastpath, steps_host_ok = fastpath\<rparr>"

text \<open>Row access that raises, and an update of one row.\<close>

definition in_range :: "ring_buffers \<Rightarrow> nat \<Rightarrow> bool" where
  "in_range b r = (r < length (rb_rows b))"

definition on_row :: "nat \<Rightarrow> rb_row act \<Rightarrow> ring_buffers act" where
  "on_row r f b =
     (if in_range b r
      then (case f (rb_rows b ! r) of (row, e) \<Rightarrow> (b\<lparr>rb_rows := (rb_rows b)[r := row]\<rparr>, e))
      else (b, Some IndexError))"

section \<open>Clearing\<close>

definition zero_slot :: "slot \<Rightarrow> slot" where
  "zero_slot s = s\<lparr>topk_logits := map (\<lambda>_. Fin 0 0) (topk_logits s),
     topk_indices := map (\<lambda>_. 0) (topk_indices s), chosen_prob := Fin 0 0, chosen_token := 0,
     attention_mask := False, sampling_u := Fin 0 0, softmax_normalizer := Fin 0 0,
     logsumexp_stats := map (\<lambda>_. Fin 0 0) (logsumexp_stats s)\<rparr>"

definition zero_bytes :: "byte list \<Rightarrow> byte list" where
  "zero_bytes bs = map (\<lambda>_. 0) bs"

definition zero_row :: "rb_row \<Rightarrow> rb_row" where
  "zero_row w = w
     \<lparr>ring := map zero_slot (ring w), steps := 0, steps_host := 0, pow_tick := 0,
      pow_request_id := 0, pow_header := zero_bytes (pow_header w), pow_vdf := zero_bytes (pow_vdf w),
      pow_vdf_len := 0, pow_target := zero_bytes (pow_target w),
      pow_share_target := zero_bytes (pow_share_target w),
      pow_block_hash := zero_bytes (pow_block_hash w), pow_header_len := 0,
      pow_header_len_host := 0, pow_vdf_len_host := 0, pow_valid := False,
      pow_admission_nonce := zero_bytes (pow_admission_nonce w), pow_admission_valid := False,
      pow_admission_valid_host := False\<rparr>"

definition clear_row :: "nat option \<Rightarrow> ring_buffers act" where
  "clear_row row = (case row of None \<Rightarrow> act_pure id | Some r \<Rightarrow> on_row r (act_pure zero_row))"

text \<open>
  \<^verbatim>\<open>clear_rows\<close>: the device tensors of all rows by index assignment, then the host mirrors in a
  loop over the rows.
\<close>

definition clear_rows_device :: "nat list \<Rightarrow> rb_row list \<Rightarrow> rb_row list" where
  "clear_rows_device rs ws = map (\<lambda>(i, w). if i \<in> set rs then w
        \<lparr>ring := map zero_slot (ring w), steps := 0, pow_tick := 0,
         pow_request_id := 0, pow_header := zero_bytes (pow_header w), pow_vdf := zero_bytes (pow_vdf w),
         pow_vdf_len := 0, pow_target := zero_bytes (pow_target w),
         pow_share_target := zero_bytes (pow_share_target w),
         pow_block_hash := zero_bytes (pow_block_hash w), pow_header_len := 0, pow_valid := False,
         pow_admission_nonce := zero_bytes (pow_admission_nonce w), pow_admission_valid := False\<rparr>
      else w) (zip [0..<length ws] ws)"

definition clear_rows :: "nat list \<Rightarrow> ring_buffers act" where
  "clear_rows rs b =
     (if rs = [] then (b, None)
      else if \<exists>r \<in> set rs. \<not> in_range b r then (b, Some IndexError)
      else (b\<lparr>rb_rows := fold (\<lambda>r ws. ws[r := (ws ! r)
               \<lparr>pow_header_len_host := 0, pow_admission_valid_host := False, pow_vdf_len_host := 0,
                steps_host := 0\<rparr>]) rs (clear_rows_device rs (rb_rows b))\<rparr>, None))"

section \<open>Job parameters and admission nonce\<close>

definition write_admission_nonce :: "nat \<Rightarrow> byte list option \<Rightarrow> ring_buffers act" where
  "write_admission_nonce row nonce =
     (case nonce of
        None \<Rightarrow> on_row row (act_pure (\<lambda>w. w\<lparr>pow_admission_nonce := zero_bytes (pow_admission_nonce w),
                  pow_admission_valid := False, pow_admission_valid_host := False\<rparr>))
      | Some n \<Rightarrow>
          if length n \<noteq> 32 then (\<lambda>b. (b, Some ValueError))
          else on_row row (act_pure (\<lambda>w. w\<lparr>pow_admission_nonce := n, pow_admission_valid := True,
                  pow_admission_valid_host := True\<rparr>)))"

text \<open>
  The job snapshot of a request.  \<^verbatim>\<open>.get(key, "")\<close> is the empty string for a missing key;
  \<^verbatim>\<open>tick\<close> is read with \<^verbatim>\<open>[...]\<close> and is an option.
\<close>

record pow_snapshot =
  ps_tick :: "int option"
  ps_request_id :: int
  ps_header_prefix :: string
  ps_vdf :: string
  ps_block_hash :: string
  ps_target :: string
  ps_share_target :: string

text \<open>\<^verbatim>\<open>dst[:n] = src[:n]\<close> with \<open>n = min(len(src), cap)\<close>.\<close>

definition overwrite :: "nat \<Rightarrow> byte list \<Rightarrow> byte list \<Rightarrow> byte list" where
  "overwrite cap src dst = (let n = min (length src) cap in take n src @ drop n dst)"

definition write_header :: "pow_snapshot \<Rightarrow> rb_row act" where
  "write_header p =
     (if ps_header_prefix p \<noteq> []
      then act_let (hex_to_bytes_tensor (ps_header_prefix p)) (\<lambda>bs. act_pure (\<lambda>w.
             (let hlen = min (length bs) 76
              in w\<lparr>pow_header := overwrite 76 bs (pow_header w), pow_header_len := hlen,
                   pow_header_len_host := hlen\<rparr>)))
      else act_pure (\<lambda>w. w\<lparr>pow_header_len := 0\<rparr>))"

definition write_vdf :: "pow_snapshot \<Rightarrow> rb_row act" where
  "write_vdf p =
     (if ps_vdf p \<noteq> []
      then act_let (hex_to_bytes_tensor (ps_vdf p)) (\<lambda>bs. act_pure (\<lambda>w.
             (let vlen = min (length bs) 1024
              in w\<lparr>pow_vdf := overwrite 1024 bs (pow_vdf w), pow_vdf_len := vlen,
                   pow_vdf_len_host := vlen\<rparr>)))
      else act_pure (\<lambda>w. w\<lparr>pow_vdf_len := 0\<rparr>))"

definition write_target :: "pow_snapshot \<Rightarrow> rb_row act" where
  "write_target p =
     (if ps_target p \<noteq> []
      then act_let (hex_to_bytes_tensor (norm64 (ps_target p)))
             (\<lambda>bs. act_pure (\<lambda>w. w\<lparr>pow_target := overwrite 32 bs (pow_target w)\<rparr>))
      else act_pure id)"

definition write_share_target :: "pow_snapshot \<Rightarrow> rb_row act" where
  "write_share_target p =
     (if ps_share_target p \<noteq> []
      then act_let (hex_to_bytes_tensor (norm64 (ps_share_target p)))
             (\<lambda>bs. act_pure (\<lambda>w. w\<lparr>pow_share_target := overwrite 32 bs (pow_share_target w)\<rparr>))
      else act_pure id)"

text \<open>The block hash, and the header taken from it when no header prefix was written.\<close>

definition write_block_hash :: "pow_snapshot \<Rightarrow> rb_row act" where
  "write_block_hash p =
     (if ps_block_hash p \<noteq> []
      then act_let (hex_to_bytes_tensor (ps_block_hash p)) (\<lambda>bs. act_pure (\<lambda>w.
             (let bhlen = min (length bs) 32;
                  w = w\<lparr>pow_block_hash := overwrite 32 bs (pow_block_hash w)\<rparr>
              in if pow_header_len_host w = 0
                 then w\<lparr>pow_header := overwrite bhlen (pow_block_hash w) (pow_header w),
                        pow_header_len := bhlen, pow_header_len_host := bhlen\<rparr>
                 else w)))
      else act_pure id)"

definition write_pow_params :: "nat \<Rightarrow> pow_snapshot option \<Rightarrow> ring_buffers act" where
  "write_pow_params row pow_snapshot = on_row row
     (case pow_snapshot of
        None \<Rightarrow> act_pure (\<lambda>w. w\<lparr>pow_valid := False, pow_header_len_host := 0, pow_vdf_len_host := 0\<rparr>)
      | Some p \<Rightarrow>
          act_let (case ps_tick p of None \<Rightarrow> Inl KeyError | Some t \<Rightarrow> Inr t) (\<lambda>t.
          act_then (act_pure (\<lambda>w. w\<lparr>pow_tick := t, pow_request_id := ps_request_id p,
                      pow_header_len_host := 0, pow_vdf_len_host := 0\<rparr>))
          (act_then (write_header p)
          (act_then (write_vdf p)
          (act_then (write_target p)
          (act_then (write_share_target p)
          (act_then (write_block_hash p)
          (act_pure (\<lambda>w. w\<lparr>pow_valid := True\<rparr>)))))))))"

section \<open>Recording steps\<close>

definition get_positions :: "ring_buffers \<Rightarrow> nat list \<Rightarrow> nat list res" where
  "get_positions b rows =
     mapr (\<lambda>r. if in_range b r then Inr (steps (rb_rows b ! r) mod window_size b) else Inl IndexError) rows"

definition write_buffers :: "nat list \<Rightarrow> nat list \<Rightarrow> slot list \<Rightarrow> ring_buffers act" where
  "write_buffers pos rows slots b =
     (if \<exists>r \<in> set rows. \<not> in_range b r then (b, Some IndexError)
      else (b\<lparr>rb_rows := fold (\<lambda>(p, r, s) ws. ws[r := (ws ! r)\<lparr>ring := (ring (ws ! r))[p := s]\<rparr>])
              (zip pos (zip rows slots)) (rb_rows b)\<rparr>, None))"

text \<open>
  \<^verbatim>\<open>increment_steps\<close>: \<^verbatim>\<open>self.steps[r] += 1\<close> gathers and scatters, so a repeated row is
  incremented once on the device; the host loop increments it once per occurrence.
\<close>

definition increment_steps :: "nat list \<Rightarrow> nat list option \<Rightarrow> ring_buffers act" where
  "increment_steps rows rows_host b =
     (if rows = [] then (b, None)
      else if \<exists>r \<in> set rows. \<not> in_range b r then (b, Some IndexError)
      else
        (let b = b\<lparr>rb_rows := map (\<lambda>(i, w). if i \<in> set rows then w\<lparr>steps := steps w + 1\<rparr> else w)
                    (zip [0..<length (rb_rows b)] (rb_rows b))\<rparr>
         in if \<not> steps_host_fastpath b then (b, None)
            else case rows_host of
              None \<Rightarrow> (b\<lparr>steps_host_ok := False\<rparr>, None)
            | Some rh \<Rightarrow>
                fold (\<lambda>r. (\<lambda>(b, e). if e \<noteq> None then (b, e)
                        else on_row r (act_pure (\<lambda>w. w\<lparr>steps_host := steps_host w + 1\<rparr>)) b))
                  rh (b, None)))"

definition get_window :: "ring_buffers \<Rightarrow> nat \<Rightarrow> slot list res" where
  "get_window b row =
     (if in_range b row
      then (let w = rb_rows b ! row; pos = steps w mod window_size b;
                idx = map (\<lambda>i. (i + pos) mod window_size b) [0..<window_size b]
            in Inr (map (\<lambda>i. ring w ! i) idx))
      else Inl IndexError)"

section \<open>Shape and mirrors\<close>

definition slot_ok :: "slot \<Rightarrow> bool" where
  "slot_ok s \<longleftrightarrow> length (topk_logits s) = 70 \<and> length (topk_indices s) = 70 \<and> length (logsumexp_stats s) = 6"

definition row_ok :: "nat \<Rightarrow> rb_row \<Rightarrow> bool" where
  "row_ok W w \<longleftrightarrow> length (ring w) = W \<and> list_all slot_ok (ring w) \<and>
     length (pow_header w) = 76 \<and> length (pow_vdf w) = 1024 \<and> length (pow_target w) = 32 \<and>
     length (pow_share_target w) = 32 \<and> length (pow_block_hash w) = 32 \<and>
     length (pow_admission_nonce w) = 32 \<and>
     pow_admission_valid_host w = pow_admission_valid w \<and>
     (pow_valid w \<longrightarrow> pow_header_len_host w = pow_header_len w \<and> pow_vdf_len_host w = pow_vdf_len w)"

definition rb_ok :: "ring_buffers \<Rightarrow> bool" where
  "rb_ok b \<longleftrightarrow> list_all (row_ok (window_size b)) (rb_rows b) \<and>
     (steps_host_ok b \<longrightarrow> steps_host_fastpath b \<and> list_all (\<lambda>w. steps_host w = steps w) (rb_rows b))"

lemma zero_slot_blank: "slot_ok s \<Longrightarrow> zero_slot s = blank_slot"
  by (simp add: zero_slot_def blank_slot_def slot_ok_def map_replicate_const)

lemma slot_ok_blank [simp]: "slot_ok blank_slot"
  by (simp add: slot_ok_def blank_slot_def)

lemma zero_ring: "list_all slot_ok ss \<Longrightarrow> map zero_slot ss = replicate (length ss) blank_slot"
  by (induction ss) (auto simp: zero_slot_blank)

lemma zero_bytes_eq: "zero_bytes bs = replicate (length bs) 0"
  by (simp add: zero_bytes_def map_replicate_const)

lemma length_overwrite [simp]: "cap \<le> length dst \<Longrightarrow> length (overwrite cap src dst) = length dst"
  by (simp add: overwrite_def Let_def)

lemma row_ok_blank: "row_ok W (blank_row W)"
  by (simp add: row_ok_def blank_row_def list_all_iff)

lemma rb_ok_init: "rb_ok (rb_init W n fp)"
  by (simp add: rb_ok_def rb_init_def list_all_iff row_ok_blank) (simp add: blank_row_def)

lemma on_row_frame:
  "fst (on_row r f b) = b\<lparr>rb_rows := (rb_rows b)[r := fst (f (rb_rows b ! r))]\<rparr>"
  by (simp add: on_row_def in_range_def list_update_beyond split: prod.split)

lemma on_row_ok:
  assumes "rb_ok b"
    "\<And>w. row_ok (window_size b) w \<Longrightarrow> w = rb_rows b ! r \<Longrightarrow> row_ok (window_size b) (fst (f w))"
    "\<And>w. row_ok (window_size b) w \<Longrightarrow> w = rb_rows b ! r \<Longrightarrow> steps_host w = steps w \<Longrightarrow>
       steps_host (fst (f w)) = steps (fst (f w))"
  shows "rb_ok (fst (on_row r f b))"
proof (cases "r < length (rb_rows b)")
  case True
  with assms show ?thesis
    by (auto simp: rb_ok_def on_row_frame list_all_iff dest!: set_update_subset_insert [THEN subsetD])
next
  case False
  with assms(1) show ?thesis
    by (simp add: on_row_frame list_update_beyond)
qed

lemma clear_row_ok: "rb_ok b \<Longrightarrow> rb_ok (fst (clear_row r b))"
  by (cases r) (auto simp: clear_row_def zero_row_def row_ok_def zero_ring zero_bytes_eq list_all_iff intro!: on_row_ok)

lemma write_admission_ok: "rb_ok b \<Longrightarrow> rb_ok (fst (write_admission_nonce r n b))"
  by (cases n) (auto simp: write_admission_nonce_def row_ok_def zero_bytes_eq intro!: on_row_ok)

lemma map_zip_index: "map (\<lambda>(i, w). f i w) (zip [0..<length ws] ws) = map (\<lambda>i. f i (ws ! i)) [0..<length ws]"
  by (rule nth_equalityI) auto

lemma fold_update_idem:
  assumes "\<And>w. f (f w) = f w"
  shows "fold (\<lambda>r ws. ws[r := f (ws ! r)]) rs ws =
    map (\<lambda>i. if i \<in> set rs then f (ws ! i) else ws ! i) [0..<length ws]"
proof (induction rs arbitrary: ws)
  case Nil
  then show ?case by (simp add: map_nth)
next
  case (Cons r rs)
  have "f (ws[r := f (ws ! r)] ! i) = f (ws ! i)" for i
    by (cases "i = r"; cases "r < length ws") (simp_all add: assms list_update_beyond)
  then show ?case
    by (intro nth_equalityI) (auto simp: Cons nth_list_update assms)
qed

lemma fold_clear_row:
  "\<forall>r \<in> set rs. in_range b r \<Longrightarrow>
   fold (\<lambda>r b. fst (clear_row (Some r) b)) rs b =
     b\<lparr>rb_rows := fold (\<lambda>r ws. ws[r := zero_row (ws ! r)]) rs (rb_rows b)\<rparr>"
  by (induction rs arbitrary: b) (auto simp: clear_row_def on_row_frame in_range_def)

lemma zero_row_idem: "zero_row (zero_row w) = zero_row w"
  by (simp add: zero_row_def zero_bytes_def zero_slot_def)

lemma clear_rows_rows:
  assumes "\<forall>r \<in> set rs. in_range b r"
  shows "clear_rows rs b = (b\<lparr>rb_rows := map (\<lambda>i. if i \<in> set rs then zero_row (rb_rows b ! i)
      else rb_rows b ! i) [0..<length (rb_rows b)]\<rparr>, None)"
proof (cases "rs = []")
  case True
  then show ?thesis by (simp add: clear_rows_def map_nth)
next
  case False
  have i: "fold (\<lambda>r ws. ws[r := (ws ! r)
               \<lparr>pow_header_len_host := 0, pow_admission_valid_host := False, pow_vdf_len_host := 0,
                steps_host := 0\<rparr>]) rs ws = map (\<lambda>i. if i \<in> set rs then (ws ! i)
               \<lparr>pow_header_len_host := 0, pow_admission_valid_host := False, pow_vdf_len_host := 0,
                steps_host := 0\<rparr> else ws ! i) [0..<length ws]" for ws
    by (rule fold_update_idem) simp
  have "clear_rows rs b = (b\<lparr>rb_rows := map (\<lambda>i. if i \<in> set rs then zero_row (rb_rows b ! i)
      else rb_rows b ! i) [0..<length (rb_rows b)]\<rparr>, None)"
    unfolding clear_rows_def i
    using False assms by (auto simp: clear_rows_device_def map_zip_index zero_row_def)
  then show ?thesis .
qed

lemma clear_rows_eq_fold:
  assumes "\<forall>r \<in> set rs. in_range b r"
  shows "clear_rows rs b = (fold (\<lambda>r b. fst (clear_row (Some r) b)) rs b, None)"
  unfolding clear_rows_rows [OF assms] fold_clear_row [OF assms]
    fold_update_idem [of zero_row, OF zero_row_idem] by simp

lemma clear_rows_ok: "rb_ok b \<Longrightarrow> rb_ok (fst (clear_rows rs b))"
proof -
  assume ok: "rb_ok b"
  show ?thesis
  proof (cases "\<forall>r \<in> set rs. in_range b r")
    case True
    have "rb_ok (fold (\<lambda>r b. fst (clear_row (Some r) b)) rs b)"
      using ok by (induction rs arbitrary: b) (auto simp: clear_row_ok)
    with clear_rows_eq_fold [OF True] show ?thesis by simp
  next
    case False
    with ok show ?thesis by (auto simp: clear_rows_def)
  qed
qed

lemma zero_row_blank: "row_ok W w \<Longrightarrow> zero_row w = blank_row W"
  by (simp add: zero_row_def blank_row_def row_ok_def zero_ring zero_bytes_eq)

text \<open>What each stage of \<^verbatim>\<open>write_pow_params\<close> leaves of the shape and the mirrors.\<close>

definition row_shape :: "nat \<Rightarrow> rb_row \<Rightarrow> bool" where
  "row_shape W w \<longleftrightarrow> length (ring w) = W \<and> list_all slot_ok (ring w) \<and>
     length (pow_header w) = 76 \<and> length (pow_vdf w) = 1024 \<and> length (pow_target w) = 32 \<and>
     length (pow_share_target w) = 32 \<and> length (pow_block_hash w) = 32 \<and>
     length (pow_admission_nonce w) = 32 \<and>
     pow_admission_valid_host w = pow_admission_valid w"

lemma row_ok_shape: "row_ok W w \<longleftrightarrow> row_shape W w \<and>
    (pow_valid w \<longrightarrow> pow_header_len_host w = pow_header_len w \<and> pow_vdf_len_host w = pow_vdf_len w)"
  by (auto simp: row_ok_def row_shape_def)

text \<open>The stages share one contract.\<close>

definition stage_ok :: "nat \<Rightarrow> rb_row act \<Rightarrow> bool" where
  "stage_ok W f \<longleftrightarrow> (\<forall>w. row_shape W w \<longrightarrow> row_shape W (fst (f w)) \<and>
     pow_valid (fst (f w)) = pow_valid w \<and> steps (fst (f w)) = steps w \<and>
     steps_host (fst (f w)) = steps_host w)"

lemma stage_then: "stage_ok W f \<Longrightarrow> stage_ok W g \<Longrightarrow> stage_ok W (act_then f g)"
  by (simp add: stage_ok_def fst_act_then)

lemma stage_let: "(\<And>x. stage_ok W (k x)) \<Longrightarrow> stage_ok W (act_let v k)"
  by (cases v) (simp_all add: stage_ok_def)

lemma stage_pure:
  "(\<And>w. row_shape W w \<Longrightarrow> row_shape W (f w) \<and> pow_valid (f w) = pow_valid w \<and>
     steps (f w) = steps w \<and> steps_host (f w) = steps_host w) \<Longrightarrow> stage_ok W (act_pure f)"
  by (simp add: stage_ok_def)

lemma stage_header: "stage_ok W (write_header p)"
  unfolding write_header_def by (auto simp: row_shape_def Let_def intro!: stage_let stage_pure)

lemma stage_vdf: "stage_ok W (write_vdf p)"
  unfolding write_vdf_def by (auto simp: row_shape_def Let_def intro!: stage_let stage_pure)

lemma stage_target: "stage_ok W (write_target p)"
  unfolding write_target_def by (auto simp: row_shape_def intro!: stage_let stage_pure)

lemma stage_share_target: "stage_ok W (write_share_target p)"
  unfolding write_share_target_def by (auto simp: row_shape_def intro!: stage_let stage_pure)

lemma stage_block_hash: "stage_ok W (write_block_hash p)"
  unfolding write_block_hash_def
  by (auto simp: row_shape_def Let_def intro!: stage_let stage_pure split: if_splits)

lemmas stages = stage_header stage_vdf stage_target stage_share_target stage_block_hash

text \<open>The mirrors of the lengths agree once the block hash is written, if no stage raised.\<close>

definition job_stages :: "pow_snapshot \<Rightarrow> rb_row act" where
  "job_stages p = act_then (write_header p) (act_then (write_vdf p) (act_then (write_target p)
     (act_then (write_share_target p) (write_block_hash p))))"

lemma write_pow_params_Some:
  "write_pow_params r (Some p) = on_row r
     (act_let (case ps_tick p of None \<Rightarrow> Inl KeyError | Some t \<Rightarrow> Inr t) (\<lambda>t.
        act_then (act_pure (\<lambda>w. w\<lparr>pow_tick := t, pow_request_id := ps_request_id p,
                      pow_header_len_host := 0, pow_vdf_len_host := 0\<rparr>))
        (act_then (job_stages p) (act_pure (\<lambda>w. w\<lparr>pow_valid := True\<rparr>)))))"
  by (simp add: write_pow_params_def job_stages_def act_then_assoc)

lemma job_stages_mirrors:
  assumes "pow_header_len_host w = 0" "pow_vdf_len_host w = 0" "job_stages p w = (w', None)"
  shows "pow_header_len_host w' = pow_header_len w' \<and> pow_vdf_len_host w' = pow_vdf_len w'"
  using assms
  by (auto simp: job_stages_def act_then_def act_pure_def act_let_def write_header_def write_vdf_def
      write_target_def write_share_target_def write_block_hash_def Let_def
      split: sum.splits if_splits)

lemma write_pow_params_ok:
  assumes "rb_ok b" "p \<noteq> None \<longrightarrow> \<not> pow_valid (rb_rows b ! r)"
  shows "rb_ok (fst (write_pow_params r p b))"
proof (cases p)
  case None
  with assms(1) show ?thesis
    by (auto simp: write_pow_params_def row_ok_def intro!: on_row_ok)
next
  case (Some q)
  show ?thesis
  proof (cases "ps_tick q")
    case None
    with assms(1) Some show ?thesis
      by (auto simp: write_pow_params_def intro!: on_row_ok)
  next
    case (Some t)
    have st: "stage_ok (window_size b) (job_stages q)"
      by (simp add: job_stages_def stages stage_then)
    let ?init = "\<lambda>w. w\<lparr>pow_tick := t, pow_request_id := ps_request_id q,
       pow_header_len_host := 0, pow_vdf_len_host := 0\<rparr>"
    let ?f = "act_then (act_pure ?init) (act_then (job_stages q) (act_pure (\<lambda>w. w\<lparr>pow_valid := True\<rparr>)))"
    have f: "row_ok (window_size b) (fst (?f w)) \<and> (steps_host w = steps w \<longrightarrow> steps_host (fst (?f w)) = steps (fst (?f w)))"
      if "row_ok (window_size b) w" "\<not> pow_valid w" for w
    proof -
      obtain w' e where j: "job_stages q (?init w) = (w', e)" by fastforce
      have "row_shape (window_size b) (?init w)"
        using that by (simp add: row_ok_shape row_shape_def)
      with st j have w': "row_shape (window_size b) w'" "pow_valid w' = pow_valid w" "steps w' = steps w"
        "steps_host w' = steps_host w"
        by (auto simp: stage_ok_def dest!: spec [of _ "?init w"])
      with that j job_stages_mirrors [of "?init w" q w'] show ?thesis
        by (cases e) (auto simp: act_then_def act_pure_def row_ok_shape, auto simp: row_shape_def)
    qed
    have "rb_ok (fst (on_row r ?f b))"
      using assms f \<open>p = Some q\<close> by (intro on_row_ok) auto
    then show ?thesis
      by (simp add: \<open>p = Some q\<close> write_pow_params_Some Some)
  qed
qed

section \<open>Recording a batch of steps\<close>

text \<open>What the samplers do after a draw: write the slots at the current positions, then advance.\<close>

definition record_batch :: "nat list \<Rightarrow> slot list \<Rightarrow> nat list option \<Rightarrow> ring_buffers act" where
  "record_batch rows slots rows_host b = act_let (get_positions b rows)
     (\<lambda>pos. act_then (write_buffers pos rows slots) (increment_steps rows rows_host)) b"

definition row_push :: "nat \<Rightarrow> slot \<Rightarrow> rb_row \<Rightarrow> rb_row" where
  "row_push W s w = w\<lparr>ring := (ring w)[steps w mod W := s], steps := steps w + 1\<rparr>"

lemma fold_write_nth:
  assumes "distinct rows" "length pos = length rows" "length slots = length rows"
    "\<forall>r \<in> set rows. r < length ws"
  shows "length (fold (\<lambda>(p, r, s) ws. ws[r := (ws ! r)\<lparr>ring := (ring (ws ! r))[p := s]\<rparr>])
      (zip pos (zip rows slots)) ws) = length ws \<and>
    (\<forall>i < length ws. i \<notin> set rows \<longrightarrow>
      fold (\<lambda>(p, r, s) ws. ws[r := (ws ! r)\<lparr>ring := (ring (ws ! r))[p := s]\<rparr>])
        (zip pos (zip rows slots)) ws ! i = ws ! i) \<and>
    (\<forall>j < length rows. fold (\<lambda>(p, r, s) ws. ws[r := (ws ! r)\<lparr>ring := (ring (ws ! r))[p := s]\<rparr>])
        (zip pos (zip rows slots)) ws ! (rows ! j) =
       (ws ! (rows ! j))\<lparr>ring := (ring (ws ! (rows ! j)))[pos ! j := slots ! j]\<rparr>)"
  using assms
proof (induction rows arbitrary: pos slots ws)
  case Nil
  then show ?case by simp
next
  case (Cons r rows)
  obtain p ps where pos: "pos = p # ps" using Cons.prems by (cases pos) auto
  obtain s ss where slots: "slots = s # ss" using Cons.prems by (cases slots) auto
  let ?w = "ws[r := (ws ! r)\<lparr>ring := (ring (ws ! r))[p := s]\<rparr>]"
  note ih = Cons.IH [of ps ss ?w]
  have r: "r < length ws" "r \<notin> set rows" using Cons.prems by auto
  show ?case
  proof (intro conjI allI impI, goal_cases)
    case 1
    then show ?case using ih Cons.prems by (simp add: pos slots)
  next
    case (2 i)
    then show ?case using ih Cons.prems by (simp add: pos slots)
  next
    case (3 j)
    then show ?case
    proof (cases j)
      case 0
      then show ?thesis using ih Cons.prems r by (simp add: pos slots)
    next
      case (Suc k)
      have "rows ! k \<noteq> r" if "k < length rows"
        using r that by (metis nth_mem)
      then show ?thesis using ih Cons.prems 3 Suc by (simp add: pos slots)
    qed
  qed
qed

lemma fold_host_nth:
  "fold (\<lambda>r (b, e). if e \<noteq> None then (b, e)
     else on_row r (act_pure (\<lambda>w. w\<lparr>steps_host := steps_host w + 1\<rparr>)) b) rh (b, None) =
   (if \<forall>r \<in> set rh. in_range b r then
      (b\<lparr>rb_rows := fold (\<lambda>r ws. ws[r := (ws ! r)\<lparr>steps_host := steps_host (ws ! r) + 1\<rparr>]) rh (rb_rows b)\<rparr>, None)
    else X)" if "\<forall>r \<in> set rh. in_range b r"
  using that
proof (induction rh arbitrary: b)
  case Nil
  then show ?case by simp
next
  case (Cons r rh)
  let ?b = "b\<lparr>rb_rows := (rb_rows b)[r := (rb_rows b ! r)\<lparr>steps_host := steps_host (rb_rows b ! r) + 1\<rparr>]\<rparr>"
  have "\<forall>r \<in> set rh. in_range ?b r"
    using Cons.prems by (simp add: in_range_def)
  with Cons.IH [of ?b] Cons.prems show ?case
    by (simp add: on_row_def act_pure_def)
qed

lemma fold_count_nth:
  "distinct rh \<Longrightarrow> \<forall>r \<in> set rh. r < length ws \<Longrightarrow> 
   fold (\<lambda>r ws. ws[r := (ws ! r)\<lparr>steps_host := steps_host (ws ! r) + 1\<rparr>]) rh ws =
   map (\<lambda>i. if i \<in> set rh then (ws ! i)\<lparr>steps_host := steps_host (ws ! i) + 1\<rparr> else ws ! i) [0..<length ws]"
proof (induction rh arbitrary: ws)
  case Nil
  then show ?case by (simp add: map_nth)
next
  case (Cons r rh)
  then show ?case
    by (intro nth_equalityI) (auto simp: nth_list_update)
qed

definition host_bump :: "bool \<Rightarrow> nat \<Rightarrow> nat" where
  "host_bump on n = (if on then n + 1 else n)"

lemma increment_result:
  assumes "distinct rows" "rows \<noteq> []" "\<forall>r \<in> set rows. in_range b r" "rh = None \<or> rh = Some rows"
  shows "increment_steps rows rh b =
    (b\<lparr>rb_rows := map (\<lambda>i. if i \<in> set rows then (rb_rows b ! i)\<lparr>steps := steps (rb_rows b ! i) + 1,
          steps_host := host_bump (steps_host_fastpath b \<and> rh \<noteq> None) (steps_host (rb_rows b ! i))\<rparr>
        else rb_rows b ! i) [0..<length (rb_rows b)],
      steps_host_ok := (steps_host_ok b \<and> (\<not> steps_host_fastpath b \<or> rh \<noteq> None))\<rparr>, None)"
proof -
  define ws where "ws = map (\<lambda>i. if i \<in> set rows then (rb_rows b ! i)\<lparr>steps := steps (rb_rows b ! i) + 1\<rparr>
    else rb_rows b ! i) [0..<length (rb_rows b)]"
  let ?b = "b\<lparr>rb_rows := ws\<rparr>"
  have len: "length ws = length (rb_rows b)"
    by (simp add: ws_def)
  have nr: "\<not> (\<exists>r \<in> set rows. \<not> in_range b r)"
    using assms(3) by blast
  have st: "increment_steps rows rh b =
    (if \<not> steps_host_fastpath b then (?b, None)
     else case rh of None \<Rightarrow> (?b\<lparr>steps_host_ok := False\<rparr>, None)
     | Some rh \<Rightarrow> fold (\<lambda>r (b, e). if e \<noteq> None then (b, e)
         else on_row r (act_pure (\<lambda>w. w\<lparr>steps_host := steps_host w + 1\<rparr>)) b) rh (?b, None))"
    unfolding increment_steps_def if_not_P [OF assms(2)] if_not_P [OF nr] map_zip_index
      ws_def [symmetric] Let_def by simp
  have id: "(c :: ring_buffers)\<lparr>steps_host_ok := steps_host_ok c\<rparr> = c" for c
    by simp
  show ?thesis
  proof (cases "steps_host_fastpath b \<and> rh \<noteq> None")
    case False
    have "ws = map (\<lambda>i. if i \<in> set rows then (rb_rows b ! i)\<lparr>steps := steps (rb_rows b ! i) + 1,
          steps_host := steps_host (rb_rows b ! i)\<rparr> else rb_rows b ! i) [0..<length (rb_rows b)]"
      by (simp add: ws_def)
    with False st show ?thesis
      by (auto simp: host_bump_def split: option.splits)
  next
    case True
    with assms(4) have rh: "rh = Some rows" by auto
    have "\<forall>r \<in> set rows. in_range ?b r" "\<forall>r \<in> set rows. r < length ws"
      using assms(3) by (simp_all add: in_range_def len)
    from fold_host_nth [OF this(1)] fold_count_nth [OF assms(1) this(2)]
    have "increment_steps rows rh b = (b\<lparr>rb_rows := map (\<lambda>i. if i \<in> set rows
        then (ws ! i)\<lparr>steps_host := steps_host (ws ! i) + 1\<rparr> else ws ! i) [0..<length ws]\<rparr>, None)"
      using True rh st \<open>\<forall>r \<in> set rows. in_range ?b r\<close> by simp
    also have "map (\<lambda>i. if i \<in> set rows
        then (ws ! i)\<lparr>steps_host := steps_host (ws ! i) + 1\<rparr> else ws ! i) [0..<length ws] =
      map (\<lambda>i. if i \<in> set rows then (rb_rows b ! i)\<lparr>steps := steps (rb_rows b ! i) + 1,
          steps_host := host_bump (steps_host_fastpath b \<and> rh \<noteq> None) (steps_host (rb_rows b ! i))\<rparr>
        else rb_rows b ! i) [0..<length (rb_rows b)]"
      using True by (intro nth_equalityI) (simp_all add: ws_def host_bump_def)
    finally show ?thesis
      using True by simp
  qed
qed

lemma record_batch_result:
  assumes "distinct rows" "\<forall>r \<in> set rows. in_range b r" "length slots = length rows"
    "rh = None \<or> rh = Some rows"
  obtains b' where "record_batch rows slots rh b = (b', None)"
    "window_size b' = window_size b" "length (rb_rows b') = length (rb_rows b)"
    "steps_host_fastpath b' = steps_host_fastpath b"
    "steps_host_ok b' = (steps_host_ok b \<and> (rows = [] \<or> \<not> steps_host_fastpath b \<or> rh \<noteq> None))"
    "\<And>i. i < length (rb_rows b) \<Longrightarrow> i \<notin> set rows \<Longrightarrow> rb_rows b' ! i = rb_rows b ! i"
    "\<And>j. j < length rows \<Longrightarrow> rb_rows b' ! (rows ! j) =
       (row_push (window_size b) (slots ! j) (rb_rows b ! (rows ! j)))
         \<lparr>steps_host := host_bump (steps_host_fastpath b \<and> rh \<noteq> None) (steps_host (rb_rows b ! (rows ! j)))\<rparr>"
proof (cases "rows = []")
  case True
  then have "record_batch rows slots rh b = (b, None)"
    using assms by (simp add: record_batch_def get_positions_def act_then_def write_buffers_def increment_steps_def)
  with that [of b] True show thesis by simp
next
  case False
  define pos where "pos = map (\<lambda>r. steps (rb_rows b ! r) mod window_size b) rows"
  have p: "get_positions b rows = Inr pos"
    unfolding get_positions_def pos_def by (rule mapr_Inr) (use assms in auto)
  define ws where "ws = fold (\<lambda>(p, r, s) ws. ws[r := (ws ! r)\<lparr>ring := (ring (ws ! r))[p := s]\<rparr>])
      (zip pos (zip rows slots)) (rb_rows b)"
  have lens: "length pos = length rows" "\<forall>r \<in> set rows. r < length (rb_rows b)"
    using assms by (simp_all add: pos_def in_range_def)
  have ws: "length ws = length (rb_rows b)"
    "\<And>i. i < length (rb_rows b) \<Longrightarrow> i \<notin> set rows \<Longrightarrow> ws ! i = rb_rows b ! i"
    "\<And>j. j < length rows \<Longrightarrow> ws ! (rows ! j) =
       (rb_rows b ! (rows ! j))\<lparr>ring := (ring (rb_rows b ! (rows ! j)))[pos ! j := slots ! j]\<rparr>"
    unfolding ws_def using fold_write_nth [OF assms(1) lens(1) assms(3) lens(2)] by blast+
  have w: "write_buffers pos rows slots b = (b\<lparr>rb_rows := ws\<rparr>, None)"
    using assms(2) by (simp add: write_buffers_def ws_def)
  have ir: "\<forall>r \<in> set rows. in_range (b\<lparr>rb_rows := ws\<rparr>) r"
    using assms(2) ws(1) by (simp add: in_range_def)
  obtain b' where b': "increment_steps rows rh (b\<lparr>rb_rows := ws\<rparr>) = (b', None)"
    "b' = b\<lparr>rb_rows := map (\<lambda>i. if i \<in> set rows then (ws ! i)\<lparr>steps := steps (ws ! i) + 1,
          steps_host := host_bump (steps_host_fastpath b \<and> rh \<noteq> None) (steps_host (ws ! i))\<rparr>
        else ws ! i) [0..<length ws],
      steps_host_ok := (steps_host_ok b \<and> (\<not> steps_host_fastpath b \<or> rh \<noteq> None))\<rparr>"
    using increment_result [OF assms(1) False ir assms(4)] by simp
  have rec: "record_batch rows slots rh b = (b', None)"
    using p w b'(1) by (simp add: record_batch_def act_then_def)
  show thesis
  proof (rule that [OF rec])
    fix j assume j: "j < length rows"
    then have r: "rows ! j \<in> set rows" "rows ! j < length (rb_rows b)"
      using lens(2) by auto
    then show "rb_rows b' ! (rows ! j) = (row_push (window_size b) (slots ! j) (rb_rows b ! (rows ! j)))
         \<lparr>steps_host := host_bump (steps_host_fastpath b \<and> rh \<noteq> None) (steps_host (rb_rows b ! (rows ! j)))\<rparr>"
      using ws(3) [OF j] j by (simp add: b'(2) ws(1) row_push_def host_bump_def pos_def)
  qed (use False ws in \<open>simp_all add: b'(2)\<close>)
qed

section \<open>Reachable buffers\<close>

text \<open>
  One call of the class as its clients make it: job parameters are written to a row that holds no
  valid job (it was cleared when it was allocated), a batch records distinct rows.
\<close>

inductive rb_step :: "ring_buffers \<Rightarrow> ring_buffers \<Rightarrow> bool" where
  clear: "rb_step b (fst (clear_row r b))"
| clears: "rb_step b (fst (clear_rows rs b))"
| nonce: "rb_step b (fst (write_admission_nonce r n b))"
| job: "p = None \<or> \<not> pow_valid (rb_rows b ! r) \<Longrightarrow> rb_step b (fst (write_pow_params r p b))"
| batch: "distinct rows \<Longrightarrow> \<forall>r \<in> set rows. in_range b r \<Longrightarrow> length slots = length rows \<Longrightarrow>
    list_all slot_ok slots \<Longrightarrow> rh = None \<or> rh = Some rows \<Longrightarrow>
    rb_step b (fst (record_batch rows slots rh b))"

inductive rb_reach :: "nat \<Rightarrow> nat \<Rightarrow> bool \<Rightarrow> ring_buffers \<Rightarrow> bool" for W n fp where
  init: "rb_reach W n fp (rb_init W n fp)"
| step: "rb_reach W n fp b \<Longrightarrow> rb_step b b' \<Longrightarrow> rb_reach W n fp b'"

lemma row_push_ok:
  assumes "row_ok W w" "slot_ok s"
  shows "row_ok W ((row_push W s w)\<lparr>steps_host := k\<rparr>)"
proof -
  have "list_all slot_ok ((ring w)[i := s])" for i
    using assms by (auto simp: row_ok_def list_all_iff dest!: set_update_subset_insert [THEN subsetD])
  with assms show ?thesis
    by (simp add: row_ok_def row_push_def)
qed

lemma record_batch_ok:
  assumes ok: "rb_ok b" and d: "distinct rows" "\<forall>r \<in> set rows. in_range b r" "length slots = length rows"
    and s: "list_all slot_ok slots" and rh: "rh = None \<or> rh = Some rows"
  shows "rb_ok (fst (record_batch rows slots rh b))"
proof -
  obtain b' where b': "record_batch rows slots rh b = (b', None)"
    "window_size b' = window_size b" "length (rb_rows b') = length (rb_rows b)"
    "steps_host_fastpath b' = steps_host_fastpath b"
    "steps_host_ok b' = (steps_host_ok b \<and> (rows = [] \<or> \<not> steps_host_fastpath b \<or> rh \<noteq> None))"
    "\<And>i. i < length (rb_rows b) \<Longrightarrow> i \<notin> set rows \<Longrightarrow> rb_rows b' ! i = rb_rows b ! i"
    "\<And>j. j < length rows \<Longrightarrow> rb_rows b' ! (rows ! j) =
       (row_push (window_size b) (slots ! j) (rb_rows b ! (rows ! j)))
         \<lparr>steps_host := host_bump (steps_host_fastpath b \<and> rh \<noteq> None) (steps_host (rb_rows b ! (rows ! j)))\<rparr>"
    using record_batch_result [OF d rh] that by metis
  have rows: "row_ok (window_size b) (rb_rows b' ! i) \<and>
      (steps_host_ok b' \<longrightarrow> steps_host (rb_rows b' ! i) = steps (rb_rows b' ! i))"
    if i: "i < length (rb_rows b)" for i
  proof -
    have old: "row_ok (window_size b) (rb_rows b ! i)"
      "steps_host_ok b \<longrightarrow> steps_host_fastpath b \<and> steps_host (rb_rows b ! i) = steps (rb_rows b ! i)"
      using ok i by (auto simp: rb_ok_def list_all_length)
    show ?thesis
    proof (cases "i \<in> set rows")
      case False
      with b'(5,6) i old show ?thesis by simp
    next
      case True
      then obtain j where j: "j < length rows" "rows ! j = i"
        by (auto simp: in_set_conv_nth)
      then have "slot_ok (slots ! j)"
        using s d(3) by (simp add: list_all_length)
      then have "row_ok (window_size b) (rb_rows b' ! i)"
        using b'(7) [OF j(1)] j(2) old(1) by (simp add: row_push_ok)
      moreover have "steps_host_ok b' \<longrightarrow> steps_host (rb_rows b' ! i) = steps (rb_rows b' ! i)"
        using b'(5) b'(7) [OF j(1)] j(2) old(2) True
        by (cases "rows = []") (auto simp: host_bump_def row_push_def)
      ultimately show ?thesis by simp
    qed
  qed
  from ok have "steps_host_ok b \<longrightarrow> steps_host_fastpath b"
    by (simp add: rb_ok_def)
  with rows show ?thesis
    by (simp add: b'(1-5) rb_ok_def list_all_length)
qed

lemma rb_step_ok: "rb_step b b' \<Longrightarrow> rb_ok b \<Longrightarrow> rb_ok b'"
  by (induction rule: rb_step.induct)
    (auto simp: clear_row_ok clear_rows_ok write_admission_ok write_pow_params_ok record_batch_ok)

lemma rb_reach_ok: "rb_reach W n fp b \<Longrightarrow> rb_ok b"
  by (induction rule: rb_reach.induct) (auto simp: rb_ok_init rb_step_ok)

section \<open>The window is the recent history\<close>

definition row_window :: "nat \<Rightarrow> rb_row \<Rightarrow> slot list" where
  "row_window W w = map (\<lambda>i. ring w ! ((i + steps w mod W) mod W)) [0..<W]"

lemma row_window_push:
  assumes "length (ring w) = Suc k"
  shows "row_window (Suc k) (row_push (Suc k) s w) = tl (row_window (Suc k) w) @ [s]"
proof (rule nth_equalityI)
  fix i assume "i < length (row_window (Suc k) (row_push (Suc k) s w))"
  then have i: "i < Suc k" by (simp add: row_window_def)
  have m: "(i + Suc (steps w) mod Suc k) mod Suc k = (Suc i + steps w mod Suc k) mod Suc k"
    using mod_add_right_eq [of i "Suc (steps w)" "Suc k"] mod_add_right_eq [of "Suc i" "steps w" "Suc k"]
    by simp
  show "row_window (Suc k) (row_push (Suc k) s w) ! i = (tl (row_window (Suc k) w) @ [s]) ! i"
  proof (cases "i = k")
    case True
    have "Suc (k + steps w) mod Suc k = steps w mod Suc k"
      using mod_add_self1 [of "Suc k" "steps w"] by simp
    with True show ?thesis
      using assms by (simp add: row_window_def row_push_def m nth_append mod_simps)
  next
    case False
    with i have lt: "i < k" by simp
    have "(Suc i + steps w mod Suc k) mod Suc k \<noteq> steps w mod Suc k"
    proof
      assume e: "(Suc i + steps w mod Suc k) mod Suc k = steps w mod Suc k"
      define q where "q = steps w mod Suc k"
      have q: "q < Suc k" by (simp add: q_def)
      show False
        using e q lt unfolding q_def [symmetric] by (auto simp: mod_if split: if_splits)
    qed
    then show ?thesis
      using lt assms by (simp add: row_window_def row_push_def m nth_append nth_tl del: upt_Suc)
  qed
qed (simp add: row_window_def)

interpretation rw: sliding_window "\<lambda>w. length (ring w) = Suc k" "row_push (Suc k)" "row_window (Suc k)" "Suc k"
  for k
  by unfold_locales (simp_all add: row_window_push, simp add: row_push_def)

lemma row_window_blank: "row_window W (blank_row W) = left_pad W blank_slot []"
  by (intro nth_equalityI) (simp_all add: row_window_def blank_row_def left_pad_def)

text \<open>A run of batches, and what it writes to one row.\<close>

type_synonym batch = "nat list \<times> slot list \<times> nat list option"

definition record_run :: "batch list \<Rightarrow> ring_buffers \<Rightarrow> ring_buffers" where
  "record_run bs b = fold (\<lambda>(rows, slots, rh) b. fst (record_batch rows slots rh b)) bs b"

definition written :: "nat \<Rightarrow> batch list \<Rightarrow> slot list" where
  "written r bs = concat (map (\<lambda>(rows, slots, rh). map snd (filter (\<lambda>(r', s). r' = r) (zip rows slots))) bs)"

definition batch_ok :: "nat \<Rightarrow> batch \<Rightarrow> bool" where
  "batch_ok n = (\<lambda>(rows, slots, rh). distinct rows \<and> list_all (\<lambda>r. r < n) rows \<and>
     length slots = length rows \<and> (rh = None \<or> rh = Some rows))"

lemma filter_zip_absent:
  "r \<notin> set rows \<Longrightarrow> map snd (filter (\<lambda>(r', s). r' = r) (zip rows slots)) = []"
  by (auto simp: filter_empty_conv dest: set_zip_leftD)

lemma filter_zip_distinct:
  assumes "distinct rows" "length slots = length rows" "j < length rows"
  shows "map snd (filter (\<lambda>(r', s). r' = rows ! j) (zip rows slots)) = [slots ! j]"
  using assms
proof (induction rows arbitrary: slots j)
  case Nil
  then show ?case by simp
next
  case (Cons r rows)
  obtain s ss where slots: "slots = s # ss" using Cons.prems by (cases slots) auto
  show ?case
  proof (cases j)
    case 0
    then show ?thesis using Cons.prems filter_zip_absent [of r rows ss] by (simp add: slots)
  next
    case (Suc i)
    then have "rows ! i \<in> set rows" using Cons.prems by simp
    then have "r \<noteq> rows ! i" using Cons.prems by auto
    then show ?thesis using Cons Suc by (simp add: slots)
  qed
qed

lemma record_batch_row:
  assumes "batch_ok (length (rb_rows b)) (rows, slots, rh)" "r < length (rb_rows b)"
  shows "window_size (fst (record_batch rows slots rh b)) = window_size b"
    "length (rb_rows (fst (record_batch rows slots rh b))) = length (rb_rows b)"
    "\<exists>k. rb_rows (fst (record_batch rows slots rh b)) ! r =
       (fold (row_push (window_size b)) (written r [(rows, slots, rh)]) (rb_rows b ! r))\<lparr>steps_host := k\<rparr>"
proof -
  have d: "distinct rows" "\<forall>r \<in> set rows. in_range b r" "length slots = length rows" "rh = None \<or> rh = Some rows"
    using assms(1) by (auto simp: batch_ok_def in_range_def list_all_iff)
  obtain b' where b': "record_batch rows slots rh b = (b', None)"
    "window_size b' = window_size b" "length (rb_rows b') = length (rb_rows b)"
    "\<And>i. i < length (rb_rows b) \<Longrightarrow> i \<notin> set rows \<Longrightarrow> rb_rows b' ! i = rb_rows b ! i"
    "\<And>j. j < length rows \<Longrightarrow> rb_rows b' ! (rows ! j) =
       (row_push (window_size b) (slots ! j) (rb_rows b ! (rows ! j)))
         \<lparr>steps_host := host_bump (steps_host_fastpath b \<and> rh \<noteq> None) (steps_host (rb_rows b ! (rows ! j)))\<rparr>"
    using record_batch_result [OF d] that by metis
  show "window_size (fst (record_batch rows slots rh b)) = window_size b"
    "length (rb_rows (fst (record_batch rows slots rh b))) = length (rb_rows b)"
    by (simp_all add: b'(1-3))
  show "\<exists>k. rb_rows (fst (record_batch rows slots rh b)) ! r =
       (fold (row_push (window_size b)) (written r [(rows, slots, rh)]) (rb_rows b ! r))\<lparr>steps_host := k\<rparr>"
  proof (cases "r \<in> set rows")
    case True
    then obtain j where "j < length rows" "rows ! j = r"
      by (auto simp: in_set_conv_nth)
    with b'(5) [of j] filter_zip_distinct [OF d(1,3), of j] show ?thesis
      by (auto simp: b'(1) written_def)
  next
    case False
    with b'(4) [of r] assms(2) filter_zip_absent [of r rows slots] show ?thesis
      by (auto simp: b'(1) written_def intro: exI [of _ "steps_host (rb_rows b ! r)"])
  qed
qed

lemma push_host: "row_push W s (w\<lparr>steps_host := k\<rparr>) = (row_push W s w)\<lparr>steps_host := k\<rparr>"
  by (simp add: row_push_def)

lemma pushes_host: "fold (row_push W) ss (w\<lparr>steps_host := k\<rparr>) = (fold (row_push W) ss w)\<lparr>steps_host := k\<rparr>"
  by (induction ss arbitrary: w) (simp_all add: push_host)

lemma record_run_row:
  assumes "list_all (batch_ok (length (rb_rows b))) bs" "r < length (rb_rows b)"
  shows "window_size (record_run bs b) = window_size b \<and> length (rb_rows (record_run bs b)) = length (rb_rows b) \<and>
    (\<exists>k. rb_rows (record_run bs b) ! r =
       (fold (row_push (window_size b)) (written r bs) (rb_rows b ! r))\<lparr>steps_host := k\<rparr>)"
  using assms
proof (induction bs arbitrary: b)
  case Nil
  then show ?case by (auto simp: record_run_def written_def intro: exI [of _ "steps_host (rb_rows b ! r)"])
next
  case (Cons bt bs)
  obtain rows slots rh where bt: "bt = (rows, slots, rh)" by (cases bt)
  let ?b = "fst (record_batch rows slots rh b)"
  have row: "window_size ?b = window_size b" "length (rb_rows ?b) = length (rb_rows b)"
    "\<exists>k. rb_rows ?b ! r = (fold (row_push (window_size b)) (written r [bt]) (rb_rows b ! r))\<lparr>steps_host := k\<rparr>"
    using record_batch_row [of b rows slots rh r] Cons.prems by (simp_all add: bt)
  have w: "written r (bt # bs) = written r [bt] @ written r bs"
    by (simp add: written_def)
  have "record_run (bt # bs) b = record_run bs ?b"
    by (simp add: record_run_def bt)
  with Cons.IH [of ?b] Cons.prems row w show ?case
    by (auto simp: pushes_host)
qed

lemma rb_dims: "rb_reach W n fp b \<Longrightarrow> window_size b = W \<and> length (rb_rows b) = n"
proof (induction rule: rb_reach.induct)
  case init
  then show ?case by (simp add: rb_init_def)
next
  case (step b b')
  have on: "window_size (fst (on_row r f c)) = window_size c \<and> length (rb_rows (fst (on_row r f c))) = length (rb_rows c)"
    for r f c by (simp add: on_row_frame)
  have clr: "window_size (fst (clear_row r c)) = window_size c \<and> length (rb_rows (fst (clear_row r c))) = length (rb_rows c)"
    for r c by (cases r) (simp_all add: clear_row_def on)
  from step(2,3) show ?case
  proof (induction rule: rb_step.induct)
    case (clears b rs)
    then show ?case
      using clear_rows_rows [of rs b] by (cases "\<forall>r \<in> set rs. in_range b r") (auto simp: clear_rows_def)
  next
    case (nonce b r m)
    then show ?case by (auto simp: write_admission_nonce_def on split: option.split)
  next
    case (job p b r)
    then show ?case by (simp add: write_pow_params_def on)
  next
    case (batch rows b slots rh)
    show ?case
      using record_batch_result [OF batch(1,2,3,5)] batch(6) by (metis fst_conv)
  qed (simp add: clr)
qed

section \<open>Properties\<close>



text \<open>C11: \<^verbatim>\<open>clear_rows\<close> and \<^verbatim>\<open>clear_row\<close> agree and leave nothing behind: in a reachable state,
  clearing rows of the buffer raises nothing, equals clearing them one by one, turns each of them
  into a blank row and does not touch the others.\<close>

theorem clearing_leaves_blank_rows:
  assumes "rb_reach W n fp b" "\<forall>r \<in> set rs. r < n"
  shows "clear_rows rs b = (fold (\<lambda>r b. fst (clear_row (Some r) b)) rs b, None) \<and>
    (\<forall>i < n. rb_rows (fst (clear_rows rs b)) ! i = (if i \<in> set rs then blank_row W else rb_rows b ! i))"
proof -
  note dims = rb_dims [OF assms(1)]
  have ir: "\<forall>r \<in> set rs. in_range b r"
    using assms(2) dims by (simp add: in_range_def)
  have "zero_row (rb_rows b ! i) = blank_row W" if "i < n" for i
    using rb_reach_ok [OF assms(1)] dims that by (auto simp: rb_ok_def list_all_length intro: zero_row_blank)
  then show ?thesis
    using dims by (simp add: clear_rows_rows [OF ir] clear_rows_eq_fold [OF ir, symmetric])
qed

theorem clearing_leaves_blank_rows_witness:
  "clear_rows [1, 0] (rb_init 4 2 True) = (fold (\<lambda>r b. fst (clear_row (Some r) b)) [1, 0] (rb_init 4 2 True), None) \<and>
    rb_rows (fst (clear_rows [1, 0] (rb_init 4 2 True))) ! 1 = blank_row 4"
  using clearing_leaves_blank_rows [OF rb_reach.init, of "[1, 0]" 2 4 True] by (auto simp del: fold.simps)

text \<open>C20: the window of a recycled row is the recent history of its new owner: after the row is
  cleared, whatever batches of distinct rows are recorded, \<^verbatim>\<open>get_window\<close> returns exactly the last
  \<open>W\<close> slots written to that row, oldest first, padded with blank slots.\<close>

theorem window_is_recent_history:
  assumes "rb_reach (Suc k) n fp b" "r < n" "list_all (batch_ok n) bs"
  shows "get_window (record_run bs (fst (clear_row (Some r) b))) r =
    Inr (left_pad (Suc k) blank_slot (written r bs))"
proof -
  let ?c = "fst (clear_row (Some r) b)"
  note dims = rb_dims [OF assms(1)]
  have c: "window_size ?c = Suc k" "length (rb_rows ?c) = n" "rb_rows ?c ! r = zero_row (rb_rows b ! r)"
    using dims assms(2) by (simp_all add: clear_row_def on_row_frame)
  have "row_ok (Suc k) (rb_rows b ! r)"
    using rb_reach_ok [OF assms(1)] dims assms(2) by (simp add: rb_ok_def list_all_length)
  then have blank: "rb_rows ?c ! r = blank_row (Suc k)"
    using c(3) by (simp add: zero_row_blank)
  obtain h where h: "window_size (record_run bs ?c) = Suc k" "length (rb_rows (record_run bs ?c)) = n"
    "rb_rows (record_run bs ?c) ! r = (fold (row_push (Suc k)) (written r bs) (blank_row (Suc k)))\<lparr>steps_host := h\<rparr>"
    using record_run_row [of ?c bs r] assms(2,3) c blank by auto
  have w: "row_window W (w\<lparr>steps_host := h\<rparr>) = row_window W w" for W w
    by (simp add: row_window_def)
  have "get_window (record_run bs ?c) r = Inr (row_window (Suc k) (rb_rows (record_run bs ?c) ! r))"
    using h(1,2) assms(2) by (simp add: get_window_def in_range_def row_window_def Let_def comp_def del: upt_Suc)
  also have "\<dots> = Inr (left_pad (Suc k) blank_slot ([] @ written r bs))"
    unfolding h(3) w
    using rw.window_pushes [of "blank_row (Suc k)" k blank_slot "[]" "written r bs"] row_window_blank [of "Suc k"]
    by (simp add: blank_row_def)
  finally show ?thesis by simp
qed

theorem window_is_recent_history_witness:
  "get_window (record_run [([1, 0], [blank_slot\<lparr>chosen_token := 7\<rparr>, blank_slot], None)]
     (fst (clear_row (Some 1) (rb_init (Suc 3) 2 False)))) 1 =
   Inr (left_pad (Suc 3) blank_slot (written 1 [([1, 0], [blank_slot\<lparr>chosen_token := 7\<rparr>, blank_slot], None)]))"
  by (rule window_is_recent_history [OF rb_reach.init]) (simp_all add: batch_ok_def)

end
