(* ===== verification/PowHasher.thy ===== *)
theory PowHasher
  imports PowV3 RingBuffers
begin

text \<open>
  \<^verbatim>\<open>PowHasher\<close> of \<^verbatim>\<open>pow_utils.py\<close> with the helpers it hashes with: the job parameters shared by
  all requests, the draw of a batch of tokens from the digests of their step messages, and the two
  checks of a digest against the block and the share target.  \<^verbatim>\<open>sha256_many\<close> stands for the path
  independent digests of theory \<open>Sha256\<close>.  Tensors of one row per sequence are lists of rows.
\<close>

section \<open>Helpers\<close>

text \<open>\<^verbatim>\<open>_tok_le_bytes\<close> on one row of an int64 tensor, \<^verbatim>\<open>_str_bytes\<close> and \<^verbatim>\<open>_build_msg\<close> on one row.\<close>

definition tok_le_bytes :: "int list \<Rightarrow> byte list" where
  "tok_le_bytes row = concat (map (le_bytes 8) row)"

definition build_msg ::
    "byte list \<Rightarrow> byte list \<Rightarrow> byte list \<Rightarrow> byte list \<Rightarrow> byte list \<Rightarrow> byte list \<Rightarrow> byte list option \<Rightarrow> byte list" where
  "build_msg header_data v T8 j4 ctx_bytes precision nonce =
     concat ([header_data, v, T8, j4, ctx_bytes, precision] @
       (case nonce of None \<Rightarrow> [] | Some n \<Rightarrow> [n]))"

text \<open>
  A float32 whose value is a natural number: 24 significant bits, rounded to nearest, ties to even.
\<close>

definition f32_round :: "int \<Rightarrow> int" where
  "f32_round n =
     (let b = bit_length n
      in if b \<le> 24 then n
         else (let s = b - 24; q = n div 2 ^ s; r = n mod 2 ^ s; half = 2 ^ (s - 1)
               in if r > half \<or> r = half \<and> odd q then (q + 1) * 2 ^ s else q * 2 ^ s))"

text \<open>\<^verbatim>\<open>_digest_to_u\<close>: every product and every sum is a float32 operation.\<close>

definition digest_to_u :: "byte list \<Rightarrow> f64" where
  "digest_to_u digest =
     (let b0 = uint (digest ! 0); b1 = uint (digest ! 1); b2 = uint (digest ! 2); b3 = uint (digest ! 3);
          s1 = f32_round (b0 + f32_round (b1 * 256));
          s2 = f32_round (s1 + f32_round (b2 * 65536));
          s3 = f32_round (s2 + f32_round (b3 * 16777216))
      in Fin s3 (- 32))"

text \<open>
  \<^verbatim>\<open>torch.searchsorted(cdf, u)\<close> on a non-decreasing row: the number of entries below \<open>u\<close>; then
  \<^verbatim>\<open>_clamp_token_ids\<close>.
\<close>

definition searchsorted :: "f64 list \<Rightarrow> f64 \<Rightarrow> nat" where
  "searchsorted cdf u = length (takeWhile (\<lambda>c. f64_lt c u) cdf)"

definition clamp_token_id :: "nat \<Rightarrow> nat \<Rightarrow> nat" where
  "clamp_token_id token vocab_size = (if vocab_size = 0 then token else min token (vocab_size - 1))"

section \<open>State\<close>

record pow_hasher =
  ph_h_b :: "byte list"
  ph_vdf :: "byte list"
  ph_target :: "byte list"
  ph_share_target :: "byte list option"
  ph_tick :: int
  ph_ipfs_cid :: "string option"
  ph_header_prefix :: "byte list option"
  ph_request_id :: "int option"
  ph_difficulty :: "int option"
  ph_prior_hb :: string
  ph_prior_vdf :: string
  ph_prior_target :: string
  ph_prior_share_target :: string
  ph_prior_header :: string
  ph_prior_precision :: string
  ph_precision_bytes :: "byte list option"

definition hasher_init :: pow_hasher where
  "hasher_init = \<lparr>ph_h_b = replicate 32 0, ph_vdf = replicate 32 0, ph_target = replicate 31 0 @ [0xFF],
     ph_share_target = None, ph_tick = 0, ph_ipfs_cid = None, ph_header_prefix = None, ph_request_id = None,
     ph_difficulty = None, ph_prior_hb = [], ph_prior_vdf = [], ph_prior_target = [], ph_prior_share_target = [],
     ph_prior_header = [], ph_prior_precision = [], ph_precision_bytes = None\<rparr>"

text \<open>
  The payload of a request.  Keys read with \<^verbatim>\<open>[...]\<close> are options (KeyError when missing);
  \<^verbatim>\<open>payload.get("share_target") or ""\<close> is a string.
\<close>

record payload =
  pl_block_hash :: "string option"
  pl_vdf :: "string option"
  pl_tick :: "int option"
  pl_request_id :: "int option"
  pl_target :: "string option"
  pl_share_target :: string
  pl_difficulty :: "int option"
  pl_header_prefix :: "string option"
  pl_ipfs_cid :: "string option"

definition key :: "'a option \<Rightarrow> 'a res" where
  "key x = (case x of None \<Rightarrow> Inl KeyError | Some v \<Rightarrow> Inr v)"

section \<open>Updating the shared parameters\<close>

definition update_block_hash :: "payload \<Rightarrow> pow_hasher act" where
  "update_block_hash p = act_let (key (pl_block_hash p)) (\<lambda>hb s.
     if ph_prior_hb s \<noteq> hb
     then act_let (hex_to_bytes_tensor hb) (\<lambda>bs. act_pure (\<lambda>s. s\<lparr>ph_h_b := bs, ph_prior_hb := hb\<rparr>)) s
     else (s, None))"

definition update_vdf :: "payload \<Rightarrow> pow_hasher act" where
  "update_vdf p = act_let (key (pl_vdf p)) (\<lambda>v s.
     if ph_prior_vdf s \<noteq> v
     then act_let (hex_to_bytes_tensor v) (\<lambda>bs. act_pure (\<lambda>s. s\<lparr>ph_vdf := bs, ph_prior_vdf := v\<rparr>)) s
     else (s, None))"

definition update_target :: "payload \<Rightarrow> pow_hasher act" where
  "update_target p = act_let (key (pl_target p)) (\<lambda>t s.
     if ph_prior_target s \<noteq> t
     then act_let (hex_to_bytes_tensor (norm64 t))
            (\<lambda>bs. act_pure (\<lambda>s. s\<lparr>ph_target := bs, ph_prior_target := norm64 t\<rparr>)) s
     else (s, None))"

definition update_share_target :: "payload \<Rightarrow> pow_hasher act" where
  "update_share_target p s =
     (let t = (if pl_share_target p \<noteq> [] then norm64 (pl_share_target p) else pl_share_target p)
      in if t \<noteq> ph_prior_share_target s
         then (if t = [] then (s\<lparr>ph_share_target := None, ph_prior_share_target := t\<rparr>, None)
               else act_let (hex_to_bytes_tensor t)
                      (\<lambda>bs. act_pure (\<lambda>s. s\<lparr>ph_share_target := Some bs, ph_prior_share_target := t\<rparr>)) s)
         else (s, None))"

definition update_header :: "payload \<Rightarrow> pow_hasher act" where
  "update_header p = act_let (key (pl_header_prefix p)) (\<lambda>h s.
     if ph_prior_header s \<noteq> h
     then act_let (hex_to_bytes_tensor h) (\<lambda>bs. act_pure (\<lambda>s. s\<lparr>ph_header_prefix := Some bs, ph_prior_header := h\<rparr>)) s
     else (s, None))"

definition update_tick :: "payload \<Rightarrow> pow_hasher act" where
  "update_tick p = act_let (key (pl_tick p)) (\<lambda>t. act_pure (\<lambda>s. s\<lparr>ph_tick := t\<rparr>))"

definition update_request_id :: "payload \<Rightarrow> pow_hasher act" where
  "update_request_id p = act_let (key (pl_request_id p)) (\<lambda>r. act_pure (\<lambda>s. s\<lparr>ph_request_id := Some r\<rparr>))"

definition update_difficulty :: "payload \<Rightarrow> pow_hasher act" where
  "update_difficulty p = act_let (key (pl_difficulty p)) (\<lambda>d. act_pure (\<lambda>s. s\<lparr>ph_difficulty := Some d\<rparr>))"

definition update_ipfs_cid :: "payload \<Rightarrow> pow_hasher act" where
  "update_ipfs_cid p = act_pure (\<lambda>s. case pl_ipfs_cid p of None \<Rightarrow> s | Some c \<Rightarrow> s\<lparr>ph_ipfs_cid := Some c\<rparr>)"

definition update_from_payload :: "payload \<Rightarrow> pow_hasher act" where
  "update_from_payload p =
     act_then (update_block_hash p)
     (act_then (update_vdf p)
     (act_then (update_tick p)
     (act_then (update_request_id p)
     (act_then (update_target p)
     (act_then (update_share_target p)
     (act_then (update_difficulty p)
     (act_then (update_header p) (update_ipfs_cid p))))))))"

section \<open>Drawing tokens\<close>

text \<open>The precision bytes are encoded once per precision string.\<close>

definition refresh_precision :: "string \<Rightarrow> pow_hasher \<Rightarrow> pow_hasher" where
  "refresh_precision prec s =
     (if prec \<noteq> ph_prior_precision s then s\<lparr>ph_precision_bytes := Some (utf8 prec), ph_prior_precision := prec\<rparr> else s)"

definition the_precision :: "pow_hasher \<Rightarrow> byte list res" where
  "the_precision s = (case ph_precision_bytes s of None \<Rightarrow> Inl AttributeError | Some pb \<Rightarrow> Inr pb)"

text \<open>One drawn row: token, \<^verbatim>\<open>u\<close> and digest.\<close>

definition draw :: "f64 list \<Rightarrow> byte list \<Rightarrow> nat \<times> f64 \<times> byte list" where
  "draw cdf digest = (let u = digest_to_u digest
     in (clamp_token_id (searchsorted cdf u) (length cdf), u, digest))"

text \<open>
  The path that reads the job parameters of each row from the ring buffers.  \<open>lens\<close> holds header
  and VDF width and the admission flag of every row, from the host mirrors when the rows are known
  on the host and from the device tensors otherwise.
\<close>

definition row_widths :: "ring_buffers \<Rightarrow> nat list \<Rightarrow> nat list option \<Rightarrow> nat \<Rightarrow> (nat \<times> nat \<times> bool) list res" where
  "row_widths b rows rows_host B =
     (case rows_host of
        Some rh \<Rightarrow>
          if length rh \<noteq> B then Inl ValueError
          else mapr (\<lambda>r. if in_range b r
                then Inr (pow_header_len_host (rb_rows b ! r), pow_vdf_len_host (rb_rows b ! r),
                          pow_admission_valid_host (rb_rows b ! r))
                else Inl IndexError) rh
      | None \<Rightarrow> Inr (map (\<lambda>r. (pow_header_len (rb_rows b ! r), pow_vdf_len (rb_rows b ! r),
                              pow_admission_valid (rb_rows b ! r))) rows))"

definition row_message ::
    "ring_buffers \<Rightarrow> nat \<Rightarrow> nat \<Rightarrow> nat \<Rightarrow> bool \<Rightarrow> byte list \<Rightarrow> int list \<Rightarrow> int \<Rightarrow> byte list" where
  "row_message b r hlen vlen adm pb ctx step =
     (let w = rb_rows b ! r
      in build_msg (take hlen (pow_header w)) (take vlen (pow_vdf w)) (u32le (pow_tick w)) (u32le step)
           (tok_le_bytes ctx) pb (if adm then Some (pow_admission_nonce w) else None))"

definition same_widths :: "(nat \<times> nat \<times> bool) list \<Rightarrow> bool" where
  "same_widths ws = (case ws of [] \<Rightarrow> True | w # _ \<Rightarrow> list_all (\<lambda>w'. w' = w) ws)"

text \<open>One hash call for the batch when all rows have the same widths, one call per row otherwise.\<close>

definition fast_draws ::
    "ring_buffers \<Rightarrow> nat list \<Rightarrow> nat \<times> nat \<times> bool \<Rightarrow> byte list \<Rightarrow> int list list \<Rightarrow> int list \<Rightarrow>
     f64 list list \<Rightarrow> (nat \<times> f64 \<times> byte list) list" where
  "fast_draws b rows w pb contexts step_ids cdfs =
     (case w of (hlen, vlen, adm) \<Rightarrow>
       (let msg = map (\<lambda>i. row_message b (rows ! i) hlen vlen adm pb (contexts ! i) (step_ids ! i))
                    [0..<length contexts]
        in map2 draw cdfs (sha256_many_cpu msg)))"

definition mixed_draws ::
    "ring_buffers \<Rightarrow> nat list \<Rightarrow> (nat \<times> nat \<times> bool) list \<Rightarrow> byte list \<Rightarrow> int list list \<Rightarrow> int list \<Rightarrow>
     f64 list list \<Rightarrow> (nat \<times> f64 \<times> byte list) list" where
  "mixed_draws b rows ws pb contexts step_ids cdfs =
     concat (map (\<lambda>i. case ws ! i of (hlen, vlen, adm) \<Rightarrow>
       (let msg_i = [row_message b (rows ! i) hlen vlen adm pb (contexts ! i) (step_ids ! i)]
        in map2 draw [cdfs ! i] (sha256_many_cpu msg_i))) [0..<length contexts])"

text \<open>
  An empty batch is an error: \<^verbatim>\<open>host_lengths[0]\<close> on the host path, \<^verbatim>\<open>torch.cat([])\<close> on the other.
\<close>

definition batch_sample_rows ::
    "ring_buffers \<Rightarrow> nat list \<Rightarrow> nat list option \<Rightarrow> int list list \<Rightarrow> int list \<Rightarrow> f64 list list \<Rightarrow> string \<Rightarrow>
     pow_hasher \<Rightarrow> pow_hasher \<times> (nat \<times> f64 \<times> byte list) list res" where
  "batch_sample_rows b rows rows_host contexts step_ids cdfs prec s =
     (if \<exists>r \<in> set rows. \<not> in_range b r then (s, Inl IndexError)
      else case row_widths b rows rows_host (length contexts) of
        Inl e \<Rightarrow> (s, Inl e)
      | Inr ws \<Rightarrow>
          (let s = refresh_precision prec s
           in (s, if ws = [] then Inl (if rows_host = None then RuntimeError else IndexError)
                  else rbind (the_precision s) (\<lambda>pb.
                    Inr (if same_widths ws then fast_draws b rows (hd ws) pb contexts step_ids cdfs
                         else mixed_draws b rows ws pb contexts step_ids cdfs)))))"

text \<open>\<^verbatim>\<open>torch.tensor([tick], dtype=torch.uint32)\<close> refuses values of more than 32 bits.\<close>

definition tick_bytes :: "int \<Rightarrow> byte list res" where
  "tick_bytes t = (if \<bar>t\<bar> < 2 ^ 32 then Inr (u32le t) else Inl RuntimeError)"

text \<open>
  The legacy path: one snapshot, or the shared parameters, for the whole batch.  A snapshot may hold
  already decoded tensors.
\<close>

record legacy_snapshot = pow_snapshot +
  header_tensor :: "byte list option"
  vdf_tensor :: "byte list option"
  block_hash_tensor :: "byte list option"

definition shared_header :: "pow_hasher \<Rightarrow> byte list" where
  "shared_header s = (case ph_header_prefix s of Some h \<Rightarrow> h | None \<Rightarrow> ph_h_b s)"

definition legacy_params :: "legacy_snapshot option \<Rightarrow> pow_hasher \<Rightarrow> (int \<times> byte list \<times> byte list) res" where
  "legacy_params snap s = (case snap of
      None \<Rightarrow> Inr (ph_tick s, shared_header s, ph_vdf s)
    | Some p \<Rightarrow>
        rbind (key (ps_tick p)) (\<lambda>t.
        rbind (case header_tensor p of Some h \<Rightarrow> Inr (Some h)
               | None \<Rightarrow> if ps_header_prefix p \<noteq> []
                   then rbind (hex_to_bytes_tensor (ps_header_prefix p)) (\<lambda>h. Inr (Some h)) else Inr None) (\<lambda>h.
        rbind (case vdf_tensor p of Some v \<Rightarrow> Inr v | None \<Rightarrow> hex_to_bytes_tensor (ps_vdf p)) (\<lambda>v.
        rbind (case block_hash_tensor p of Some x \<Rightarrow> Inr x | None \<Rightarrow> hex_to_bytes_tensor (ps_block_hash p)) (\<lambda>bh.
          Inr (t, (case h of None \<Rightarrow> bh | Some x \<Rightarrow> if x = [] then bh else x), v))))))"

definition batch_sample_legacy ::
    "legacy_snapshot option \<Rightarrow> int list list \<Rightarrow> int list \<Rightarrow> f64 list list \<Rightarrow> string \<Rightarrow>
     pow_hasher \<Rightarrow> pow_hasher \<times> (nat \<times> f64 \<times> byte list) list res" where
  "batch_sample_legacy snap contexts step_ids cdfs prec s =
     (case rbind (legacy_params snap s) (\<lambda>(t, h, v). rbind (tick_bytes t) (\<lambda>T8. Inr (T8, h, v))) of
        Inl e \<Rightarrow> (s, Inl e)
      | Inr (T8, header_data, vdf_data) \<Rightarrow>
          (let s = refresh_precision prec s
           in (s, rbind (the_precision s) (\<lambda>pb.
                (let msg = map2 (\<lambda>ctx step. build_msg header_data vdf_data T8 (u32le step)
                             (tok_le_bytes ctx) pb None) contexts step_ids
                 in Inr (map2 draw cdfs (sha256_many_cpu msg)))))))"

definition batch_sample_tokens ::
    "(ring_buffers \<times> nat list) option \<Rightarrow> nat list option \<Rightarrow> legacy_snapshot option \<Rightarrow>
     int list list \<Rightarrow> int list \<Rightarrow> f64 list list \<Rightarrow> string \<Rightarrow>
     pow_hasher \<Rightarrow> pow_hasher \<times> (nat \<times> f64 \<times> byte list) list res" where
  "batch_sample_tokens buffers rows_host snap contexts step_ids cdfs prec =
     (case buffers of
        Some (b, rows) \<Rightarrow> batch_sample_rows b rows rows_host contexts step_ids cdfs prec
      | None \<Rightarrow> batch_sample_legacy snap contexts step_ids cdfs prec)"

text \<open>
  \<^verbatim>\<open>sample_token\<close>: the precision is encoded on first use only, from \<^verbatim>\<open>compute_precision\<close> (which
  no code sets, so \<^verbatim>\<open>'fp16'\<close>).
\<close>

definition sample_token ::
    "int list \<Rightarrow> int \<Rightarrow> f64 list \<Rightarrow> pow_hasher \<Rightarrow> pow_hasher \<times> (nat \<times> f64 \<times> byte list) res" where
  "sample_token context step cdf s =
     (case tick_bytes (ph_tick s) of
        Inl e \<Rightarrow> (s, Inl e)
      | Inr T8 \<Rightarrow>
          (let s' = (if ph_precision_bytes s = None then s\<lparr>ph_precision_bytes := Some (utf8 ''fp16'')\<rparr> else s);
               msg = build_msg (shared_header s') (ph_vdf s') T8 (u32le step) (tok_le_bytes context)
                       (the (ph_precision_bytes s')) None
           in (s', Inr (hd (map2 draw [cdf] (sha256_many_cpu [msg]))))))"

section \<open>Checking digests\<close>

text \<open>
  The block header: prefix and the first four digest bytes as nonce, hashed twice.  A target of
  fewer than 32 bytes is an IndexError in the comparison, which starts at byte 31.
\<close>

definition header_hashes :: "byte list \<Rightarrow> byte list list \<Rightarrow> byte list list" where
  "header_hashes header_data digest =
     sha256_many_cpu (sha256_many_cpu (map (\<lambda>d. header_data @ take 4 d) digest))"

definition against_target :: "byte list list \<Rightarrow> byte list \<Rightarrow> bool list res" where
  "against_target hashes t =
     (if length t < 32 then Inl IndexError else Inr (check_hash_against_target hashes t))"

definition snapshot_header :: "pow_snapshot \<Rightarrow> byte list res" where
  "snapshot_header p =
     rbind (if ps_header_prefix p \<noteq> [] then hex_to_bytes_tensor (ps_header_prefix p) else Inr []) (\<lambda>h.
       if h = [] then hex_to_bytes_tensor (ps_block_hash p) else Inr h)"

definition check_solution :: "pow_hasher \<Rightarrow> byte list list \<Rightarrow> pow_snapshot option \<Rightarrow> bool list res" where
  "check_solution s digest snap = (case snap of
      Some p \<Rightarrow>
        rbind (if ps_header_prefix p \<noteq> [] then hex_to_bytes_tensor (ps_header_prefix p) else Inr []) (\<lambda>h.
        rbind (hex_to_bytes_tensor (ps_target p)) (\<lambda>target_data.
        rbind (if h = [] then hex_to_bytes_tensor (ps_block_hash p) else Inr h) (\<lambda>header_data.
          against_target (header_hashes header_data digest) target_data)))
    | None \<Rightarrow> against_target (header_hashes (shared_header s) digest) (ph_target s))"

definition check_share_solution :: "pow_hasher \<Rightarrow> byte list list \<Rightarrow> pow_snapshot option \<Rightarrow> bool list res" where
  "check_share_solution s digest snap =
     rbind (case snap of
        Some p \<Rightarrow>
          rbind (snapshot_header p) (\<lambda>header_data.
            if ps_share_target p \<noteq> []
            then rbind (hex_to_bytes_tensor (norm64 (ps_share_target p))) (\<lambda>t. Inr (header_data, Some t))
            else Inr (header_data, ph_share_target s))
      | None \<Rightarrow> Inr (shared_header s, ph_share_target s))
     (\<lambda>(header_data, share). case share of
        None \<Rightarrow> Inr (map (\<lambda>_. False) digest)
      | Some t \<Rightarrow> against_target (header_hashes header_data digest) t)"

section \<open>The uniform draw\<close>

lemma f32_round_small: "0 \<le> n \<Longrightarrow> n < 2 ^ 24 \<Longrightarrow> f32_round n = n"
  using bit_length_le_iff [of n 24] by (simp add: f32_round_def)

text \<open>What rounding does to a natural number of more than 24 bits.\<close>

lemma f32_round_cases:
  assumes "0 \<le> n" "24 < bit_length n"
  obtains s q r where "s = bit_length n - 24" "0 < s" "n = q * 2 ^ s + r" "0 \<le> r" "r < 2 ^ s"
    "0 \<le> q" "q < 2 ^ 24"
    "f32_round n = (if r > 2 ^ (s - 1) \<or> r = 2 ^ (s - 1) \<and> odd q then (q + 1) * 2 ^ s else q * 2 ^ s)"
proof (rule that [of "bit_length n - 24" "n div 2 ^ (bit_length n - 24)" "n mod 2 ^ (bit_length n - 24)"])
  let ?s = "bit_length n - 24"
  have "0 < n"
    using assms bit_length_le_iff [of 0 24] by (cases "n = 0") auto
  then have "n < 2 ^ bit_length n"
    by (rule bit_length_bounds)
  also have "(2 :: int) ^ bit_length n = 2 ^ 24 * 2 ^ ?s"
    using assms(2) power_add [of "2 :: int" 24 "bit_length n - 24"] by simp
  finally have "n < 2 ^ 24 * 2 ^ ?s" .
  moreover have "2 ^ 24 * 2 ^ ?s \<le> n div 2 ^ ?s * 2 ^ ?s" if "2 ^ 24 \<le> n div 2 ^ ?s"
    using that by (intro mult_right_mono) simp_all
  ultimately show "n div 2 ^ ?s < 2 ^ 24"
    using int_div_bounds [of "2 ^ ?s" n] by (meson linorder_not_less order_le_less_trans order_less_irrefl zero_less_numeral zero_less_power)
  show "0 \<le> n div 2 ^ ?s"
    using assms(1) by (simp add: pos_imp_zdiv_nonneg_iff)
  show "n = n div 2 ^ ?s * 2 ^ ?s + n mod 2 ^ ?s"
    by (rule div_mult_mod_eq [symmetric])
  show "f32_round n = (if n mod 2 ^ ?s > 2 ^ (?s - 1) \<or> n mod 2 ^ ?s = 2 ^ (?s - 1) \<and> odd (n div 2 ^ ?s)
      then (n div 2 ^ ?s + 1) * 2 ^ ?s else n div 2 ^ ?s * 2 ^ ?s)"
    unfolding f32_round_def Let_def using assms(2) by (simp only: not_le [symmetric] if_False)
qed (use assms(2) in \<open>simp_all del: One_nat_def\<close>)

lemma f32_round_near:
  assumes "0 \<le> n" "n < 2 ^ 32"
  shows "\<bar>f32_round n - n\<bar> \<le> 128" "0 \<le> f32_round n" "f32_round n \<le> 2 ^ 32"
    "f32_round n = 2 ^ 32 \<longleftrightarrow> 0xFFFFFF80 \<le> n"
proof -
  have "\<bar>f32_round n - n\<bar> \<le> 128 \<and> 0 \<le> f32_round n \<and> f32_round n \<le> 2 ^ 32 \<and>
      (f32_round n = 2 ^ 32 \<longleftrightarrow> 0xFFFFFF80 \<le> n)"
  proof (cases "24 < bit_length n")
    case False
    then have "n < 2 ^ 24"
      using bit_length_le_iff [of n 24] assms(1) by simp
    then show ?thesis
      using assms(1) by (simp add: f32_round_small)
  next
    case True
    obtain s q r where c: "s = bit_length n - 24" "0 < s" "n = q * 2 ^ s + r" "0 \<le> r" "r < 2 ^ s"
      "0 \<le> q" "q < 2 ^ 24"
      "f32_round n = (if r > 2 ^ (s - 1) \<or> r = 2 ^ (s - 1) \<and> odd q then (q + 1) * 2 ^ s else q * 2 ^ s)"
      using f32_round_cases [OF assms(1) True] by metis
    have "bit_length n \<le> 32"
      using bit_length_le_iff [of n 32] assms by simp
    then have "s \<in> {1, 2, 3, 4, 5, 6, 7, 8}"
      using c(1,2) by auto
    then have cases: "s = 1 \<or> s = 2 \<or> s = 3 \<or> s = 4 \<or> s = 5 \<or> s = 6 \<or> s = 7 \<or> s = 8"
      by simp
    have odd: "odd q" if "q = 16777215"
      using that by simp
    show ?thesis
      using cases c(3-8) by (elim disjE) (auto split: if_splits dest: odd)
  qed
  then show "\<bar>f32_round n - n\<bar> \<le> 128" "0 \<le> f32_round n" "f32_round n \<le> 2 ^ 32"
    "f32_round n = 2 ^ 32 \<longleftrightarrow> 0xFFFFFF80 \<le> n"
    by blast+
qed

lemma f32_round_shift:
  assumes "0 \<le> m" "m < 2 ^ 24"
  shows "f32_round (m * 2 ^ e) = m * 2 ^ e"
proof (cases "24 < bit_length (m * 2 ^ e)")
  case False
  then show ?thesis by (simp add: f32_round_def)
next
  case True
  have "m * 2 ^ e < 2 ^ (24 + e)"
    using assms(2) by (simp add: power_add)
  then have le: "bit_length (m * 2 ^ e) \<le> 24 + e"
    using bit_length_le_iff [of "m * 2 ^ e" "24 + e"] assms(1) by simp
  define s where "s = bit_length (m * 2 ^ e) - 24"
  have "e = s + (e - s)"
    using le by (simp add: s_def)
  then have m: "m * 2 ^ e = (m * 2 ^ (e - s)) * 2 ^ s"
    by (metis power_add mult.assoc mult.commute)
  show ?thesis
    using True unfolding f32_round_def Let_def s_def [symmetric] by (subst (3) m, subst (2) m) (auto simp: m)
qed

lemma uint_byte: "0 \<le> uint (b :: byte)" "uint b < 256"
  using uint_lt2p [of b] by simp_all

lemma digest_to_u_eq:
  assumes "4 \<le> length d"
  shows "digest_to_u d = Fin (f32_round (from_le (take 4 d))) (- 32)"
proof -
  obtain a b c e rest where d: "d = a # b # c # e # rest"
    using assms by (auto simp: numeral_eq_Suc Suc_le_length_iff)
  have 1: "f32_round (uint b * 256) = uint b * 256" "f32_round (uint c * 65536) = uint c * 65536"
    "f32_round (uint e * 16777216) = uint e * 16777216"
    using f32_round_shift [of "uint b" 8] f32_round_shift [of "uint c" 16] f32_round_shift [of "uint e" 24]
      uint_byte [of b] uint_byte [of c] uint_byte [of e] by simp_all
  have 2: "f32_round (uint a + uint b * 256) = uint a + uint b * 256"
    "f32_round (uint a + uint b * 256 + uint c * 65536) = uint a + uint b * 256 + uint c * 65536"
    using uint_byte [of a] uint_byte [of b] uint_byte [of c] by (simp_all add: f32_round_small)
  show ?thesis
    unfolding digest_to_u_def Let_def d by (simp add: 1 2) (simp add: algebra_simps)
qed

lemma digest_word: "4 \<le> length d \<Longrightarrow> 0 \<le> from_le (take 4 d) \<and> from_le (take 4 d) < 2 ^ 32"
  using from_le_bounds [of "take 4 d"] by simp

section \<open>Batches\<close>

text \<open>The encoded precision follows the precision string.\<close>

definition precision_ok :: "pow_hasher \<Rightarrow> bool" where
  "precision_ok s \<longleftrightarrow> (ph_prior_precision s \<noteq> [] \<longrightarrow> ph_precision_bytes s = Some (utf8 (ph_prior_precision s)))"

lemma precision_ok_init: "precision_ok hasher_init"
  by (simp add: precision_ok_def hasher_init_def)

lemma precision_ok_refresh: "precision_ok s \<Longrightarrow> precision_ok (refresh_precision prec s)"
  by (simp add: precision_ok_def refresh_precision_def)

lemma the_precision_refresh:
  "precision_ok s \<Longrightarrow> prec \<noteq> [] \<Longrightarrow> the_precision (refresh_precision prec s) = Inr (utf8 prec)"
  by (auto simp: precision_ok_def refresh_precision_def the_precision_def)

text \<open>The step message of one row by its reference builder.\<close>

definition reference_message :: "ring_buffers \<Rightarrow> nat \<Rightarrow> int list \<Rightarrow> int \<Rightarrow> string \<Rightarrow> byte list res" where
  "reference_message b r ctx step prec =
     (let w = rb_rows b ! r
      in build_step_message (take (pow_header_len w) (pow_header w)) (take (pow_vdf_len w) (pow_vdf w))
           (pow_tick w) step ctx prec (if pow_admission_valid w then Some (pow_admission_nonce w) else None)
           POW_WINDOW_SIZE)"

lemma row_message_reference:
  assumes "row_ok W (rb_rows b ! r)" "length ctx = POW_WINDOW_SIZE" "list_all i64_ok ctx"
  shows "reference_message b r ctx step prec =
    Inr (row_message b r (pow_header_len (rb_rows b ! r)) (pow_vdf_len (rb_rows b ! r))
      (pow_admission_valid (rb_rows b ! r)) (utf8 prec) ctx step)"
  using assms left_pad_short [of ctx 256 0]
  unfolding reference_message_def Let_def step_message_total
  by (auto simp: row_message_def row_ok_def Let_def build_msg_def tok_le_bytes_def u32le_eq POW_WINDOW_SIZE_def)

text \<open>The two hash paths draw the same: the batched one when all rows agree on their widths.\<close>

definition row_draws ::
    "ring_buffers \<Rightarrow> nat list \<Rightarrow> (nat \<times> nat \<times> bool) list \<Rightarrow> byte list \<Rightarrow> int list list \<Rightarrow> int list \<Rightarrow>
     f64 list list \<Rightarrow> (nat \<times> f64 \<times> byte list) list" where
  "row_draws b rows ws pb contexts step_ids cdfs =
     map (\<lambda>i. case ws ! i of (hlen, vlen, adm) \<Rightarrow>
       draw (cdfs ! i) (sha256 (row_message b (rows ! i) hlen vlen adm pb (contexts ! i) (step_ids ! i))))
     [0..<length contexts]"

lemma map2_map_upt:
  "length xs = n \<Longrightarrow> map2 f xs (map g [0..<n]) = map (\<lambda>i. f (xs ! i) (g i)) [0..<n]"
  by (rule nth_equalityI) auto

lemma fast_draws_eq:
  assumes "same_widths ws" "length ws = length contexts" "length cdfs = length contexts" "ws \<noteq> []"
  shows "fast_draws b rows (hd ws) pb contexts step_ids cdfs = row_draws b rows ws pb contexts step_ids cdfs"
proof -
  obtain hlen vlen adm where w: "hd ws = (hlen, vlen, adm)"
    by (metis prod_cases3)
  have eq: "ws ! i = (hlen, vlen, adm)" if "i < length contexts" for i
    using assms(1,2,4) that w by (cases ws) (auto simp: same_widths_def list_all_length nth_Cons split: nat.splits)
  show ?thesis
    unfolding fast_draws_def row_draws_def w Let_def prod.case sha256_many_cpu_def map_map comp_def
      map2_map_upt [OF assms(3)]
    by (rule map_cong) (auto simp: eq)
qed

lemma mixed_draws_eq:
  "mixed_draws b rows ws pb contexts step_ids cdfs = row_draws b rows ws pb contexts step_ids cdfs"
proof -
  have "concat (map (\<lambda>i. [f i]) xs) = map f xs" for f :: "nat \<Rightarrow> 'c" and xs
    by (induction xs) auto
  then show ?thesis
    by (simp add: mixed_draws_def row_draws_def Let_def sha256_many_cpu_def case_prod_beta)
qed

lemma row_widths_valid:
  assumes "rb_ok b" "\<forall>r \<in> set rows. in_range b r \<and> pow_valid (rb_rows b ! r)" "rh = None \<or> rh = Some rows"
  shows "row_widths b rows rh (length rows) = Inr (map (\<lambda>r. (pow_header_len (rb_rows b ! r),
    pow_vdf_len (rb_rows b ! r), pow_admission_valid (rb_rows b ! r))) rows)"
proof -
  have "row_ok (window_size b) (rb_rows b ! r)" if "r \<in> set rows" for r
    using assms(1,2) that by (auto simp: rb_ok_def list_all_length in_range_def)
  then show ?thesis
    using assms(2,3) by (auto simp: row_widths_def row_ok_def intro!: mapr_Inr)
qed

lemma batch_rows_drawn:
  assumes "rb_ok b" "rows \<noteq> []" "\<forall>r \<in> set rows. in_range b r \<and> pow_valid (rb_rows b ! r)"
    "rh = None \<or> rh = Some rows" "precision_ok s" "prec \<noteq> []"
    "length contexts = length rows" "length cdfs = length rows"
    "\<forall>ctx \<in> set contexts. length ctx = POW_WINDOW_SIZE \<and> list_all i64_ok ctx"
  shows "\<exists>ms. length ms = length rows \<and>
    (\<forall>i < length rows. reference_message b (rows ! i) (contexts ! i) (step_ids ! i) prec = Inr (ms ! i)) \<and>
    batch_sample_rows b rows rh contexts step_ids cdfs prec s =
      (refresh_precision prec s, Inr (map2 draw cdfs (map sha256 ms)))"
proof -
  let ?ws = "map (\<lambda>r. (pow_header_len (rb_rows b ! r),
    pow_vdf_len (rb_rows b ! r), pow_admission_valid (rb_rows b ! r))) rows"
  let ?msg = "\<lambda>i. row_message b (rows ! i) (pow_header_len (rb_rows b ! (rows ! i)))
      (pow_vdf_len (rb_rows b ! (rows ! i))) (pow_admission_valid (rb_rows b ! (rows ! i))) (utf8 prec)
      (contexts ! i) (step_ids ! i)"
  let ?ms = "map ?msg [0..<length rows]"
  have ok: "row_ok (window_size b) (rb_rows b ! (rows ! i))" if "i < length rows" for i
    using assms(1,3) that by (auto simp: rb_ok_def list_all_length in_range_def)
  have ref: "reference_message b (rows ! i) (contexts ! i) (step_ids ! i) prec = Inr (?ms ! i)"
    if "i < length rows" for i
    using row_message_reference [OF ok [OF that], of "contexts ! i"] assms(7,9) that by simp
  have draws: "row_draws b rows ?ws (utf8 prec) contexts step_ids cdfs = map2 draw cdfs (map sha256 ?ms)"
    unfolding row_draws_def map_map comp_def assms(7) map2_map_upt [OF assms(8)]
    by (rule map_cong) auto
  have ir: "\<not> (\<exists>r \<in> set rows. \<not> in_range b r)"
    using assms(3) by blast
  have "batch_sample_rows b rows rh contexts step_ids cdfs prec s =
      (refresh_precision prec s, Inr (row_draws b rows ?ws (utf8 prec) contexts step_ids cdfs))"
    unfolding batch_sample_rows_def assms(7) row_widths_valid [OF assms(1,3,4)] Let_def
    using ir assms(2) fast_draws_eq [of ?ws contexts cdfs] assms(7,8)
    by (simp add: the_precision_refresh [OF assms(5,6)] mixed_draws_eq)
  with ref draws show ?thesis
    by (intro exI [of _ ?ms]) simp
qed

lemma draw_token_bound: "cdf \<noteq> [] \<Longrightarrow> fst (draw cdf d) < length cdf"
  by (cases cdf) (auto simp: draw_def clamp_token_id_def Let_def)

section \<open>The shared parameters\<close>

text \<open>Every cached tensor is what its key decodes to.\<close>

definition cached :: "string \<Rightarrow> byte list \<Rightarrow> bool" where
  "cached k v \<longleftrightarrow> (k \<noteq> [] \<longrightarrow> unhexlify k = Inr v)"

definition cached_opt :: "string \<Rightarrow> byte list option \<Rightarrow> bool" where
  "cached_opt k v \<longleftrightarrow> (k \<noteq> [] \<longrightarrow> (\<exists>x. v = Some x \<and> unhexlify k = Inr x)) \<and> (k = [] \<longrightarrow> v \<in> {None, Some []})"

definition canonical :: "string \<Rightarrow> bool" where
  "canonical k \<longleftrightarrow> k = [] \<or> length k = 64"

definition hasher_ok :: "pow_hasher \<Rightarrow> bool" where
  "hasher_ok s \<longleftrightarrow> cached (ph_prior_hb s) (ph_h_b s) \<and> cached (ph_prior_vdf s) (ph_vdf s) \<and>
     cached (ph_prior_target s) (ph_target s) \<and> canonical (ph_prior_target s) \<and>
     cached_opt (ph_prior_share_target s) (ph_share_target s) \<and> canonical (ph_prior_share_target s) \<and>
     (ph_prior_share_target s = [] \<longrightarrow> ph_share_target s = None) \<and>
     cached_opt (ph_prior_header s) (ph_header_prefix s)"

lemma hex_cached: "hex_to_bytes_tensor k = Inr v \<Longrightarrow> cached k v \<and> cached_opt k (Some v)"
  by (auto simp: hex_to_bytes_tensor_def cached_def cached_opt_def split: if_splits)

lemma hasher_ok_init: "hasher_ok hasher_init"
  by (simp add: hasher_ok_def hasher_init_def cached_def cached_opt_def canonical_def)

lemma norm64_same: "length s = 64 \<Longrightarrow> norm64 s = s"
  by (simp add: norm64_def)

lemma norm64_nonempty [simp]: "norm64 s \<noteq> []"
  using length_norm64 [of s] by (metis list.size(3) zero_neq_numeral)

lemma update_steps_keep:
  "keeps hasher_ok (update_block_hash p)" "keeps hasher_ok (update_vdf p)"
  "keeps hasher_ok (update_target p)" "keeps hasher_ok (update_header p)"
  unfolding update_block_hash_def update_vdf_def update_target_def update_header_def
  by (intro keeps_let keeps_if; simp add: act_let_def split: sum.splits;
      simp add: hasher_ok_def hex_cached canonical_def)+

lemma update_share_keeps: "keeps hasher_ok (update_share_target p)"
  unfolding keeps_def update_share_target_def Let_def
  by (auto simp: act_let_def hasher_ok_def hex_cached canonical_def cached_opt_def [of "[]" None] split: sum.splits)

lemma update_scalars_keep:
  "keeps hasher_ok (update_tick p)" "keeps hasher_ok (update_request_id p)"
  "keeps hasher_ok (update_difficulty p)" "keeps hasher_ok (update_ipfs_cid p)"
  by (auto simp: keeps_def hasher_ok_def act_let_def key_def update_tick_def update_request_id_def
      update_difficulty_def update_ipfs_cid_def split: option.splits)

lemma update_keeps: "keeps hasher_ok (update_from_payload p)"
  unfolding update_from_payload_def by (intro keeps_then update_steps_keep update_share_keeps update_scalars_keep)


text \<open>What a step establishes when it does not raise, and which steps keep it.\<close>

definition ensures :: "'s act \<Rightarrow> ('s \<Rightarrow> bool) \<Rightarrow> bool" where
  "ensures f P \<longleftrightarrow> (\<forall>s. snd (f s) = None \<longrightarrow> P (fst (f s)))"

lemma ensures_first: "ensures f P \<Longrightarrow> keeps P g \<Longrightarrow> ensures (act_then f g) P"
  by (simp add: ensures_def keeps_def fst_act_then snd_act_then)

lemma ensures_second: "ensures g P \<Longrightarrow> ensures (act_then f g) P"
  by (auto simp: ensures_def fst_act_then snd_act_then)

lemmas update_defs = update_block_hash_def update_vdf_def update_tick_def update_request_id_def
  update_target_def update_share_target_def update_difficulty_def update_header_def update_ipfs_cid_def

lemma ensured:
  "ensures (update_block_hash p) (\<lambda>s. pl_block_hash p = Some (ph_prior_hb s))"
  "ensures (update_vdf p) (\<lambda>s. pl_vdf p = Some (ph_prior_vdf s))"
  "ensures (update_tick p) (\<lambda>s. pl_tick p = Some (ph_tick s))"
  "ensures (update_request_id p) (\<lambda>s. pl_request_id p \<noteq> None \<and> ph_request_id s = pl_request_id p)"
  "ensures (update_target p) (\<lambda>s. \<exists>t. pl_target p = Some t \<and> ph_prior_target s \<in> {t, norm64 t})"
  "ensures (update_difficulty p) (\<lambda>s. pl_difficulty p \<noteq> None \<and> ph_difficulty s = pl_difficulty p)"
  "ensures (update_header p) (\<lambda>s. pl_header_prefix p = Some (ph_prior_header s))"
  by (auto simp: ensures_def update_defs act_let_def key_def split: option.splits sum.splits if_splits)

lemma ensured_share:
  "ensures (update_share_target p) (\<lambda>s. ph_prior_share_target s =
     (if pl_share_target p = [] then [] else norm64 (pl_share_target p)))"
  by (auto simp: ensures_def update_defs act_let_def Let_def split: sum.splits)

text \<open>No step after the one that reads a key writes what that step wrote.\<close>

lemma frames:
  "\<forall>f \<in> {update_vdf p, update_tick p, update_request_id p, update_target p, update_share_target p,
     update_difficulty p, update_header p, update_ipfs_cid p}. \<forall>s. ph_prior_hb (fst (f s)) = ph_prior_hb s"
  "\<forall>f \<in> {update_tick p, update_request_id p, update_target p, update_share_target p,
     update_difficulty p, update_header p, update_ipfs_cid p}. \<forall>s. ph_prior_vdf (fst (f s)) = ph_prior_vdf s"
  "\<forall>f \<in> {update_request_id p, update_target p, update_share_target p,
     update_difficulty p, update_header p, update_ipfs_cid p}. \<forall>s. ph_tick (fst (f s)) = ph_tick s"
  "\<forall>f \<in> {update_target p, update_share_target p, update_difficulty p, update_header p, update_ipfs_cid p}. \<forall>s. ph_request_id (fst (f s)) = ph_request_id s"
  "\<forall>f \<in> {update_share_target p, update_difficulty p, update_header p, update_ipfs_cid p}. \<forall>s. ph_prior_target (fst (f s)) = ph_prior_target s"
  "\<forall>f \<in> {update_difficulty p, update_header p, update_ipfs_cid p}. \<forall>s. ph_prior_share_target (fst (f s)) = ph_prior_share_target s"
  "\<forall>f \<in> {update_header p, update_ipfs_cid p}. \<forall>s. ph_difficulty (fst (f s)) = ph_difficulty s"
  "\<forall>s. ph_prior_header (fst (update_ipfs_cid p s)) = ph_prior_header s"
  by (auto simp: update_defs act_let_def Let_def split: sum.split option.split)

text \<open>The keys of the payload are the cache keys afterwards.\<close>

lemma update_keys:
  assumes "update_from_payload p s = (s', None)"
  shows "pl_block_hash p = Some (ph_prior_hb s')" "pl_vdf p = Some (ph_prior_vdf s')"
    "pl_tick p = Some (ph_tick s')" "pl_request_id p \<noteq> None \<and> ph_request_id s' = pl_request_id p"
    "\<exists>t. pl_target p = Some t \<and> ph_prior_target s' \<in> {t, norm64 t}"
    "ph_prior_share_target s' = (if pl_share_target p = [] then [] else norm64 (pl_share_target p))"
    "pl_difficulty p \<noteq> None \<and> ph_difficulty s' = pl_difficulty p"
    "pl_header_prefix p = Some (ph_prior_header s')"
proof -
  have ens: "ensures (update_from_payload p) P \<Longrightarrow> P s'" for P
    using assms by (auto simp: ensures_def dest: spec [of _ s])
  show "pl_block_hash p = Some (ph_prior_hb s')"
    by (rule ens, unfold update_from_payload_def, rule ensures_first [OF ensured(1)])
      (intro keeps_then; simp add: keeps_def frames [of p])
  show "pl_vdf p = Some (ph_prior_vdf s')"
    by (rule ens, unfold update_from_payload_def, rule ensures_second, rule ensures_first [OF ensured(2)])
      (intro keeps_then; simp add: keeps_def frames [of p])
  show "pl_tick p = Some (ph_tick s')"
    by (rule ens, unfold update_from_payload_def, rule ensures_second [OF ensures_second [OF ensures_first [OF ensured(3)]]])
      (intro keeps_then; simp add: keeps_def frames [of p])
  show "pl_request_id p \<noteq> None \<and> ph_request_id s' = pl_request_id p"
    by (rule ens, unfold update_from_payload_def, rule ensures_second [OF ensures_second [OF ensures_second [OF ensures_first [OF ensured(4)]]]])
      (intro keeps_then; simp add: keeps_def frames [of p])
  show "\<exists>t. pl_target p = Some t \<and> ph_prior_target s' \<in> {t, norm64 t}"
    by (rule ens, unfold update_from_payload_def, rule ensures_second [OF ensures_second [OF ensures_second [OF ensures_second [OF ensures_first [OF ensured(5)]]]]])
      (intro keeps_then; simp add: keeps_def frames [of p])
  show "ph_prior_share_target s' = (if pl_share_target p = [] then [] else norm64 (pl_share_target p))"
    by (rule ens, unfold update_from_payload_def, rule ensures_second [OF ensures_second [OF ensures_second [OF ensures_second [OF ensures_second [OF ensures_first [OF ensured_share]]]]]])
      (intro keeps_then; simp add: keeps_def frames [of p])
  show "pl_difficulty p \<noteq> None \<and> ph_difficulty s' = pl_difficulty p"
    by (rule ens, unfold update_from_payload_def, rule ensures_second [OF ensures_second [OF ensures_second [OF ensures_second [OF ensures_second [OF ensures_second [OF ensures_first [OF ensured(6)]]]]]]])
      (intro keeps_then; simp add: keeps_def frames [of p])
  show "pl_header_prefix p = Some (ph_prior_header s')"
    by (rule ens, unfold update_from_payload_def, rule ensures_second [OF ensures_second [OF ensures_second [OF ensures_second [OF ensures_second [OF ensures_second [OF ensures_second [OF ensures_first [OF ensured(7)]]]]]]]])
      (simp add: keeps_def frames [of p])
qed

text \<open>Only \<^verbatim>\<open>update_header\<close> writes the header prefix.\<close>

lemma header_frames:
  "\<forall>f \<in> {update_block_hash p, update_vdf p, update_tick p, update_request_id p, update_target p,
     update_share_target p, update_difficulty p, update_ipfs_cid p}. \<forall>s.
     ph_header_prefix (fst (f s)) = ph_header_prefix s \<and> ph_prior_header (fst (f s)) = ph_prior_header s"
  by (auto simp: update_defs act_let_def Let_def split: sum.split option.split)

lemma update_header_empty:
  assumes "hasher_ok s" "update_from_payload p s = (s', None)" "pl_header_prefix p = Some []"
  shows "ph_header_prefix s' = (if ph_header_prefix s = None then None else Some [])"
proof -
  define I where "I = (\<lambda>t :: pow_hasher. (ph_prior_header t = [] \<longrightarrow> ph_header_prefix t \<in> {None, Some []}) \<and>
    (ph_header_prefix t = None \<longleftrightarrow> ph_header_prefix s = None) \<and> (ph_header_prefix t = None \<longrightarrow> ph_prior_header t = []))"
  have step: "keeps I (update_header p)"
    by (auto simp: keeps_def I_def update_header_def key_def assms(3) hex_to_bytes_tensor_def)
  have rest: "keeps I f" if "f \<in> {update_block_hash p, update_vdf p, update_tick p, update_request_id p,
     update_target p, update_share_target p, update_difficulty p, update_ipfs_cid p}" for f
  proof -
    have "ph_header_prefix (fst (f t)) = ph_header_prefix t" "ph_prior_header (fst (f t)) = ph_prior_header t" for t
      using header_frames [of p] that by blast+
    then show ?thesis
      unfolding keeps_def I_def by auto
  qed
  have "keeps I (update_from_payload p)"
    unfolding update_from_payload_def by (intro keeps_then step rest) simp_all
  moreover have "I s"
    using assms(1) by (auto simp: I_def hasher_ok_def cached_opt_def)
  ultimately have "I s'"
    using assms(2) by (auto simp: keeps_def dest: spec [of _ s])
  moreover have "ph_prior_header s' = []"
    using update_keys(8) [OF assms(2)] assms(3) by simp
  ultimately show ?thesis
    by (auto simp: I_def)
qed

lemma update_header_some:
  assumes "hasher_ok s'" "ph_prior_header s' \<noteq> []"
  shows "shared_header s' = the (ph_header_prefix s')"
  using assms by (auto simp: hasher_ok_def cached_opt_def shared_header_def)

section \<open>Solutions\<close>

lemma header_hashes_length: "length (header_hashes h ds) = length ds"
  by (simp add: header_hashes_def sha256_many_cpu_def)

lemma against_target_order:
  "against_target (header_hashes h ds) t = Inr bs \<Longrightarrow> length t = 32 \<Longrightarrow>
   bs = map (\<lambda>d. from_le (sha256 (sha256 (h @ take 4 d))) \<le> from_be t) ds"
  using hash_check_correct [of "header_hashes h ds" t]
  by (auto simp: against_target_def header_hashes_def sha256_many_cpu_def length_sha256 split: if_splits)

text \<open>The header both checks hash and the target each of them compares with.\<close>

lemma check_solution_eq:
  assumes "check_solution s ds (Some p) = Inr bs"
  obtains h t where "snapshot_header p = Inr h" "hex_to_bytes_tensor (ps_target p) = Inr t"
    "against_target (header_hashes h ds) t = Inr bs"
proof -
  let ?h0 = "if ps_header_prefix p \<noteq> [] then hex_to_bytes_tensor (ps_header_prefix p) else Inr []"
  obtain h0 t h where "?h0 = Inr h0" "hex_to_bytes_tensor (ps_target p) = Inr t"
    "(if h0 = [] then hex_to_bytes_tensor (ps_block_hash p) else Inr h0) = Inr h"
    "against_target (header_hashes h ds) t = Inr bs"
    using assms unfolding check_solution_def option.case rbind_Inr_iff by blast
  then show thesis
    by (intro that [of h t]) (simp_all only: snapshot_header_def rbind.simps)
qed

lemma check_share_eq:
  assumes "check_share_solution s ds (Some p) = Inr ss" "ps_share_target p \<noteq> []"
  obtains h t where "snapshot_header p = Inr h" "hex_to_bytes_tensor (norm64 (ps_share_target p)) = Inr t"
    "against_target (header_hashes h ds) t = Inr ss"
proof -
  obtain h t where "snapshot_header p = Inr h" "hex_to_bytes_tensor (norm64 (ps_share_target p)) = Inr t"
    "against_target (header_hashes h ds) t = Inr ss"
    using assms by (cases "snapshot_header p"; cases "hex_to_bytes_tensor (norm64 (ps_share_target p))")
      (simp_all add: check_share_solution_def)
  then show thesis by (rule that)
qed

lemma hex64: "length s = 64 \<Longrightarrow> hex_to_bytes_tensor s = Inr t \<Longrightarrow> length t = 32"
  using unhexlify_length [of s t] by (auto simp: hex_to_bytes_tensor_def split: if_splits)

lemma digest_to_u_dval: "4 \<le> length d \<Longrightarrow> dval (digest_to_u d) = real_of_int (f32_round (from_le (take 4 d))) / 2 ^ 32"
  using powr_neg_nat [of "- 32"] by (simp add: digest_to_u_eq)

lemma digest_to_u_near:
  assumes "4 \<le> length d"
  shows "\<bar>dval (digest_to_u d) - real_of_int (from_le (take 4 d)) / 2 ^ 32\<bar> \<le> 1 / 2 ^ 25"
proof -
  let ?n = "from_le (take 4 d)"
  have n: "0 \<le> ?n" "?n < 2 ^ 32"
    using digest_word [OF assms] by auto
  have "\<bar>real_of_int (f32_round ?n) - real_of_int ?n\<bar> = real_of_int \<bar>f32_round ?n - ?n\<bar>"
    by simp
  also have "\<dots> \<le> 128"
    using f32_round_near(1) [OF n] by linarith
  finally have "\<bar>real_of_int (f32_round ?n) - real_of_int ?n\<bar> / 2 ^ 32 \<le> 128 / 2 ^ 32"
    by (rule divide_right_mono) simp
  then show ?thesis
    by (simp add: digest_to_u_dval [OF assms] diff_divide_distrib [symmetric] abs_divide)
qed


section \<open>Properties\<close>

text \<open>C29: the float32 draw: \<^verbatim>\<open>_digest_to_u\<close> rounds the first four digest bytes to 24 significant
  bits.  The draw lies between 0 and 1, both included, within \<open>2 ^ -25\<close> of the exact value that
  \<^verbatim>\<open>pow_v3.step_u_from_message\<close> computes, and is 1 exactly on the last 128 digest words.\<close>

theorem digest_to_u_range:
  assumes "4 \<le> length d"
  shows "0 \<le> dval (digest_to_u d) \<and> dval (digest_to_u d) \<le> 1 \<and>
    \<bar>dval (digest_to_u d) - real_of_int (from_le (take 4 d)) / 2 ^ 32\<bar> \<le> 1 / 2 ^ 25 \<and>
    (dval (digest_to_u d) = 1 \<longleftrightarrow> 0xFFFFFF80 \<le> from_le (take 4 d))"
proof -
  let ?r = "f32_round (from_le (take 4 d))"
  note near = f32_round_near [of "from_le (take 4 d)"]
  have "0 \<le> ?r \<and> ?r \<le> 2 ^ 32 \<and> (?r = 2 ^ 32 \<longleftrightarrow> 0xFFFFFF80 \<le> from_le (take 4 d))"
    using near digest_word [OF assms] by blast
  then have "0 \<le> dval (digest_to_u d) \<and> dval (digest_to_u d) \<le> 1 \<and>
      (dval (digest_to_u d) = 1 \<longleftrightarrow> 0xFFFFFF80 \<le> from_le (take 4 d))"
    by (auto simp: digest_to_u_dval [OF assms] divide_le_eq_1 divide_eq_1_iff)
  with digest_to_u_near [OF assms] show ?thesis by blast
qed

theorem digest_to_u_range_witness:
  "0 \<le> dval (digest_to_u [0x80, 0xFF, 0xFF, 0xFF]) \<and> dval (digest_to_u [0x80, 0xFF, 0xFF, 0xFF]) = 1"
  using digest_to_u_range [of "[0x80, 0xFF, 0xFF, 0xFF]"] by simp

text \<open>C18: batched sampling: on any reachable buffers, for rows with valid jobs, the drawn tokens, draws
  and digests of a batch are those of one row at a time: the step message of each row as
  \<^verbatim>\<open>build_step_message\<close> lays it out, its SHA-256 digest, the token of its own CDF.  It makes no
  difference whether the rows are also given on the host or whether all rows have the same widths.\<close>

theorem batch_sampling_reference:
  assumes "rb_reach W n fp b" "rows \<noteq> []" "\<forall>r \<in> set rows. r < n \<and> pow_valid (rb_rows b ! r)"
    "rh = None \<or> rh = Some rows" "precision_ok s" "prec \<noteq> []"
    "length contexts = length rows" "length cdfs = length rows"
    "\<forall>ctx \<in> set contexts. length ctx = POW_WINDOW_SIZE \<and> list_all i64_ok ctx"
  shows "\<exists>ms. length ms = length rows \<and>
    (\<forall>i < length rows. reference_message b (rows ! i) (contexts ! i) (step_ids ! i) prec = Inr (ms ! i)) \<and>
    batch_sample_tokens (Some (b, rows)) rh snap contexts step_ids cdfs prec s =
      (refresh_precision prec s, Inr (map2 draw cdfs (map sha256 ms)))"
  unfolding batch_sample_tokens_def option.case prod.case
  using rb_reach_ok [OF assms(1)] rb_dims [OF assms(1)] assms(2-)
  by (intro batch_rows_drawn) (auto simp: in_range_def)

definition demo_job :: pow_snapshot where
  "demo_job = \<lparr>ps_tick = Some 7, ps_request_id = 1, ps_header_prefix = ''0a0b'', ps_vdf = ''ff'',
     ps_block_hash = ''00'', ps_target = replicate 64 CHR ''0'', ps_share_target = ''ff''\<rparr>"

theorem batch_sampling_reference_witness:
  "\<exists>ms. length ms = length [1 :: nat] \<and>
    (\<forall>i < length [1 :: nat]. reference_message (fst (write_pow_params 1 (Some demo_job) (rb_init 4 2 True))) ([1] ! i)
        ([replicate 256 0] ! i) ([5] ! i) ''fp16'' = Inr (ms ! i)) \<and>
    batch_sample_tokens (Some (fst (write_pow_params 1 (Some demo_job) (rb_init 4 2 True)), [1])) (Some [1]) None
        [replicate 256 0] [5] [[Fin 1 (- 1), Fin 1 0]] ''fp16'' hasher_init =
      (refresh_precision ''fp16'' hasher_init, Inr (map2 draw [[Fin 1 (- 1), Fin 1 0]] (map sha256 ms)))"
proof (rule batch_sampling_reference)
  show "rb_reach 4 2 True (fst (write_pow_params 1 (Some demo_job) (rb_init 4 2 True)))"
    by (rule rb_reach.step [OF rb_reach.init rb_step.job]) (simp add: rb_init_def blank_row_def)
  show "\<forall>r \<in> set [1]. r < 2 \<and>
      pow_valid (rb_rows (fst (write_pow_params 1 (Some demo_job) (rb_init 4 2 True))) ! r)"
    by code_simp
  show "\<forall>ctx \<in> set [replicate 256 0]. length ctx = POW_WINDOW_SIZE \<and> list_all i64_ok ctx"
    by (simp add: POW_WINDOW_SIZE_def list_all_iff i64_ok_def)
qed (simp_all add: precision_ok_init)


definition demo_payload :: "string \<Rightarrow> payload" where
  "demo_payload header = \<lparr>pl_block_hash = Some ''0a0b'', pl_vdf = Some ''ff'', pl_tick = Some 7,
     pl_request_id = Some 1, pl_target = Some ''ff'', pl_share_target = [], pl_difficulty = Some 5,
     pl_header_prefix = Some header, pl_ipfs_cid = None\<rparr>"


text \<open>A payload without a header prefix: a hasher that never had one falls back to the block
  hash, a hasher that had one hashes the empty header.\<close>

theorem empty_header_depends_on_history:
  assumes "hasher_ok s" "update_from_payload p s = (s', None)" "pl_header_prefix p = Some []"
  shows "shared_header s' = (if ph_header_prefix s = None then ph_h_b s' else [])"
  by (simp add: shared_header_def update_header_empty [OF assms])

theorem empty_header_depends_on_history_witness:
  "shared_header (fst (update_from_payload (demo_payload []) hasher_init)) = [0x0a, 0x0b] \<and>
   shared_header (fst (update_from_payload (demo_payload [])
     (fst (update_from_payload (demo_payload ''c0'') hasher_init)))) = []"
proof -
  let ?s = "fst (update_from_payload (demo_payload ''c0'') hasher_init)"
  have fresh: "update_from_payload (demo_payload []) hasher_init =
      (fst (update_from_payload (demo_payload []) hasher_init), None)"
    by (simp add: prod_eq_iff) code_simp
  have later: "update_from_payload (demo_payload []) ?s = (fst (update_from_payload (demo_payload []) ?s), None)"
    by (simp add: prod_eq_iff) code_simp
  have ok: "hasher_ok ?s"
    using update_keeps [of "demo_payload ''c0''"] hasher_ok_init by (simp add: keeps_def)
  have empty: "pl_header_prefix (demo_payload []) = Some []"
    by (simp add: demo_payload_def)
  have "ph_h_b (fst (update_from_payload (demo_payload []) hasher_init)) = [0x0a, 0x0b]"
    "ph_header_prefix ?s = Some [0xc0]"
    by code_simp+
  then show ?thesis
    using empty_header_depends_on_history [OF hasher_ok_init fresh empty]
      empty_header_depends_on_history [OF ok later empty] by (simp add: hasher_init_def)
qed

text \<open>C27: block solutions and shares: both checks compare the double SHA-256 of the header and the
  first four digest bytes with their target, and a block solution is a share whenever the share
  target is not below the block target.\<close>

theorem solutions_are_shares:
  assumes "check_solution s ds (Some p) = Inr bs" "check_share_solution s ds (Some p) = Inr ss"
    "length (ps_target p) = 64" "ps_share_target p \<noteq> []"
    "hex_to_bytes_tensor (ps_target p) = Inr t" "hex_to_bytes_tensor (norm64 (ps_share_target p)) = Inr u"
    "snapshot_header p = Inr h"
  shows "bs = map (\<lambda>d. from_le (sha256 (sha256 (h @ take 4 d))) \<le> from_be t) ds \<and>
    ss = map (\<lambda>d. from_le (sha256 (sha256 (h @ take 4 d))) \<le> from_be u) ds \<and>
    (from_be t \<le> from_be u \<longrightarrow> list_all2 (\<lambda>b s. b \<longrightarrow> s) bs ss)"
proof -
  have "bs = map (\<lambda>d. from_le (sha256 (sha256 (h @ take 4 d))) \<le> from_be t) ds"
    using check_solution_eq [OF assms(1)] assms(3,5,7)
    by (metis against_target_order hex64 sum.inject(2))
  moreover have "ss = map (\<lambda>d. from_le (sha256 (sha256 (h @ take 4 d))) \<le> from_be u) ds"
    using check_share_eq [OF assms(2,4)] assms(6,7)
    by (metis against_target_order hex64 length_norm64 sum.inject(2))
  ultimately show ?thesis
    by (auto simp: list_all2_conv_all_nth)
qed

theorem solutions_are_shares_witness:
  "list_all2 (\<lambda>b s. b \<longrightarrow> s)
     (check_hash_against_target (header_hashes [0x0a, 0x0b] [replicate 32 0]) (replicate 32 0))
     (check_hash_against_target (header_hashes [0x0a, 0x0b] [replicate 32 0]) (replicate 31 0 @ [0xff]))"
proof -
  have hex: "hex_to_bytes_tensor (ps_target demo_job) = Inr (replicate 32 0)"
    "hex_to_bytes_tensor (norm64 (ps_share_target demo_job)) = Inr (replicate 31 0 @ [0xff])"
    "snapshot_header demo_job = Inr [0x0a, 0x0b]"
    by code_simp+
  have header: "hex_to_bytes_tensor (ps_header_prefix demo_job) = Inr [0x0a, 0x0b]" "ps_header_prefix demo_job \<noteq> []"
    by code_simp+
  have b: "check_solution hasher_init [replicate 32 0] (Some demo_job) =
      Inr (check_hash_against_target (header_hashes [0x0a, 0x0b] [replicate 32 0]) (replicate 32 0))"
    by (simp add: check_solution_def header hex against_target_def)
  have s: "check_share_solution hasher_init [replicate 32 0] (Some demo_job) =
      Inr (check_hash_against_target (header_hashes [0x0a, 0x0b] [replicate 32 0]) (replicate 31 0 @ [0xff]))"
    using hex(2) by (simp add: check_share_solution_def hex(3) against_target_def) (simp add: demo_job_def)
  have "length (ps_target demo_job) = 64" "ps_share_target demo_job \<noteq> []"
    by (simp_all add: demo_job_def)
  moreover have "from_be (replicate 32 0) \<le> from_be (replicate 31 0 @ [0xff])"
    by code_simp
  ultimately show ?thesis
    using solutions_are_shares [OF b s _ _ hex] by simp
qed

end
