(* ===== verification/Sampler.thy ===== *)
theory Sampler
  imports PowHasher RowManager "HOL-Library.AList"
begin

text \<open>
  \<^verbatim>\<open>CommonSamplerHelper\<close> (\<^verbatim>\<open>common_sampler_helper.py\<close>) with the state of its owner, the sampler
  \<^verbatim>\<open>PowTopKTopPSampler\<close>: the cache of every sequence, the allocation of rows, the bookkeeping after
  a batch of tokens and the detection of finished windows.  Dictionaries are association lists in
  insertion order.  Clock readings are arguments, in integer units.
\<close>

section \<open>State\<close>

record seq_cache =
  archive_list :: "int list"
  pad_mask_list :: "bool list"
  ctx_ring :: "int list"
  ring_pos :: nat
  ring_filled :: nat
  gen_count :: nat
  cache_prompt_len :: nat
  last_updated :: int

text \<open>The snapshot of a request: the job parameters and what only the proof needs.\<close>

record job = pow_snapshot +
  job_difficulty :: "int option"
  job_ipfs_cid :: "string option"
  job_audit_emit :: bool

record seq_params =
  sp_temperature :: "f64 option"
  sp_top_p :: "f64 option"
  sp_top_k :: "int option"
  sp_repetition_penalty :: "f64 option"
  sp_completion_id :: string
  sp_request_item_id :: string
  sp_base_completion_id :: string
  sp_snapshot :: "job option"

record sampler =
  sm_window :: nat
  sm_page_size :: nat
  sm_eos :: int
  sm_max_concurrency :: nat
  sm_caches :: "(nat \<times> seq_cache) list"
  sm_params :: "(nat \<times> seq_params) list"
  sm_rows :: "nat row_manager"
  sm_rb :: ring_buffers
  sm_prev_max :: nat
  sm_last_cleanup :: int
  sm_req_ids :: "(string \<times> nat) list"
  sm_next_sid :: nat

definition sampler_init :: "nat \<Rightarrow> nat \<Rightarrow> int \<Rightarrow> bool \<Rightarrow> int \<Rightarrow> sampler" where
  "sampler_init W n eos fastpath now = \<lparr>sm_window = W, sm_page_size = 16, sm_eos = eos,
     sm_max_concurrency = n, sm_caches = [], sm_params = [], sm_rows = rm_init n,
     sm_rb = rb_init W n fastpath, sm_prev_max = 0, sm_last_cleanup = now, sm_req_ids = [],
     sm_next_sid = 0\<rparr>"

text \<open>A call on the ring buffers, and one call per element of a list, the first error ending it.\<close>

definition on_rb :: "ring_buffers act \<Rightarrow> sampler act" where
  "on_rb f s = (case f (sm_rb s) of (b, e) \<Rightarrow> (s\<lparr>sm_rb := b\<rparr>, e))"

fun act_each :: "('a \<Rightarrow> 's act) \<Rightarrow> 'a list \<Rightarrow> 's act" where
  "act_each f [] = act_pure id"
| "act_each f (x # xs) = act_then (f x) (act_each f xs)"

section \<open>The cache of a sequence\<close>

definition fresh_cache :: "nat \<Rightarrow> int \<Rightarrow> int list \<Rightarrow> seq_cache" where
  "fresh_cache W now prompt =
     (let tail = py_tail W prompt
      in \<lparr>archive_list = prompt, pad_mask_list = replicate (length prompt) False,
          ctx_ring = tail @ drop (length tail) (replicate W 0), ring_pos = length tail mod W,
          ring_filled = min (length tail) W, gen_count = 0, cache_prompt_len = length prompt,
          last_updated = now\<rparr>)"

definition init_sequence_cache :: "int \<Rightarrow> nat \<Rightarrow> int list \<Rightarrow> sampler \<Rightarrow> sampler" where
  "init_sequence_cache now sid prompt s =
     s\<lparr>sm_caches := AList.update sid (fresh_cache (sm_window s) now prompt) (sm_caches s)\<rparr>"

definition cache_window :: "seq_cache \<Rightarrow> int list" where
  "cache_window c =
     (let r = ctx_ring c; rp = ring_pos c in if rp = 0 then r else drop rp r @ take rp r)"

definition get_context_windows :: "sampler \<Rightarrow> nat list \<Rightarrow> int list list res" where
  "get_context_windows s seq_ids =
     mapr (\<lambda>sid. rbind (key (map_of (sm_caches s) sid)) (\<lambda>c. Inr (cache_window c))) seq_ids"

text \<open>Writing a token into the context ring.\<close>

definition push_token :: "nat \<Rightarrow> int \<Rightarrow> seq_cache \<Rightarrow> seq_cache" where
  "push_token W tok c = c\<lparr>ctx_ring := (ctx_ring c)[ring_pos c := tok], ring_pos := (ring_pos c + 1) mod W,
     ring_filled := min (ring_filled c + 1) W\<rparr>"

definition archive_token :: "int \<Rightarrow> seq_cache \<Rightarrow> seq_cache" where
  "archive_token tok c = c\<lparr>archive_list := archive_list c @ [tok], pad_mask_list := pad_mask_list c @ [False]\<rparr>"

text \<open>
  The loop of \<^verbatim>\<open>update_caches\<close> and of \<^verbatim>\<open>update_caches_device_only\<close>: \<open>touch\<close> updates one cache,
  \<open>len\<close> is the sequence length after it.  A batch with fewer tokens than sequences is an error.
\<close>

fun each_cache ::
    "(int \<Rightarrow> seq_cache \<Rightarrow> seq_cache) \<Rightarrow> (seq_cache \<Rightarrow> nat) \<Rightarrow> nat list \<Rightarrow> int list \<Rightarrow>
     (nat \<times> seq_cache) list \<times> nat \<Rightarrow> ((nat \<times> seq_cache) list \<times> nat) \<times> py_error option" where
  "each_cache touch len [] toks (cs, max_len) = ((cs, max_len), None)"
| "each_cache touch len (sid # sids) toks (cs, max_len) =
     (case map_of cs sid of
        None \<Rightarrow> each_cache touch len sids (tl toks) (cs, max_len)
      | Some c \<Rightarrow>
          (case toks of
             [] \<Rightarrow> ((cs, max_len), Some IndexError)
           | tok # toks \<Rightarrow>
               (let c' = touch tok c
                in each_cache touch len sids toks (AList.update sid c' cs, max max_len (len c')))))"

definition page_flip :: "nat \<Rightarrow> nat \<Rightarrow> nat \<Rightarrow> bool" where
  "page_flip page prev max_len = (prev div page \<noteq> max_len div page \<and> 0 < max_len)"

definition update_with ::
    "(int \<Rightarrow> seq_cache \<Rightarrow> seq_cache) \<Rightarrow> (seq_cache \<Rightarrow> nat) \<Rightarrow> nat list \<Rightarrow> int list \<Rightarrow> sampler \<Rightarrow> sampler \<times> bool res" where
  "update_with touch len seq_ids toks s =
     (case each_cache touch len seq_ids toks (sm_caches s, 1) of
        ((cs, max_len), Some e) \<Rightarrow> (s\<lparr>sm_caches := cs\<rparr>, Inl e)
      | ((cs, max_len), None) \<Rightarrow>
          (s\<lparr>sm_caches := cs, sm_prev_max := max_len\<rparr>,
           Inr (page_flip (sm_page_size s) (sm_prev_max s) max_len)))"

definition touch_full :: "nat \<Rightarrow> int \<Rightarrow> int \<Rightarrow> seq_cache \<Rightarrow> seq_cache" where
  "touch_full W now tok c = push_token W tok ((archive_token tok c)\<lparr>last_updated := now\<rparr>)"

definition update_caches :: "bool \<Rightarrow> int \<Rightarrow> nat list \<Rightarrow> int list \<Rightarrow> sampler \<Rightarrow> sampler \<times> bool res" where
  "update_caches debug now seq_ids tokens s =
     (if debug \<and> tokens = [] then (s, Inl RuntimeError)
      else if debug \<and> (\<exists>t \<in> set tokens. t < 0) then (s, Inl AssertionError)
      else update_with (touch_full (sm_window s) now) (\<lambda>c. length (archive_list c)) seq_ids tokens s)"

definition touch_device :: "nat \<Rightarrow> int \<Rightarrow> int \<Rightarrow> seq_cache \<Rightarrow> seq_cache" where
  "touch_device W now tok c = (push_token W tok c)\<lparr>last_updated := now, gen_count := gen_count c + 1\<rparr>"

definition update_caches_device_only :: "int \<Rightarrow> nat list \<Rightarrow> int list \<Rightarrow> sampler \<Rightarrow> sampler \<times> bool res" where
  "update_caches_device_only now seq_ids tokens s =
     update_with (touch_device (sm_window s) now) (\<lambda>c. cache_prompt_len c + gen_count c) seq_ids tokens s"

section \<open>Rows\<close>

text \<open>\<^verbatim>\<open>free_sequence\<close>: when clearing the row raises, the rest is not done.\<close>

definition forget_sequence :: "nat \<Rightarrow> sampler \<Rightarrow> sampler" where
  "forget_sequence sid s =
     s\<lparr>sm_caches := AList.delete sid (sm_caches s), sm_params := AList.delete sid (sm_params s),
       sm_req_ids := filter (\<lambda>(rid, x). x \<noteq> sid) (sm_req_ids s)\<rparr>"

definition free_sequence :: "nat \<Rightarrow> sampler act" where
  "free_sequence sid s =
     (case free_row (sm_rows s) sid of (m, row) \<Rightarrow>
        act_then (on_rb (clear_row row)) (act_pure (forget_sequence sid)) (s\<lparr>sm_rows := m\<rparr>))"

text \<open>A row for a sequence that has none: the oldest sequence is evicted when the pool is empty.\<close>

definition try_allocate :: "nat \<Rightarrow> sampler \<Rightarrow> sampler \<times> nat option" where
  "try_allocate sid s = (case allocate_row (sm_rows s) sid of (m, row) \<Rightarrow> (s\<lparr>sm_rows := m\<rparr>, row))"

definition device_steps :: "sampler \<Rightarrow> nat list" where
  "device_steps s = map steps (rb_rows (sm_rb s))"

definition setup_row :: "int \<Rightarrow> (nat \<times> int list) list \<Rightarrow> nat \<Rightarrow> nat \<Rightarrow> sampler act" where
  "setup_row now prompts sid row =
     act_then (on_rb (clear_row (Some row)))
     (act_then (act_let (key (map_of prompts sid)) (\<lambda>prompt. act_pure (init_sequence_cache now sid prompt)))
     (\<lambda>s. case map_of (sm_params s) sid of
        None \<Rightarrow> (s, None)
      | Some ps \<Rightarrow> (case sp_snapshot ps of
          None \<Rightarrow> (s, None)
        | Some j \<Rightarrow> on_rb (write_pow_params row (Some (pow_snapshot.truncate j))) s)))"

definition ensure_row :: "int \<Rightarrow> (nat \<times> int list) list \<Rightarrow> nat \<Rightarrow> sampler act" where
  "ensure_row now prompts sid s =
     (if get_row (sm_rows s) sid \<noteq> None then (s, None)
      else case try_allocate sid s of
        (s, Some row) \<Rightarrow> setup_row now prompts sid row s
      | (s, None) \<Rightarrow>
          act_let (get_oldest_sequence (sm_rows s) (device_steps s)) (\<lambda>oldest s. case oldest of
             None \<Rightarrow> (s, None)
           | Some (old_sid, _) \<Rightarrow>
               act_then (free_sequence old_sid)
                 (\<lambda>s. case try_allocate sid s of
                    (s, None) \<Rightarrow> (s, None)
                  | (s, Some row) \<Rightarrow> setup_row now prompts sid row s) s) s)"

definition ensure_rows :: "int \<Rightarrow> (nat \<times> int list) list \<Rightarrow> nat list \<Rightarrow> sampler act" where
  "ensure_rows now prompts seq_ids = act_each (ensure_row now prompts) seq_ids"

section \<open>After a batch\<close>

definition check_eos :: "nat list \<Rightarrow> int list \<Rightarrow> sampler act" where
  "check_eos seq_ids tokens s =
     act_each (\<lambda>i. if i < length seq_ids then free_sequence (seq_ids ! i) else (\<lambda>s. (s, Some IndexError)))
       (filter (\<lambda>i. tokens ! i = sm_eos s) [0..<length tokens]) s"

definition cleanup_stale_sequences :: "int \<Rightarrow> int \<Rightarrow> int \<Rightarrow> sampler act" where
  "cleanup_stale_sequences now max_age interval s =
     (if now - sm_last_cleanup s < interval then (s, None)
      else
        (let s = s\<lparr>sm_last_cleanup := now\<rparr>;
             stale = map fst (filter (\<lambda>(sid, c). now - last_updated c > max_age) (sm_caches s))
         in act_each free_sequence stale s))"

text \<open>
  Detection of finished windows: the calls of \<^verbatim>\<open>_process_solution(sid, row)\<close> it makes, in order.
  The path over the host mirror looks at every sequence; the path over the device tensor first drops
  the sequences without a row and then indexes the sequence list with positions of the row list.
\<close>

definition window_done :: "nat \<Rightarrow> nat \<Rightarrow> bool" where
  "window_done W n = (0 < n \<and> n mod W = 0)"

definition check_solutions_host :: "sampler \<Rightarrow> nat list \<Rightarrow> (nat \<times> nat) list res" where
  "check_solutions_host s seq_ids =
     rbind (mapr (\<lambda>sid. case get_row (sm_rows s) sid of
               None \<Rightarrow> Inr []
             | Some row \<Rightarrow>
                 if in_range (sm_rb s) row
                 then Inr (if window_done (sm_window s) (steps_host (rb_rows (sm_rb s) ! row)) then [(sid, row)] else [])
                 else Inl IndexError) seq_ids)
       (\<lambda>cs. Inr (concat cs))"

definition check_solutions_device :: "sampler \<Rightarrow> nat list \<Rightarrow> (nat \<times> nat) list res" where
  "check_solutions_device s seq_ids =
     (let rows = List.map_filter (get_row (sm_rows s)) seq_ids
      in if rows = [] then Inr []
         else if \<exists>r \<in> set rows. \<not> in_range (sm_rb s) r then Inl IndexError
         else (let mask = map (\<lambda>r. window_done (sm_window s) (steps (rb_rows (sm_rb s) ! r))) rows;
                   idxs = filter (\<lambda>i. mask ! i) [0..<length rows]
               in Inr (map (\<lambda>i. (seq_ids ! i, rows ! i)) idxs)))"

definition check_pow_solutions :: "sampler \<Rightarrow> nat list \<Rightarrow> (nat \<times> nat) list res" where
  "check_pow_solutions s seq_ids =
     (if steps_host_ok (sm_rb s) then check_solutions_host s seq_ids else check_solutions_device s seq_ids)"

text \<open>
  The deferred bookkeeping of one sequence: the returned flag is the divergence of the debug build,
  the call of \<^verbatim>\<open>_process_solution\<close> the last component.
\<close>

definition archive_and_check_host ::
    "bool \<Rightarrow> int \<Rightarrow> nat \<Rightarrow> int list \<Rightarrow> sampler \<Rightarrow> sampler \<times> (bool \<times> (nat \<times> nat) option) res" where
  "archive_and_check_host debug now sid toks s =
     (case map_of (sm_caches s) sid of
        None \<Rightarrow> (s, Inr (False, None))
      | Some c \<Rightarrow>
          (let c = (fold archive_token toks c)\<lparr>last_updated := now\<rparr>;
               s = s\<lparr>sm_caches := AList.update sid c (sm_caches s)\<rparr>;
               committed = int (length (archive_list c)) - int (cache_prompt_len c);
               diverged = (debug \<and> int (gen_count c) \<noteq> committed)
           in if toks \<noteq> [] \<and> last toks = sm_eos s
              then (case free_sequence sid s of
                      (s, None) \<Rightarrow> (s, Inr (diverged, None))
                    | (s, Some e) \<Rightarrow> (s, Inl e))
              else if window_done (sm_window s) (gen_count c)
              then (s, Inr (diverged, map_option (Pair sid) (get_row (sm_rows s) sid)))
              else (s, Inr (diverged, None))))"

section \<open>Resetting\<close>

text \<open>
  \<^verbatim>\<open>reset_sampler_state\<close> zeroes the tensors it names in place and replaces the dictionaries; the
  last entries it names are the host mirrors of the admission flags and of the step counters.
\<close>

definition reset_slot :: "slot \<Rightarrow> slot" where
  "reset_slot s = s\<lparr>topk_logits := map (\<lambda>_. Fin 0 0) (topk_logits s),
     topk_indices := map (\<lambda>_. 0) (topk_indices s), chosen_prob := Fin 0 0, chosen_token := 0,
     attention_mask := False, sampling_u := Fin 0 0, softmax_normalizer := Fin 0 0\<rparr>"

definition reset_row :: "rb_row \<Rightarrow> rb_row" where
  "reset_row w = w\<lparr>ring := map reset_slot (ring w), steps := 0, pow_tick := 0, pow_request_id := 0,
     pow_header := zero_bytes (pow_header w), pow_vdf := zero_bytes (pow_vdf w), pow_vdf_len := 0,
     pow_target := zero_bytes (pow_target w), pow_share_target := zero_bytes (pow_share_target w),
     pow_block_hash := zero_bytes (pow_block_hash w), pow_header_len := 0, pow_valid := False,
     pow_admission_nonce := zero_bytes (pow_admission_nonce w), pow_admission_valid := False,
     pow_admission_valid_host := False, steps_host := 0\<rparr>"

definition reset_sampler_state :: "int \<Rightarrow> sampler \<Rightarrow> sampler" where
  "reset_sampler_state now s = s\<lparr>sm_caches := [], sm_params := [],
     sm_rows := (sm_rows s)\<lparr>seqid_to_row := [], free_rows := [0..<sm_max_concurrency s]\<rparr>,
     sm_rb := (sm_rb s)\<lparr>rb_rows := map reset_row (rb_rows (sm_rb s))\<rparr>, sm_last_cleanup := now\<rparr>"

section \<open>The batch of \<^verbatim>\<open>_pow_forward\<close>\<close>

text \<open>
  A sequence id for every request id, and the release of rows before the allocation: sequences
  outside the batch, most steps first, earliest allocated first, as many as rows are short.
\<close>

fun assign_sids :: "string list \<Rightarrow> sampler \<Rightarrow> sampler \<times> nat list" where
  "assign_sids [] s = (s, [])"
| "assign_sids (rid # rids) s =
     (case map_of (sm_req_ids s) rid of
        Some sid \<Rightarrow> (case assign_sids rids s of (s, sids) \<Rightarrow> (s, sid # sids))
      | None \<Rightarrow>
          (let sid = sm_next_sid s;
               s = s\<lparr>sm_req_ids := AList.update rid sid (sm_req_ids s), sm_next_sid := sid + 1\<rparr>
           in case assign_sids rids s of (s, sids) \<Rightarrow> (s, sid # sids)))"

definition victims :: "nat list \<Rightarrow> sampler \<Rightarrow> (nat \<times> nat) list" where
  "victims batch s = filter (\<lambda>(sid, row). sid \<notin> set batch) (seqid_to_row (sm_rows s))"

definition victim_rank :: "sampler \<Rightarrow> nat \<times> nat \<Rightarrow> int \<times> nat" where
  "victim_rank s = (\<lambda>(sid, row). (- int (steps (rb_rows (sm_rb s) ! row)),
     case allocation_order (sm_rows s) sid of None \<Rightarrow> 0 | Some a \<Rightarrow> a))"

definition pre_evict :: "nat list \<Rightarrow> sampler act" where
  "pre_evict batch s =
     (let need = length (remdups (filter (\<lambda>sid. get_row (sm_rows s) sid = None) batch));
          short = int need - int (length (free_rows (sm_rows s)));
          vs = victims batch s
      in if short > 0 \<and> vs \<noteq> []
         then if \<exists>(_, r) \<in> set vs. \<not> in_range (sm_rb s) r then (s, Some IndexError)
              else (let order = sort_key (\<lambda>v. fst (victim_rank s v)) (sort_key (\<lambda>v. snd (victim_rank s v)) vs)
                    in act_each (\<lambda>v. free_sequence (fst v)) (take (nat short) order) s)
         else (s, None))"

text \<open>Steps 1 and 2 of a batch: every sequence gets its row.\<close>

definition forward_rows :: "int \<Rightarrow> (nat \<times> int list) list \<Rightarrow> nat list \<Rightarrow> sampler act" where
  "forward_rows now prompts batch = act_then (pre_evict batch) (ensure_rows now prompts batch)"

end
