(* ===== verification/SamplerFacts.thy ===== *)
theory SamplerFacts
  imports Sampler
begin

text \<open>
  What the sampler promises: the context window of a sequence is the recent history of its tokens,
  the deferred bookkeeping equals the immediate one, every sequence of a batch gets a row, released
  and stale sequences leave nothing behind, and which calls the detection of finished windows makes.
\<close>

section \<open>The context ring\<close>

lemma cache_window_eq: "cache_window c = drop (ring_pos c) (ctx_ring c) @ take (ring_pos c) (ctx_ring c)"
  by (simp add: cache_window_def Let_def)

definition ring_ok :: "nat \<Rightarrow> seq_cache \<Rightarrow> bool" where
  "ring_ok W c \<longleftrightarrow> length (ctx_ring c) = W \<and> ring_pos c < W"

lemma cache_window_push:
  assumes "ring_ok W c"
  shows "cache_window (push_token W t c) = tl (cache_window c) @ [t]"
proof -
  let ?r = "ctx_ring c" and ?p = "ring_pos c"
  have p: "?p < length ?r" "length ?r = W"
    using assms by (simp_all add: ring_ok_def)
  then have d: "drop ?p ?r = ?r ! ?p # drop (Suc ?p) ?r"
    by (simp add: Cons_nth_drop_Suc)
  show ?thesis
  proof (cases "Suc ?p = W")
    case True
    with p d show ?thesis
      by (simp add: cache_window_eq push_token_def upd_conv_take_nth_drop)
  next
    case False
    with p d show ?thesis
      by (simp add: cache_window_eq push_token_def take_Suc_conv_app_nth)
  qed
qed

lemma ring_ok_push: "ring_ok W c \<Longrightarrow> ring_ok W (push_token W t c)"
  by (auto simp: ring_ok_def push_token_def)

interpretation cw: sliding_window "ring_ok (Suc k)" "push_token (Suc k)" cache_window "Suc k" for k
  by unfold_locales (simp_all add: ring_ok_push cache_window_push)

lemma ring_ok_fresh: "0 < W \<Longrightarrow> ring_ok W (fresh_cache W now prompt)"
  by (simp add: ring_ok_def fresh_cache_def Let_def length_py_tail)

lemma cache_window_fresh:
  assumes "0 < W"
  shows "cache_window (fresh_cache W now prompt) = left_pad W 0 prompt"
proof (cases "length prompt < W")
  case True
  then show ?thesis
    by (simp add: cache_window_eq fresh_cache_def Let_def py_tail_short left_pad_short)
next
  case False
  then have "length (py_tail W prompt) = W"
    using assms by (simp add: length_py_tail)
  with False assms show ?thesis
    by (simp add: cache_window_eq fresh_cache_def Let_def left_pad_long py_tail_def)
qed

section \<open>The update loop\<close>

lemma each_cache_lookup:
  assumes "distinct sids" "length toks = length sids"
  shows "\<exists>cs' m'. each_cache touch len sids toks (cs, m) = ((cs', m'), None) \<and>
    (\<forall>sid. map_of cs' sid = (case map_of (zip sids toks) sid of
       None \<Rightarrow> map_of cs sid | Some tok \<Rightarrow> map_option (touch tok) (map_of cs sid)))"
  using assms
proof (induction sids arbitrary: toks cs m)
  case Nil
  then show ?case by simp
next
  case (Cons sid sids)
  then obtain tok toks' where t: "toks = tok # toks'"
    by (cases toks) auto
  have fresh: "map_of (zip sids toks') sid = None"
    using Cons.prems t by simp
  show ?case
  proof (cases "map_of cs sid")
    case None
    from Cons.IH [of toks' cs m] Cons.prems t obtain cs' m' where
      "each_cache touch len sids toks' (cs, m) = ((cs', m'), None)"
      "\<forall>x. map_of cs' x = (case map_of (zip sids toks') x of
         None \<Rightarrow> map_of cs x | Some tok \<Rightarrow> map_option (touch tok) (map_of cs x))"
      by auto
    with None fresh t show ?thesis by auto
  next
    case (Some c)
    let ?cs = "AList.update sid (touch tok c) cs"
    from Cons.IH [of toks' ?cs "max m (len (touch tok c))"] Cons.prems t obtain cs' m' where
      "each_cache touch len sids toks' (?cs, max m (len (touch tok c))) = ((cs', m'), None)"
      "\<forall>x. map_of cs' x = (case map_of (zip sids toks') x of
         None \<Rightarrow> map_of ?cs x | Some tok \<Rightarrow> map_option (touch tok) (map_of ?cs x))"
      by auto
    with Some fresh t show ?thesis
      by (auto simp: Let_def update_conv' split: option.split)
  qed
qed

text \<open>Two update loops in lockstep.\<close>

definition caches_rel ::
    "(seq_cache \<Rightarrow> seq_cache \<Rightarrow> bool) \<Rightarrow> (nat \<times> seq_cache) list \<Rightarrow> (nat \<times> seq_cache) list \<Rightarrow> bool" where
  "caches_rel R cs ds \<longleftrightarrow> (\<forall>sid. rel_option R (map_of cs sid) (map_of ds sid))"

lemma caches_rel_update:
  "caches_rel R cs ds \<Longrightarrow> R c d \<Longrightarrow> caches_rel R (AList.update sid c cs) (AList.update sid d ds)"
  by (auto simp: caches_rel_def update_conv')

lemma each_cache_lockstep:
  assumes "caches_rel R cs ds" "\<And>t c d. R c d \<Longrightarrow> R (f t c) (g t d) \<and> len (f t c) = len' (g t d)"
  shows "caches_rel R (fst (fst (each_cache f len sids toks (cs, m)))) (fst (fst (each_cache g len' sids toks (ds, m)))) \<and>
    snd (fst (each_cache f len sids toks (cs, m))) = snd (fst (each_cache g len' sids toks (ds, m))) \<and>
    snd (each_cache f len sids toks (cs, m)) = snd (each_cache g len' sids toks (ds, m))"
  using assms(1)
proof (induction sids arbitrary: toks cs ds m)
  case Nil
  then show ?case by simp
next
  case (Cons sid sids)
  have r: "rel_option R (map_of cs sid) (map_of ds sid)"
    using Cons.prems by (simp add: caches_rel_def)
  show ?case
  proof (cases "map_of cs sid")
    case None
    with r Cons show ?thesis by simp
  next
    case (Some c)
    with r obtain d where d: "map_of ds sid = Some d" "R c d"
      by (auto simp: option_rel_Some1)
    show ?thesis
    proof (cases toks)
      case Nil
      with Some d Cons.prems show ?thesis by simp
    next
      case (Cons t ts)
      have "R (f t c) (g t d)" "len (f t c) = len' (g t d)"
        using assms(2) [OF d(2)] by blast+
      with Some d Cons Cons.prems Cons.IH show ?thesis
        by (simp add: Let_def caches_rel_update)
    qed
  qed
qed

section \<open>Deferred and immediate bookkeeping\<close>

text \<open>Two implementations in lockstep: a relation kept by every step that gives equal outputs.\<close>

locale lockstep =
  fixes rel :: "'a \<Rightarrow> 'b \<Rightarrow> bool"
    and good :: "'i \<Rightarrow> bool"
    and step :: "'i \<Rightarrow> 'a \<Rightarrow> 'a \<times> 'o"
    and step' :: "'i \<Rightarrow> 'b \<Rightarrow> 'b \<times> 'o"
  assumes step_rel: "rel a b \<Longrightarrow> good i \<Longrightarrow> rel (fst (step i a)) (fst (step' i b))"
    and step_out: "rel a b \<Longrightarrow> good i \<Longrightarrow> snd (step i a) = snd (step' i b)"
begin

lemma fold_rel:
  "rel a b \<Longrightarrow> list_all good is \<Longrightarrow>
   rel (fold (\<lambda>i a. fst (step i a)) is a) (fold (\<lambda>i b. fst (step' i b)) is b)"
  by (induction "is" arbitrary: a b) (simp_all add: step_rel)

lemma fold_out:
  "rel a b \<Longrightarrow> list_all good (is @ [i]) \<Longrightarrow>
   snd (step i (fold (\<lambda>i a. fst (step i a)) is a)) = snd (step' i (fold (\<lambda>i b. fst (step' i b)) is b))"
  by (intro step_out fold_rel) simp_all

end

text \<open>A decode step: clock, sequences, tokens.\<close>

type_synonym decode = "int \<times> nat list \<times> int list"

definition immediate_step :: "decode \<Rightarrow> sampler \<Rightarrow> sampler \<times> bool res" where
  "immediate_step d s = (case d of (now, sids, toks) \<Rightarrow> update_caches False now sids toks s)"

text \<open>The device update of the batch, then the host bookkeeping of every sequence.\<close>

definition deferred_step :: "decode \<Rightarrow> sampler \<Rightarrow> sampler \<times> bool res" where
  "deferred_step d s = (case d of (now, sids, toks) \<Rightarrow>
     (case update_caches_device_only now sids toks s of (s', flip) \<Rightarrow>
        (fold (\<lambda>(sid, tok) s. fst (archive_and_check_host False now sid [tok] s)) (zip sids toks) s', flip)))"

definition decode_ok :: "int \<Rightarrow> decode \<Rightarrow> bool" where
  "decode_ok eos = (\<lambda>(now, sids, toks). distinct sids \<and> length toks = length sids \<and> eos \<notin> set toks)"

text \<open>The device side of a cache lags behind only in the archive.\<close>

definition same_ring :: "seq_cache \<Rightarrow> seq_cache \<Rightarrow> bool" where
  "same_ring c d \<longleftrightarrow> ctx_ring c = ctx_ring d \<and> ring_pos c = ring_pos d \<and> ring_filled c = ring_filled d \<and>
     cache_prompt_len d + gen_count d = length (archive_list c)"

definition same_cache :: "seq_cache \<Rightarrow> seq_cache \<Rightarrow> bool" where
  "same_cache c d \<longleftrightarrow> same_ring c d \<and> archive_list c = archive_list d \<and> pad_mask_list c = pad_mask_list d"

definition deferred_rel :: "nat \<Rightarrow> int \<Rightarrow> sampler \<Rightarrow> sampler \<Rightarrow> bool" where
  "deferred_rel W eos s t \<longleftrightarrow> caches_rel same_cache (sm_caches s) (sm_caches t) \<and>
     sm_window s = W \<and> sm_window t = W \<and> sm_page_size s = sm_page_size t \<and> sm_prev_max s = sm_prev_max t \<and>
     sm_eos t = eos"

lemma touches_agree:
  "same_ring c d \<Longrightarrow> same_ring (touch_full W now t c) (touch_device W now t d) \<and>
    length (archive_list (touch_full W now t c)) = cache_prompt_len (touch_device W now t d) + gen_count (touch_device W now t d)"
  by (simp add: same_ring_def touch_full_def touch_device_def push_token_def archive_token_def)

lemma update_with_fst:
  "sm_caches (fst (update_with f len sids toks s)) = fst (fst (each_cache f len sids toks (sm_caches s, 1)))"
  "sm_window (fst (update_with f len sids toks s)) = sm_window s"
  "sm_page_size (fst (update_with f len sids toks s)) = sm_page_size s"
  "sm_eos (fst (update_with f len sids toks s)) = sm_eos s"
  by (simp_all add: update_with_def split: prod.split option.split)

lemma same_cache_ring: "caches_rel same_cache cs ds \<Longrightarrow> caches_rel same_ring cs ds"
  unfolding caches_rel_def using option.rel_mono_strong [of same_cache _ _ same_ring]
  by (metis same_cache_def)

text \<open>What the host bookkeeping of one token does to the caches when the token is not the end token.\<close>

lemma archive_one:
  assumes "tok \<noteq> sm_eos s"
  shows "sm_caches (fst (archive_and_check_host False now sid [tok] s)) =
    (case map_of (sm_caches s) sid of None \<Rightarrow> sm_caches s
     | Some c \<Rightarrow> AList.update sid ((archive_token tok c)\<lparr>last_updated := now\<rparr>) (sm_caches s))"
    "sm_window (fst (archive_and_check_host False now sid [tok] s)) = sm_window s"
    "sm_page_size (fst (archive_and_check_host False now sid [tok] s)) = sm_page_size s"
    "sm_prev_max (fst (archive_and_check_host False now sid [tok] s)) = sm_prev_max s"
    "sm_eos (fst (archive_and_check_host False now sid [tok] s)) = sm_eos s"
  using assms by (auto simp: archive_and_check_host_def Let_def split: option.split)

lemma archive_all:
  assumes "distinct sids" "length toks = length sids" "sm_eos s \<notin> set toks"
  shows "\<exists>s'. fold (\<lambda>(sid, tok) s. fst (archive_and_check_host False now sid [tok] s)) (zip sids toks) s = s' \<and>
    (\<forall>sid. map_of (sm_caches s') sid = (case map_of (zip sids toks) sid of None \<Rightarrow> map_of (sm_caches s) sid
       | Some tok \<Rightarrow> map_option (\<lambda>c. (archive_token tok c)\<lparr>last_updated := now\<rparr>) (map_of (sm_caches s) sid))) \<and>
    sm_window s' = sm_window s \<and> sm_page_size s' = sm_page_size s \<and> sm_prev_max s' = sm_prev_max s \<and>
    sm_eos s' = sm_eos s"
  using assms
proof (induction sids arbitrary: toks s)
  case Nil
  then show ?case by simp
next
  case (Cons sid sids)
  then obtain tok toks' where t: "toks = tok # toks'"
    by (cases toks) auto
  let ?s = "fst (archive_and_check_host False now sid [tok] s)"
  have ne: "tok \<noteq> sm_eos s"
    using Cons.prems t by auto
  note one = archive_one [OF ne, of now sid]
  have fresh: "map_of (zip sids toks') sid = None"
    using Cons.prems t by simp
  from Cons.IH [of toks' ?s] Cons.prems t one obtain s' where
    "fold (\<lambda>(sid, tok) s. fst (archive_and_check_host False now sid [tok] s)) (zip sids toks') ?s = s'"
    "\<forall>sid. map_of (sm_caches s') sid = (case map_of (zip sids toks') sid of None \<Rightarrow> map_of (sm_caches ?s) sid
       | Some tok \<Rightarrow> map_option (\<lambda>c. (archive_token tok c)\<lparr>last_updated := now\<rparr>) (map_of (sm_caches ?s) sid))"
    "sm_window s' = sm_window s" "sm_page_size s' = sm_page_size s" "sm_prev_max s' = sm_prev_max s" "sm_eos s' = sm_eos s"
    by auto
  then show ?case
    using fresh by (auto simp: t one(1) update_conv' split: option.split)
qed

lemma archived_same:
  assumes "same_cache c d"
  shows "same_cache (touch_full W now tok c) ((archive_token tok (touch_device W now tok d))\<lparr>last_updated := now\<rparr>)"
  using assms by (simp add: same_cache_def same_ring_def touch_full_def touch_device_def push_token_def archive_token_def)

lemma device_step:
  assumes "deferred_rel W eos s t" "distinct sids" "length toks = length sids"
  obtains cs ds m where
    "update_caches False now sids toks s = (s\<lparr>sm_caches := cs, sm_prev_max := m\<rparr>, Inr (page_flip (sm_page_size s) (sm_prev_max s) m))"
    "update_caches_device_only now sids toks t = (t\<lparr>sm_caches := ds, sm_prev_max := m\<rparr>, Inr (page_flip (sm_page_size s) (sm_prev_max s) m))"
    "\<forall>sid. map_of cs sid = (case map_of (zip sids toks) sid of
       None \<Rightarrow> map_of (sm_caches s) sid | Some tok \<Rightarrow> map_option (touch_full W now tok) (map_of (sm_caches s) sid))"
    "\<forall>sid. map_of ds sid = (case map_of (zip sids toks) sid of
       None \<Rightarrow> map_of (sm_caches t) sid | Some tok \<Rightarrow> map_option (touch_device W now tok) (map_of (sm_caches t) sid))"
proof -
  have ring: "caches_rel same_ring (sm_caches s) (sm_caches t)" and W: "sm_window s = W" "sm_window t = W"
    and eq: "sm_page_size s = sm_page_size t" "sm_prev_max s = sm_prev_max t"
    using assms(1) by (simp_all add: deferred_rel_def same_cache_ring)
  obtain cs m where full: "each_cache (touch_full W now) (\<lambda>c. length (archive_list c)) sids toks (sm_caches s, 1) = ((cs, m), None)"
    "\<forall>sid. map_of cs sid = (case map_of (zip sids toks) sid of
       None \<Rightarrow> map_of (sm_caches s) sid | Some tok \<Rightarrow> map_option (touch_full W now tok) (map_of (sm_caches s) sid))"
    using each_cache_lookup [OF assms(2,3), of "touch_full W now" "\<lambda>c. length (archive_list c)" "sm_caches s" 1] by blast
  obtain ds k where dev: "each_cache (touch_device W now) (\<lambda>c. cache_prompt_len c + gen_count c) sids toks (sm_caches t, 1) = ((ds, k), None)"
    "\<forall>sid. map_of ds sid = (case map_of (zip sids toks) sid of
       None \<Rightarrow> map_of (sm_caches t) sid | Some tok \<Rightarrow> map_option (touch_device W now tok) (map_of (sm_caches t) sid))"
    using each_cache_lookup [OF assms(2,3), of "touch_device W now" "\<lambda>c. cache_prompt_len c + gen_count c" "sm_caches t" 1] by blast
  have "k = m"
    using each_cache_lockstep [where f = "touch_full W now" and g = "touch_device W now" and
      len = "\<lambda>c. length (archive_list c)" and len' = "\<lambda>c. cache_prompt_len c + gen_count c" and
      sids = sids and toks = toks and m = 1, OF ring touches_agree] by (simp add: full(1) dev(1) del: One_nat_def)
  with full(1) dev(1) W eq
  have "update_caches False now sids toks s = (s\<lparr>sm_caches := cs, sm_prev_max := m\<rparr>, Inr (page_flip (sm_page_size s) (sm_prev_max s) m))"
    "update_caches_device_only now sids toks t = (t\<lparr>sm_caches := ds, sm_prev_max := m\<rparr>, Inr (page_flip (sm_page_size s) (sm_prev_max s) m))"
    by (simp_all add: update_caches_def update_caches_device_only_def update_with_def)
  then show thesis
    by (rule that) (rule full(2), rule dev(2))
qed

lemma deferred_step_rel:
  assumes "deferred_rel W eos s t" "decode_ok eos d"
  shows "deferred_rel W eos (fst (immediate_step d s)) (fst (deferred_step d t)) \<and>
    snd (immediate_step d s) = snd (deferred_step d t)"
proof -
  obtain now sids toks where d: "d = (now, sids, toks)"
    by (cases d) auto
  have ok: "distinct sids" "length toks = length sids" "eos \<notin> set toks"
    using assms(2) by (auto simp: decode_ok_def d)
  obtain cs ds m where step:
    "update_caches False now sids toks s = (s\<lparr>sm_caches := cs, sm_prev_max := m\<rparr>, Inr (page_flip (sm_page_size s) (sm_prev_max s) m))"
    "update_caches_device_only now sids toks t = (t\<lparr>sm_caches := ds, sm_prev_max := m\<rparr>, Inr (page_flip (sm_page_size s) (sm_prev_max s) m))"
    and cs: "\<forall>sid. map_of cs sid = (case map_of (zip sids toks) sid of
       None \<Rightarrow> map_of (sm_caches s) sid | Some tok \<Rightarrow> map_option (touch_full W now tok) (map_of (sm_caches s) sid))"
    and ds: "\<forall>sid. map_of ds sid = (case map_of (zip sids toks) sid of
       None \<Rightarrow> map_of (sm_caches t) sid | Some tok \<Rightarrow> map_option (touch_device W now tok) (map_of (sm_caches t) sid))"
    by (rule device_step [OF assms(1) ok(1,2)])
  let ?t = "t\<lparr>sm_caches := ds, sm_prev_max := m\<rparr>"
  have eos: "sm_eos ?t \<notin> set toks"
    using assms(1) ok(3) by (simp add: deferred_rel_def)
  define t' where "t' = fold (\<lambda>(sid, tok) s. fst (archive_and_check_host False now sid [tok] s)) (zip sids toks) ?t"
  have t': "\<forall>sid. map_of (sm_caches t') sid = (case map_of (zip sids toks) sid of None \<Rightarrow> map_of ds sid
       | Some tok \<Rightarrow> map_option (\<lambda>c. (archive_token tok c)\<lparr>last_updated := now\<rparr>) (map_of ds sid))"
    "sm_window t' = sm_window t" "sm_page_size t' = sm_page_size t" "sm_prev_max t' = m" "sm_eos t' = sm_eos t"
    using archive_all [OF ok(1,2) eos, of now] unfolding t'_def [symmetric] by (simp_all cong: option.case_cong)
  have "rel_option same_cache (map_of cs sid) (map_of (sm_caches t') sid)" for sid
  proof -
    have r: "rel_option same_cache (map_of (sm_caches s) sid) (map_of (sm_caches t) sid)"
      using assms(1) by (simp add: deferred_rel_def caches_rel_def)
    show ?thesis
    proof (cases "map_of (zip sids toks) sid")
      case None
      with r show ?thesis by (simp add: cs ds t'(1))
    next
      case (Some tok)
      have "rel_option same_cache (map_option (touch_full W now tok) (map_of (sm_caches s) sid))
        (map_option (\<lambda>c. (archive_token tok c)\<lparr>last_updated := now\<rparr>)
          (map_option (touch_device W now tok) (map_of (sm_caches t) sid)))"
        using r by (cases rule: option.rel_cases) (simp_all add: archived_same)
      then show ?thesis
        by (simp add: cs ds t'(1) Some)
    qed
  qed
  then have "caches_rel same_cache cs (sm_caches t')"
    by (simp add: caches_rel_def)
  then show ?thesis
    using assms(1) by (simp add: deferred_rel_def immediate_step_def deferred_step_def d step t' t'_def [symmetric])
qed

interpretation df: lockstep "deferred_rel W eos" "decode_ok eos" immediate_step deferred_step for W eos
  by unfold_locales (simp_all add: deferred_step_rel)

text \<open>The tokens a run of decode steps gives to one sequence, and the cache it leaves.\<close>

definition drawn :: "nat \<Rightarrow> decode list \<Rightarrow> int list" where
  "drawn sid ds = concat (map (\<lambda>(now, sids, toks). map snd (filter (\<lambda>(x, _). x = sid) (zip sids toks))) ds)"

definition cache_good :: "nat \<Rightarrow> int list \<Rightarrow> seq_cache \<Rightarrow> bool" where
  "cache_good W hist c \<longleftrightarrow> ring_ok W c \<and> archive_list c = hist \<and> cache_window c = left_pad W 0 hist \<and>
     pad_mask_list c = replicate (length hist) False"

lemma cache_good_fresh: "0 < W \<Longrightarrow> cache_good W prompt (fresh_cache W now prompt)"
  by (simp add: cache_good_def ring_ok_fresh cache_window_fresh) (simp add: fresh_cache_def Let_def)

lemma cache_good_touch:
  assumes "0 < W" "cache_good W hist c"
  shows "cache_good W (hist @ [tok]) (touch_full W now tok c)"
proof -
  obtain k where W: "W = Suc k"
    using assms(1) by (cases W) auto
  let ?c = "(archive_token tok c)\<lparr>last_updated := now\<rparr>"
  have c: "ring_ok W ?c" "cache_window ?c = left_pad W 0 hist"
    using assms(2) by (simp_all add: cache_good_def ring_ok_def archive_token_def cache_window_eq)
  have "cache_window (push_token W tok ?c) = left_pad W 0 (hist @ [tok])"
    using cw.window_pushes [of k ?c 0 hist "[tok]"] c W by simp
  then show ?thesis
    using assms(2) c cw.push_inv [of k ?c tok] W
    by (simp add: cache_good_def touch_full_def) (simp add: push_token_def archive_token_def replicate_append_same)
qed

lemma drawn_step:
  assumes "distinct sids" "length toks = length sids"
  shows "drawn sid [(now, sids, toks)] = (case map_of (zip sids toks) sid of None \<Rightarrow> [] | Some t \<Rightarrow> [t])"
  using assms
proof (induction sids arbitrary: toks)
  case Nil
  then show ?case by (simp add: drawn_def)
next
  case (Cons x sids)
  then obtain t ts where t: "toks = t # ts" by (cases toks) auto
  have "filter (\<lambda>(y, _). y = x) (zip sids ts) = []"
    using Cons.prems t by (auto simp: filter_empty_conv dest: set_zip_leftD)
  with Cons t show ?case by (auto simp: drawn_def)
qed

lemma immediate_cache:
  assumes "decode_ok eos d" "map_of (sm_caches s) sid = Some c" "cache_good W hist c" "sm_window s = W" "0 < W"
  shows "\<exists>c'. map_of (sm_caches (fst (immediate_step d s))) sid = Some c' \<and>
    cache_good W (hist @ drawn sid [d]) c' \<and> sm_window (fst (immediate_step d s)) = W"
proof -
  obtain now sids toks where d: "d = (now, sids, toks)"
    by (cases d) auto
  have ok: "distinct sids" "length toks = length sids"
    using assms(1) by (auto simp: decode_ok_def d)
  obtain cs m where cs: "each_cache (touch_full W now) (\<lambda>c. length (archive_list c)) sids toks (sm_caches s, 1) = ((cs, m), None)"
    "\<forall>sid. map_of cs sid = (case map_of (zip sids toks) sid of
       None \<Rightarrow> map_of (sm_caches s) sid | Some tok \<Rightarrow> map_option (touch_full W now tok) (map_of (sm_caches s) sid))"
    using each_cache_lookup [OF ok, of "touch_full W now" "\<lambda>c. length (archive_list c)" "sm_caches s" 1] by blast
  have s': "immediate_step d s = (s\<lparr>sm_caches := cs, sm_prev_max := m\<rparr>, Inr (page_flip (sm_page_size s) (sm_prev_max s) m))"
    using cs(1) assms(4) by (simp add: immediate_step_def d update_caches_def update_with_def)
  show ?thesis
  proof (cases "map_of (zip sids toks) sid")
    case None
    then show ?thesis
      using drawn_step [OF ok, of sid now] s' cs(2) assms(2-4) by (simp add: d)
  next
    case (Some t)
    then show ?thesis
      using drawn_step [OF ok, of sid now] s' cs(2) assms(2-4) cache_good_touch [OF assms(5,3), of t now]
      by (simp add: d)
  qed
qed

lemma immediate_run:
  assumes "list_all (decode_ok eos) ds" "map_of (sm_caches s) sid = Some c" "cache_good W hist c" "sm_window s = W" "0 < W"
  shows "\<exists>c'. map_of (sm_caches (fold (\<lambda>d s. fst (immediate_step d s)) ds s)) sid = Some c' \<and>
    cache_good W (hist @ drawn sid ds) c'"
  using assms(1-4)
proof (induction ds arbitrary: s c hist)
  case Nil
  then show ?case by (simp add: drawn_def)
next
  case (Cons d ds)
  then obtain c' where "map_of (sm_caches (fst (immediate_step d s))) sid = Some c'"
    "cache_good W (hist @ drawn sid [d]) c'" "sm_window (fst (immediate_step d s)) = W"
    using immediate_cache [of eos d s sid c W hist] assms(5) by auto
  with Cons.IH [of "fst (immediate_step d s)" c' "hist @ drawn sid [d]"] Cons.prems
  show ?case by (simp add: drawn_def)
qed

section \<open>Rows for a batch\<close>

text \<open>The rows of the manager are rows of the buffers.\<close>

definition pool_ok :: "sampler \<Rightarrow> bool" where
  "pool_ok s \<longleftrightarrow> rm_ok (sm_rows s) \<and> length (rb_rows (sm_rb s)) = max_rows (sm_rows s)"

lemma on_row_len: "length (rb_rows (fst (on_row r f b))) = length (rb_rows b)"
  by (simp add: on_row_frame)

lemma clear_row_len: "length (rb_rows (fst (clear_row r b))) = length (rb_rows b)"
  by (simp add: clear_row_def on_row_len split: option.split)

lemma write_params_len: "length (rb_rows (fst (write_pow_params r p b))) = length (rb_rows b)"
  by (simp add: write_pow_params_def on_row_len)

lemma on_rb_simps [simp]:
  "sm_rows (fst (on_rb f s)) = sm_rows s" "sm_params (fst (on_rb f s)) = sm_params s"
  "sm_caches (fst (on_rb f s)) = sm_caches s" "sm_window (fst (on_rb f s)) = sm_window s"
  "sm_rb (fst (on_rb f s)) = fst (f (sm_rb s))" "snd (on_rb f s) = snd (f (sm_rb s))"
  by (simp_all add: on_rb_def split: prod.split)

lemma forget_simps [simp]:
  "sm_rows (forget_sequence sid s) = sm_rows s" "sm_rb (forget_sequence sid s) = sm_rb s"
  "sm_window (forget_sequence sid s) = sm_window s"
  by (simp_all add: forget_sequence_def)

lemma free_row_bound: "rm_ok m \<Longrightarrow> snd (free_row m k) = Some r \<Longrightarrow> r < max_rows m"
  using get_row_bound [of m k r] by (auto simp: free_row_def get_row_def split: option.splits)

lemma free_row_max: "max_rows (fst (free_row m k)) = max_rows m"
  by (simp add: free_row_def split: option.split)

lemma allocate_row_max: "max_rows (fst (allocate_row m k)) = max_rows m"
  by (simp add: allocate_row_def split: option.split list.split)

lemma free_sequence_spec:
  assumes "pool_ok s"
  shows "snd (free_sequence sid s) = None \<and> pool_ok (fst (free_sequence sid s)) \<and>
    sm_rows (fst (free_sequence sid s)) = fst (free_row (sm_rows s) sid) \<and>
    sm_caches (fst (free_sequence sid s)) = AList.delete sid (sm_caches s) \<and>
    sm_params (fst (free_sequence sid s)) = AList.delete sid (sm_params s) \<and>
    sm_req_ids (fst (free_sequence sid s)) = filter (\<lambda>(rid, x). x \<noteq> sid) (sm_req_ids s) \<and>
    sm_rb (fst (free_sequence sid s)) = fst (clear_row (snd (free_row (sm_rows s) sid)) (sm_rb s))"
proof -
  obtain m row where fr: "free_row (sm_rows s) sid = (m, row)" by fastforce
  have "case row of None \<Rightarrow> True | Some r \<Rightarrow> r < length (rb_rows (sm_rb s))"
    using free_row_bound [of "sm_rows s" sid] fr assms by (auto simp: pool_ok_def split: option.split)
  then have "snd (clear_row row (sm_rb s)) = None"
    by (auto simp: clear_row_def on_row_def in_range_def act_pure_def split: option.splits)
  moreover have "rm_ok m" "max_rows m = max_rows (sm_rows s)"
    using free_ok [of "sm_rows s" sid] free_row_max [of "sm_rows s" sid] fr assms by (simp_all add: pool_ok_def)
  ultimately show ?thesis
    using assms by (simp add: free_sequence_def fr fst_act_then snd_act_then pool_ok_def clear_row_len)
      (simp add: forget_sequence_def on_rb_def split: prod.split)
qed


lemma freed_rows:
  assumes "get_row m k = Some r"
  shows "length (free_rows (fst (free_row m k))) = Suc (length (free_rows m))"
  using assms by (simp add: free_row_def get_row_def)

text \<open>Releasing a list of sequences that own rows.\<close>

lemma evict_all:
  assumes "pool_ok s" "distinct xs" "\<forall>x \<in> set xs. get_row (sm_rows s) x \<noteq> None"
  shows "snd (act_each free_sequence xs s) = None \<and> pool_ok (fst (act_each free_sequence xs s)) \<and>
    length (free_rows (sm_rows (fst (act_each free_sequence xs s)))) = length (free_rows (sm_rows s)) + length xs \<and>
    max_rows (sm_rows (fst (act_each free_sequence xs s))) = max_rows (sm_rows s) \<and>
    (\<forall>k. get_row (sm_rows (fst (act_each free_sequence xs s))) k =
       (if k \<in> set xs then None else get_row (sm_rows s) k)) \<and>
    (\<forall>k. map_of (sm_params (fst (act_each free_sequence xs s))) k =
       (if k \<in> set xs then None else map_of (sm_params s) k))"
  using assms
proof (induction xs arbitrary: s)
  case Nil
  then show ?case by (simp add: act_pure_def)
next
  case (Cons x xs)
  note spec = free_sequence_spec [OF Cons.prems(1), of x]
  let ?s = "fst (free_sequence x s)"
  have rows: "get_row (sm_rows ?s) k = (if k = x then None else get_row (sm_rows s) k)" for k
    using spec by (simp add: get_free)
  have "length (free_rows (sm_rows ?s)) = Suc (length (free_rows (sm_rows s)))"
    using spec freed_rows [of "sm_rows s" x] Cons.prems(3) by auto
  moreover have "max_rows (sm_rows ?s) = max_rows (sm_rows s)"
    using spec by (simp add: free_row_max)
  moreover have "map_of (sm_params ?s) k = (if k = x then None else map_of (sm_params s) k)" for k
    using spec by (simp add: delete_conv')
  moreover have "\<forall>y \<in> set xs. get_row (sm_rows ?s) y \<noteq> None"
    using Cons.prems(2,3) rows by auto
  moreover have "snd (free_sequence x s) = None" "pool_ok ?s" "distinct xs" "x \<notin> set xs"
    using spec Cons.prems(2) by auto
  ultimately show ?case
    using Cons.IH [of ?s] rows by (simp add: fst_act_then snd_act_then)
qed

text \<open>The jobs of the sequences decode, so that writing them to a row of the buffers does not raise.\<close>

definition jobs_ok :: "sampler \<Rightarrow> bool" where
  "jobs_ok s \<longleftrightarrow> (\<forall>sid ps j b r. map_of (sm_params s) sid = Some ps \<longrightarrow> sp_snapshot ps = Some j \<longrightarrow>
     in_range b r \<longrightarrow> snd (write_pow_params r (Some (pow_snapshot.truncate j)) b) = None)"

lemma setup_row_ok:
  assumes "pool_ok s" "jobs_ok s" "row < max_rows (sm_rows s)" "map_of prompts sid \<noteq> None"
  shows "snd (setup_row now prompts sid row s) = None \<and> pool_ok (fst (setup_row now prompts sid row s)) \<and>
    sm_rows (fst (setup_row now prompts sid row s)) = sm_rows s \<and>
    sm_params (fst (setup_row now prompts sid row s)) = sm_params s"
proof -
  obtain prompt where p: "map_of prompts sid = Some prompt"
    using assms(4) by auto
  have r: "in_range (sm_rb s) row"
    using assms(1,3) by (simp add: pool_ok_def in_range_def)
  have c: "snd (clear_row (Some row) (sm_rb s)) = None"
    using r by (simp add: clear_row_def on_row_def act_pure_def)
  have len: "length (rb_rows (fst (clear_row (Some row) (sm_rb s)))) = length (rb_rows (sm_rb s))"
    by (simp add: clear_row_len)
  have w: "snd (write_pow_params row (Some (pow_snapshot.truncate j)) (fst (clear_row (Some row) (sm_rb s)))) = None"
    if "map_of (sm_params s) sid = Some ps" "sp_snapshot ps = Some j" for ps j
    using assms(2) r that len by (auto simp: jobs_ok_def in_range_def)
  let ?s = "init_sequence_cache now sid prompt (fst (on_rb (clear_row (Some row)) s))"
  have s: "sm_rows ?s = sm_rows s" "sm_params ?s = sm_params s" "sm_rb ?s = fst (clear_row (Some row) (sm_rb s))"
    by (simp_all add: init_sequence_cache_def)
  show ?thesis
    using assms(1) c w len s
    by (auto simp: setup_row_def fst_act_then snd_act_then p key_def pool_ok_def write_params_len
        split: option.split)
qed

lemma allocate_free:
  assumes "get_row m k = None" "free_rows m \<noteq> []"
  obtains r where "snd (allocate_row m k) = Some r" "length (free_rows m) = Suc (length (free_rows (fst (allocate_row m k))))"
  using assms by (cases "free_rows m") (auto simp: allocate_row_def get_row_def)

lemma ensure_row_ok:
  assumes "pool_ok s" "jobs_ok s" "get_row (sm_rows s) sid = None \<longrightarrow> free_rows (sm_rows s) \<noteq> [] \<and> map_of prompts sid \<noteq> None"
  shows "snd (ensure_row now prompts sid s) = None \<and> pool_ok (fst (ensure_row now prompts sid s)) \<and>
    jobs_ok (fst (ensure_row now prompts sid s)) \<and>
    get_row (sm_rows (fst (ensure_row now prompts sid s))) sid \<noteq> None \<and>
    (\<forall>k. k \<noteq> sid \<or> get_row (sm_rows s) sid \<noteq> None \<longrightarrow>
       get_row (sm_rows (fst (ensure_row now prompts sid s))) k = get_row (sm_rows s) k) \<and>
    length (free_rows (sm_rows s)) = length (free_rows (sm_rows (fst (ensure_row now prompts sid s)))) +
      (if get_row (sm_rows s) sid = None then 1 else 0)"
proof (cases "get_row (sm_rows s) sid")
  case (Some r)
  with assms show ?thesis by (simp add: ensure_row_def)
next
  case None
  with assms(3) obtain r where r: "snd (allocate_row (sm_rows s) sid) = Some r"
    "length (free_rows (sm_rows s)) = Suc (length (free_rows (fst (allocate_row (sm_rows s) sid))))"
    using allocate_free by metis
  let ?m = "fst (allocate_row (sm_rows s) sid)" and ?s = "s\<lparr>sm_rows := fst (allocate_row (sm_rows s) sid)\<rparr>"
  have m: "rm_ok ?m" "max_rows ?m = max_rows (sm_rows s)"
    using allocate_ok [of "sm_rows s" sid] assms(1) by (simp_all add: pool_ok_def allocate_row_max)
  have rows: "get_row ?m k = (if k = sid then Some r else get_row (sm_rows s) k)" for k
    using r(1) by (simp add: get_allocate)
  have "pool_ok ?s" "jobs_ok ?s"
    using m assms(1,2) by (simp_all add: pool_ok_def jobs_ok_def)
  moreover have "r < max_rows (sm_rows ?s)"
    using get_row_bound [OF m(1), of sid r] rows by simp
  ultimately have "snd (setup_row now prompts sid r ?s) = None \<and> pool_ok (fst (setup_row now prompts sid r ?s)) \<and>
    sm_rows (fst (setup_row now prompts sid r ?s)) = ?m \<and> sm_params (fst (setup_row now prompts sid r ?s)) = sm_params s"
    using setup_row_ok [of ?s r prompts sid now] assms(3) None by simp
  moreover have "ensure_row now prompts sid s = setup_row now prompts sid r ?s"
    using None r(1) by (cases "allocate_row (sm_rows s) sid") (simp add: ensure_row_def try_allocate_def)
  ultimately show ?thesis
    using assms(2) None r(2) rows by (simp add: jobs_ok_def)
qed

text \<open>With a free row for every new sequence the allocation of a batch never evicts.\<close>

definition new_sids :: "nat list \<Rightarrow> nat row_manager \<Rightarrow> nat list" where
  "new_sids batch m = remdups (filter (\<lambda>sid. get_row m sid = None) batch)"

lemma new_sids_update:
  assumes "get_row m' sid \<noteq> None" "\<forall>k. k \<noteq> sid \<or> get_row m sid \<noteq> None \<longrightarrow> get_row m' k = get_row m k"
  shows "length (new_sids (sid # batch) m) = length (new_sids batch m') + (if get_row m sid = None then 1 else 0)"
proof -
  have card: "length (new_sids xs m) = card {x \<in> set xs. get_row m x = None}" for xs m
    by (simp add: new_sids_def length_remdups_card_conv)
  show ?thesis
  proof (cases "get_row m sid = None")
    case True
    have "{x \<in> set (sid # batch). get_row m x = None} = insert sid {x \<in> set batch. get_row m' x = None}"
      using assms True by auto (metis)+
    moreover have "sid \<notin> {x \<in> set batch. get_row m' x = None}"
      using assms(1) by simp
    ultimately show ?thesis
      using True by (simp add: card)
  next
    case False
    then have "{x \<in> set (sid # batch). get_row m x = None} = {x \<in> set batch. get_row m' x = None}"
      using assms by auto
    with False show ?thesis by (simp add: card)
  qed
qed

lemma ensure_rows_ok:
  assumes "pool_ok s" "jobs_ok s" "length (new_sids batch (sm_rows s)) \<le> length (free_rows (sm_rows s))"
    "\<forall>sid \<in> set batch. get_row (sm_rows s) sid = None \<longrightarrow> map_of prompts sid \<noteq> None"
  shows "snd (ensure_rows now prompts batch s) = None \<and> pool_ok (fst (ensure_rows now prompts batch s)) \<and>
    (\<forall>sid \<in> set batch. get_row (sm_rows (fst (ensure_rows now prompts batch s))) sid \<noteq> None) \<and>
    (\<forall>k r. get_row (sm_rows s) k = Some r \<longrightarrow> get_row (sm_rows (fst (ensure_rows now prompts batch s))) k = Some r)"
  using assms unfolding ensure_rows_def
proof (induction batch arbitrary: s)
  case Nil
  then show ?case by simp
next
  case (Cons sid batch)
  let ?s = "fst (ensure_row now prompts sid s)"
  have "free_rows (sm_rows s) \<noteq> []" if "get_row (sm_rows s) sid = None"
  proof -
    have "sid \<in> set (new_sids (sid # batch) (sm_rows s))"
      using that by (simp add: new_sids_def)
    then show ?thesis
      using Cons.prems(3) by (auto dest: length_pos_if_in_set)
  qed
  then have row: "snd (ensure_row now prompts sid s) = None" "pool_ok ?s" "jobs_ok ?s"
    "get_row (sm_rows ?s) sid \<noteq> None"
    "\<forall>k. k \<noteq> sid \<or> get_row (sm_rows s) sid \<noteq> None \<longrightarrow> get_row (sm_rows ?s) k = get_row (sm_rows s) k"
    "length (free_rows (sm_rows s)) = length (free_rows (sm_rows ?s)) + (if get_row (sm_rows s) sid = None then 1 else 0)"
    using ensure_row_ok [OF Cons.prems(1,2), of sid prompts now] Cons.prems(4) by auto
  have "length (new_sids batch (sm_rows ?s)) \<le> length (free_rows (sm_rows ?s))"
    using new_sids_update [OF row(4,5), of batch] row(6) Cons.prems(3) by simp
  moreover have "\<forall>x \<in> set batch. get_row (sm_rows ?s) x = None \<longrightarrow> map_of prompts x \<noteq> None"
    using Cons.prems(4) row(4,5) by (metis list.set_intros(2))
  ultimately have ih: "snd (act_each (ensure_row now prompts) batch ?s) = None \<and>
      pool_ok (fst (act_each (ensure_row now prompts) batch ?s)) \<and>
      (\<forall>x \<in> set batch. get_row (sm_rows (fst (act_each (ensure_row now prompts) batch ?s))) x \<noteq> None) \<and>
      (\<forall>k r. get_row (sm_rows ?s) k = Some r \<longrightarrow>
        get_row (sm_rows (fst (act_each (ensure_row now prompts) batch ?s))) k = Some r)"
    using Cons.IH [of ?s] row(2,3) by blast
  have keep: "get_row (sm_rows ?s) k = Some r" if "get_row (sm_rows s) k = Some r" for k r
    using row(5) that by (metis option.distinct(1))
  show ?case
    using ih row(1,4) keep by (auto simp: fst_act_then snd_act_then)
qed

lemma rm_counts:
  assumes "rm_ok m"
  shows "length (seqid_to_row m) + length (free_rows m) = max_rows m"
proof -
  have "length (map snd (seqid_to_row m) @ free_rows m) = card (set (map snd (seqid_to_row m) @ free_rows m))"
    using assms by (intro distinct_card [symmetric]) (simp add: rm_ok_def)
  also have "\<dots> = max_rows m"
    using assms by (simp add: rm_ok_def)
  finally show ?thesis by simp
qed

lemma get_row_Some_iff: "rm_ok m \<Longrightarrow> get_row m k = Some r \<longleftrightarrow> (k, r) \<in> set (seqid_to_row m)"
  by (simp add: get_row_def rm_ok_def)

lemma owned_count:
  assumes "rm_ok m"
  shows "card {k \<in> set batch. get_row m k \<noteq> None} = length (filter (\<lambda>(k, r). k \<in> set batch) (seqid_to_row m))"
proof -
  have d: "distinct (map fst (filter (\<lambda>(k, r). k \<in> set batch) (seqid_to_row m)))"
    using assms by (simp add: rm_ok_def distinct_map_filter)
  have "{k \<in> set batch. get_row m k \<noteq> None} = fst ` set (filter (\<lambda>(k, r). k \<in> set batch) (seqid_to_row m))"
    using get_row_Some_iff [OF assms] by force
  then show ?thesis
    using distinct_card [OF d] by simp
qed

lemma shortage:
  assumes "rm_ok (sm_rows s)" "card (set batch) \<le> max_rows (sm_rows s)"
  shows "length (new_sids batch (sm_rows s)) \<le> length (free_rows (sm_rows s)) + length (victims batch s)"
proof -
  let ?m = "sm_rows s"
  have "card (set batch) = card {k \<in> set batch. get_row ?m k = None} + card {k \<in> set batch. get_row ?m k \<noteq> None}"
    by (subst card_Un_disjoint [symmetric]) (auto intro: arg_cong [where f = card])
  moreover have "length (new_sids batch ?m) = card {k \<in> set batch. get_row ?m k = None}"
    by (simp add: new_sids_def length_remdups_card_conv)
  moreover have "length (filter (\<lambda>(k, r). k \<in> set batch) (seqid_to_row ?m)) + length (victims batch s) = length (seqid_to_row ?m)"
    unfolding victims_def case_prod_unfold by (rule sum_length_filter_compl)
  ultimately show ?thesis
    using owned_count [OF assms(1), of batch] rm_counts [OF assms(1)] assms(2) by linarith
qed

lemma victims_distinct: "rm_ok (sm_rows s) \<Longrightarrow> distinct (map fst (victims batch s))"
  by (simp add: victims_def rm_ok_def distinct_map_filter)

lemma new_sids_cong: "(\<And>k. k \<in> set batch \<Longrightarrow> get_row m' k = get_row m k) \<Longrightarrow> new_sids batch m' = new_sids batch m"
  by (simp add: new_sids_def cong: filter_cong)

lemma pre_evict_ok:
  assumes "pool_ok s" "card (set batch) \<le> max_rows (sm_rows s)"
  shows "snd (pre_evict batch s) = None \<and> pool_ok (fst (pre_evict batch s)) \<and>
    length (new_sids batch (sm_rows (fst (pre_evict batch s)))) \<le> length (free_rows (sm_rows (fst (pre_evict batch s)))) \<and>
    (\<forall>k \<in> set batch. get_row (sm_rows (fst (pre_evict batch s))) k = get_row (sm_rows s) k) \<and>
    (\<forall>k. map_of (sm_params (fst (pre_evict batch s))) k \<in> {None, map_of (sm_params s) k})"
proof -
  have ok: "rm_ok (sm_rows s)" "length (rb_rows (sm_rb s)) = max_rows (sm_rows s)"
    using assms(1) by (auto simp: pool_ok_def)
  let ?vs = "victims batch s"
  let ?need = "length (new_sids batch (sm_rows s))"
  let ?short = "int ?need - int (length (free_rows (sm_rows s)))"
  let ?order = "sort_key (\<lambda>v. fst (victim_rank s v)) (sort_key (\<lambda>v. snd (victim_rank s v)) ?vs)"
  let ?out = "map fst (take (nat ?short) ?order)"
  show ?thesis
  proof (cases "?short > 0 \<and> ?vs \<noteq> []")
    case False
    then have pe: "pre_evict batch s = (s, None)"
      by (auto simp: pre_evict_def Let_def new_sids_def)
    have "?need \<le> length (free_rows (sm_rows s))"
      using False shortage [OF ok(1) assms(2)] by auto
    with pe assms(1) show ?thesis by simp
  next
    case True
    have range: "\<not> (\<exists>(_, r) \<in> set ?vs. \<not> in_range (sm_rb s) r)"
    proof -
      have "r < max_rows (sm_rows s)" if "(k, r) \<in> set ?vs" for k r
      proof -
        have "get_row (sm_rows s) k = Some r"
          using that by (simp add: victims_def get_row_Some_iff [OF ok(1)])
        then show ?thesis by (rule get_row_bound [OF ok(1)])
      qed
      then show ?thesis
        using ok(2) by (auto simp: in_range_def)
    qed
    have each: "act_each (\<lambda>v. free_sequence (fst v)) xs t = act_each free_sequence (map fst xs) t"
      for xs :: "(nat \<times> nat) list" and t
    proof -
      have "act_each (\<lambda>v. free_sequence (fst v)) xs = act_each free_sequence (map fst xs)"
        by (induction xs) simp_all
      then show ?thesis by simp
    qed
    have pe: "pre_evict batch s = act_each free_sequence ?out s"
      using True range by (simp add: pre_evict_def Let_def new_sids_def each)
    have set: "set ?out \<subseteq> fst ` set ?vs"
      using set_take_subset [of "nat ?short" ?order] by auto
    have "distinct (map fst ?order)"
      using victims_distinct [OF ok(1), of batch] by (simp add: distinct_map)
    then have dist: "distinct ?out"
      by (simp add: take_map [symmetric] distinct_take)
    have ow: "get_row (sm_rows s) k \<noteq> None \<and> k \<notin> set batch" if k: "k \<in> set ?out" for k
    proof -
      obtain r where "(k, r) \<in> set ?vs"
        using subsetD [OF set k] by auto
      then have "(k, r) \<in> set (seqid_to_row (sm_rows s))" "k \<notin> set batch"
        by (simp_all add: victims_def)
      then show ?thesis
        using get_row_Some_iff [OF ok(1), of k r] by simp
    qed
    then have owned: "\<forall>k \<in> set ?out. get_row (sm_rows s) k \<noteq> None" and out: "\<forall>k \<in> set ?out. k \<notin> set batch"
      by blast+
    note ev = evict_all [OF assms(1) dist]
    let ?t = "fst (act_each free_sequence ?out s)"
    have t: "snd (act_each free_sequence ?out s) = None" "pool_ok ?t"
      "length (free_rows (sm_rows ?t)) = length (free_rows (sm_rows s)) + length ?out"
      "\<forall>k. get_row (sm_rows ?t) k = (if k \<in> set ?out then None else get_row (sm_rows s) k)"
      "\<forall>k. map_of (sm_params ?t) k = (if k \<in> set ?out then None else map_of (sm_params s) k)"
      using ev [OF owned] by blast+
    have same: "get_row (sm_rows ?t) k = get_row (sm_rows s) k" if "k \<in> set batch" for k
      using t(4) out that by auto
    have new: "new_sids batch (sm_rows ?t) = new_sids batch (sm_rows s)"
      by (intro new_sids_cong) (simp only: same)
    have len: "length ?out = nat ?short"
      using shortage [OF ok(1) assms(2)] True by simp
    have "length (new_sids batch (sm_rows ?t)) \<le> length (free_rows (sm_rows ?t))"
      unfolding new t(3) len by linarith
    then show ?thesis
      unfolding pe using t(1,2,5) same by auto
  qed
qed


lemma forward_rows_ok:
  assumes "pool_ok s" "jobs_ok s" "card (set batch) \<le> max_rows (sm_rows s)"
    "\<forall>sid \<in> set batch. get_row (sm_rows s) sid = None \<longrightarrow> map_of prompts sid \<noteq> None"
  shows "snd (forward_rows now prompts batch s) = None \<and> pool_ok (fst (forward_rows now prompts batch s)) \<and>
    (\<forall>sid \<in> set batch. get_row (sm_rows (fst (forward_rows now prompts batch s))) sid \<noteq> None) \<and>
    (\<forall>sid \<in> set batch. \<forall>r. get_row (sm_rows s) sid = Some r \<longrightarrow>
       get_row (sm_rows (fst (forward_rows now prompts batch s))) sid = Some r)"
proof -
  let ?t = "fst (pre_evict batch s)"
  have pe: "snd (pre_evict batch s) = None" "pool_ok ?t"
    "length (new_sids batch (sm_rows ?t)) \<le> length (free_rows (sm_rows ?t))"
    "\<forall>k \<in> set batch. get_row (sm_rows ?t) k = get_row (sm_rows s) k"
    "\<forall>k. map_of (sm_params ?t) k \<in> {None, map_of (sm_params s) k}"
    using pre_evict_ok [OF assms(1,3)] by blast+
  have "jobs_ok ?t"
    using assms(2) pe(5) unfolding jobs_ok_def by (metis insertE option.distinct(1) singletonD)
  moreover have "\<forall>sid \<in> set batch. get_row (sm_rows ?t) sid = None \<longrightarrow> map_of prompts sid \<noteq> None"
    using assms(4) pe(4) by simp
  ultimately have "snd (ensure_rows now prompts batch ?t) = None \<and> pool_ok (fst (ensure_rows now prompts batch ?t)) \<and>
    (\<forall>sid \<in> set batch. get_row (sm_rows (fst (ensure_rows now prompts batch ?t))) sid \<noteq> None) \<and>
    (\<forall>k r. get_row (sm_rows ?t) k = Some r \<longrightarrow> get_row (sm_rows (fst (ensure_rows now prompts batch ?t))) k = Some r)"
    by (intro ensure_rows_ok pe(2,3))
  then show ?thesis
    using pe(1,4) by (simp add: forward_rows_def fst_act_then snd_act_then)
qed

section \<open>Finished windows\<close>

lemma map_filter_total: "\<forall>x \<in> set xs. f x \<noteq> None \<Longrightarrow> List.map_filter f xs = map (\<lambda>x. the (f x)) xs"
  by (induction xs) (auto simp: List.map_filter_simps)

lemma concat_if_filter: "concat (map (\<lambda>x. if P x then [f x] else []) xs) = map f (filter P xs)"
  by (induction xs) auto

lemma solutions_agree:
  assumes "\<forall>sid \<in> set sids. \<exists>r. get_row (sm_rows s) sid = Some r \<and> in_range (sm_rb s) r"
    "\<forall>r. in_range (sm_rb s) r \<longrightarrow> steps_host (rb_rows (sm_rb s) ! r) = steps (rb_rows (sm_rb s) ! r)"
  shows "check_solutions_device s sids = check_solutions_host s sids"
    "check_solutions_host s sids = Inr (map (\<lambda>sid. (sid, the (get_row (sm_rows s) sid)))
       (filter (\<lambda>sid. window_done (sm_window s) (steps (rb_rows (sm_rb s) ! the (get_row (sm_rows s) sid)))) sids))"
proof -
  let ?row = "\<lambda>sid. the (get_row (sm_rows s) sid)"
  let ?done = "\<lambda>sid. window_done (sm_window s) (steps (rb_rows (sm_rb s) ! ?row sid))"
  have rows: "List.map_filter (get_row (sm_rows s)) sids = map ?row sids"
    using assms(1) by (intro map_filter_total) auto
  have range: "\<not> (\<exists>r \<in> set (map ?row sids). \<not> in_range (sm_rb s) r)"
    using assms(1) by auto
  have "mapr (\<lambda>sid. case get_row (sm_rows s) sid of None \<Rightarrow> Inr [] | Some row \<Rightarrow>
      if in_range (sm_rb s) row
      then Inr (if window_done (sm_window s) (steps_host (rb_rows (sm_rb s) ! row)) then [(sid, row)] else [])
      else Inl IndexError) sids = Inr (map (\<lambda>sid. if ?done sid then [(sid, ?row sid)] else []) sids)"
    using assms by (intro mapr_Inr) fastforce
  then show host: "check_solutions_host s sids = Inr (map (\<lambda>sid. (sid, ?row sid)) (filter ?done sids))"
    by (simp add: check_solutions_host_def concat_if_filter)
  have "map (\<lambda>i. (sids ! i, ?row (sids ! i))) (filter (\<lambda>i. ?done (sids ! i)) [0..<length sids]) =
      map (\<lambda>sid. (sid, ?row sid)) (filter ?done sids)"
  proof -
    have "filter ?done sids = filter ?done (map (\<lambda>i. sids ! i) [0..<length sids])"
      by (simp add: map_nth)
    also have "\<dots> = map (\<lambda>i. sids ! i) (filter (\<lambda>i. ?done (sids ! i)) [0..<length sids])"
      by (simp add: filter_map comp_def)
    finally show ?thesis by simp
  qed
  moreover have "map (\<lambda>i. (sids ! i, map ?row sids ! i)) (filter (\<lambda>i. map ?done sids ! i) [0..<length sids]) =
      map (\<lambda>i. (sids ! i, ?row (sids ! i))) (filter (\<lambda>i. ?done (sids ! i)) [0..<length sids])"
    by (intro map_cong filter_cong) auto
  ultimately show "check_solutions_device s sids = check_solutions_host s sids"
    unfolding host check_solutions_device_def rows Let_def using range
    by (auto simp: comp_def)
qed

section \<open>Released and stale sequences\<close>

lemma free_all:
  assumes "pool_ok s"
  shows "snd (act_each free_sequence xs s) = None \<and> pool_ok (fst (act_each free_sequence xs s)) \<and>
    (\<forall>k. get_row (sm_rows (fst (act_each free_sequence xs s))) k =
       (if k \<in> set xs then None else get_row (sm_rows s) k)) \<and>
    (\<forall>k. map_of (sm_caches (fst (act_each free_sequence xs s))) k =
       (if k \<in> set xs then None else map_of (sm_caches s) k)) \<and>
    (\<forall>k. map_of (sm_params (fst (act_each free_sequence xs s))) k =
       (if k \<in> set xs then None else map_of (sm_params s) k)) \<and>
    sm_req_ids (fst (act_each free_sequence xs s)) = filter (\<lambda>(rid, x). x \<notin> set xs) (sm_req_ids s)"
  using assms
proof (induction xs arbitrary: s)
  case Nil
  then show ?case by simp
next
  case (Cons x xs)
  note spec = free_sequence_spec [OF Cons.prems, of x]
  let ?s = "fst (free_sequence x s)"
  have eff: "get_row (sm_rows ?s) k = (if k = x then None else get_row (sm_rows s) k)"
    "map_of (sm_caches ?s) k = (if k = x then None else map_of (sm_caches s) k)"
    "map_of (sm_params ?s) k = (if k = x then None else map_of (sm_params s) k)"
    "sm_req_ids ?s = filter (\<lambda>(rid, y). y \<noteq> x) (sm_req_ids s)" for k
    using spec by (simp_all add: get_free delete_conv')
  have "filter (\<lambda>(rid, y). y \<notin> set xs) (sm_req_ids ?s) = filter (\<lambda>(rid, y). y \<notin> set (x # xs)) (sm_req_ids s)"
    unfolding eff(4) filter_filter by (rule filter_cong) auto
  then show ?case
    using Cons.IH [of ?s] spec eff(1-3) by (simp add: fst_act_then snd_act_then)
qed

text \<open>The row of another sequence survives the release of a sequence.\<close>

lemma free_other_row:
  assumes "pool_ok s" "get_row (sm_rows s) b = Some r" "a \<noteq> b"
  shows "get_row (sm_rows (fst (free_sequence a s))) b = Some r \<and>
    rb_rows (sm_rb (fst (free_sequence a s))) ! r = rb_rows (sm_rb s) ! r"
proof -
  have ok: "rm_ok (sm_rows s)"
    using assms(1) by (simp add: pool_ok_def)
  have "snd (free_row (sm_rows s) a) = get_row (sm_rows s) a"
    by (simp add: free_row_def get_row_def split: option.split)
  moreover have "get_row (sm_rows s) a \<noteq> Some r"
    using get_row_inj [OF ok] assms(2,3) by blast
  ultimately have "rb_rows (fst (clear_row (snd (free_row (sm_rows s) a)) (sm_rb s))) ! r = rb_rows (sm_rb s) ! r"
    by (auto simp: clear_row_def on_row_frame split: option.split)
  then show ?thesis
    using free_sequence_spec [OF assms(1), of a] assms(2,3) by (simp add: get_free)
qed

section \<open>Properties\<close>

text \<open>C7: the context of a sequence is its recent history: after its cache is initialised with a
  prompt, whatever batches of distinct sequences are drawn, \<^verbatim>\<open>get_context_windows\<close> returns the last
  \<open>W\<close> tokens of the prompt followed by the tokens drawn for it, padded with zeros on the left.\<close>

theorem context_is_recent_history:
  assumes "0 < sm_window s" "list_all (decode_ok eos) ds"
  shows "get_context_windows (fold (\<lambda>d s. fst (immediate_step d s)) ds (init_sequence_cache now sid prompt s)) [sid] =
    Inr [left_pad (sm_window s) 0 (prompt @ drawn sid ds)]"
proof -
  let ?s = "init_sequence_cache now sid prompt s"
  have "map_of (sm_caches ?s) sid = Some (fresh_cache (sm_window s) now prompt)" "sm_window ?s = sm_window s"
    by (simp_all add: init_sequence_cache_def update_conv')
  from immediate_run [OF assms(2) this(1) cache_good_fresh [OF assms(1)] this(2) assms(1)]
  obtain c where "map_of (sm_caches (fold (\<lambda>d s. fst (immediate_step d s)) ds ?s)) sid = Some c"
    "cache_good (sm_window s) (prompt @ drawn sid ds) c"
    by auto
  then show ?thesis
    by (simp add: get_context_windows_def key_def cache_good_def)
qed

theorem context_is_recent_history_witness:
  "get_context_windows (fold (\<lambda>d s. fst (immediate_step d s)) [(1, [7, 3], [11, 5]), (2, [3, 7], [6, 12])]
      (init_sequence_cache 0 7 [1, 2, 3] (sampler_init 4 2 99 False 0))) [7] = Inr [[2, 3, 11, 12]]"
proof -
  have "0 < sm_window (sampler_init 4 2 99 False 0)"
    by (simp add: sampler_init_def)
  moreover have "list_all (decode_ok 99) [(1, [7, 3], [11, 5]), (2, [3, 7], [6, 12])]"
    by (simp add: decode_ok_def)
  ultimately show ?thesis
    using context_is_recent_history [of "sampler_init 4 2 99 False 0" 99 "[(1, [7, 3], [11, 5]), (2, [3, 7], [6, 12])]"
        0 7 "[1, 2, 3]"]
    by (simp add: drawn_def sampler_init_def left_pad_def)
qed



text \<open>A sampler with window 1 and two sequences, the second of which has just finished a window.\<close>

definition demo_finished :: sampler where
  "demo_finished = (sampler_init 1 2 99 True 0)
     \<lparr>sm_rows := fst (allocate_row (fst (allocate_row (rm_init 2) 7)) 8),
      sm_caches := [(7, fresh_cache 1 0 []), (8, fresh_cache 1 90 [])],
      sm_rb := fst (record_batch [1] [blank_slot] (Some [1]) (rb_init 1 2 True))\<rparr>"

lemma demo_finished:
  "pool_ok demo_finished" "rb_ok (sm_rb demo_finished)" "steps_host_ok (sm_rb demo_finished)"
  "get_row (sm_rows demo_finished) 7 = Some 0" "get_row (sm_rows demo_finished) 8 = Some 1"
  "steps (rb_rows (sm_rb demo_finished) ! 1) = 1" "steps_host (rb_rows (sm_rb demo_finished) ! 1) = 1"
  "steps (rb_rows (sm_rb demo_finished) ! 0) = 0" "sm_window demo_finished = 1" "sm_eos demo_finished = 99"
proof -
  have rb: "sm_rb demo_finished = fst (record_batch [1] [blank_slot] (Some [1]) (rb_init 1 2 True))"
    by (simp add: demo_finished_def)
  have reach: "rb_reach 1 2 True (sm_rb demo_finished)"
    unfolding rb by (rule rb_reach.step [OF rb_reach.init rb_step.batch]) (simp_all add: in_range_def rb_init_def)
  show "rb_ok (sm_rb demo_finished)"
    by (rule rb_reach_ok [OF reach])
  have "rm_ok (sm_rows demo_finished)"
    by (simp add: demo_finished_def allocate_ok rm_ok_init)
  moreover have "max_rows (sm_rows demo_finished) = 2"
    by (simp add: demo_finished_def allocate_row_max) (simp add: rm_init_def)
  ultimately show "pool_ok demo_finished"
    using rb_dims [OF reach] by (simp add: pool_ok_def)
  have "steps_host_ok (sm_rb demo_finished) \<and> get_row (sm_rows demo_finished) 7 = Some 0 \<and>
      get_row (sm_rows demo_finished) 8 = Some 1 \<and>
      map (\<lambda>w. (steps w, steps_host w)) (rb_rows (sm_rb demo_finished)) = [(0, 0), (1, 1)] \<and>
      sm_window demo_finished = 1 \<and> sm_eos demo_finished = 99"
    by code_simp
  then show "steps_host_ok (sm_rb demo_finished)" "get_row (sm_rows demo_finished) 7 = Some 0"
    "get_row (sm_rows demo_finished) 8 = Some 1" "steps (rb_rows (sm_rb demo_finished) ! 1) = 1"
    "steps_host (rb_rows (sm_rb demo_finished) ! 1) = 1" "steps (rb_rows (sm_rb demo_finished) ! 0) = 0"
    "sm_window demo_finished = 1" "sm_eos demo_finished = 99"
    by auto
qed

text \<open>Every sequence of a batch gets its row: when the batch fits into the pool, the release of
  rows before the allocation leaves a free row for every new sequence, nothing is evicted that is in
  the batch, no sequence of the batch loses its row, and nothing raises as long as the jobs decode.\<close>

theorem batch_gets_rows:
  assumes "pool_ok s" "jobs_ok s" "card (set batch) \<le> max_rows (sm_rows s)"
    "\<forall>sid \<in> set batch. get_row (sm_rows s) sid = None \<longrightarrow> map_of prompts sid \<noteq> None"
  shows "snd (forward_rows now prompts batch s) = None \<and> pool_ok (fst (forward_rows now prompts batch s)) \<and>
    (\<forall>sid \<in> set batch. get_row (sm_rows (fst (forward_rows now prompts batch s))) sid \<noteq> None) \<and>
    (\<forall>sid \<in> set batch. \<forall>r. get_row (sm_rows s) sid = Some r \<longrightarrow>
       get_row (sm_rows (fst (forward_rows now prompts batch s))) sid = Some r)"
  by (rule forward_rows_ok [OF assms])

theorem batch_gets_rows_witness:
  "get_row (sm_rows (fst (forward_rows 2 [(9, [4])] [8, 9] demo_finished))) 9 \<noteq> None \<and>
   get_row (sm_rows (fst (forward_rows 2 [(9, [4])] [8, 9] demo_finished))) 8 = Some 1"
proof -
  have "jobs_ok demo_finished"
    by (simp add: jobs_ok_def demo_finished_def sampler_init_def)
  moreover have "max_rows (sm_rows demo_finished) = 2"
    by (simp add: demo_finished_def allocate_row_max) (simp add: rm_init_def)
  moreover have "get_row (sm_rows demo_finished) 8 = Some 1"
    by (rule demo_finished)
  ultimately show ?thesis
    using batch_gets_rows [of demo_finished "[8, 9]" "[(9, [4])]" 2] demo_finished(1) by simp
qed

text \<open>C31: the detection of finished windows does not depend on the path: as long as every sequence has
  a row and the mirror of the step counters is in sync, the path over the device tensor and the path
  over the host mirror make the same calls, one for every sequence whose step counter is a positive
  multiple of the window, in the order of the batch, with the row of that sequence.\<close>

theorem window_detection_agrees:
  assumes "pool_ok s" "rb_ok (sm_rb s)" "steps_host_ok (sm_rb s)"
    "\<forall>sid \<in> set sids. get_row (sm_rows s) sid \<noteq> None"
  shows "check_solutions_device s sids = check_pow_solutions s sids \<and>
    check_pow_solutions s sids = Inr (map (\<lambda>sid. (sid, the (get_row (sm_rows s) sid)))
      (filter (\<lambda>sid. window_done (sm_window s) (steps (rb_rows (sm_rb s) ! the (get_row (sm_rows s) sid)))) sids))"
proof -
  have "\<exists>r. get_row (sm_rows s) sid = Some r \<and> in_range (sm_rb s) r" if "sid \<in> set sids" for sid
    using assms(1,4) that get_row_bound [of "sm_rows s" sid] by (auto simp: pool_ok_def in_range_def)
  moreover have "\<forall>r. in_range (sm_rb s) r \<longrightarrow> steps_host (rb_rows (sm_rb s) ! r) = steps (rb_rows (sm_rb s) ! r)"
    using assms(2,3) by (auto simp: rb_ok_def list_all_length in_range_def)
  ultimately show ?thesis
    using solutions_agree [of sids s] assms(3) by (simp add: check_pow_solutions_def)
qed

theorem window_detection_agrees_witness:
  "check_solutions_device demo_finished [8, 7] = Inr [(8, 1)] \<and> check_pow_solutions demo_finished [8, 7] = Inr [(8, 1)]"
  using window_detection_agrees [of demo_finished "[8, 7]"] demo_finished by (simp add: window_done_def)

text \<open>C32: a sequence freed in the same step shifts the device path: when the first of two sequences
  has just ended and the second has finished a window, the path over the device tensor reports the
  freed sequence with the row of the other one, the path over the host mirror the right one.\<close>

theorem freed_sequence_misattributes:
  assumes "pool_ok s" "get_row (sm_rows s) a = Some ra" "get_row (sm_rows s) b = Some r" "a \<noteq> b" "t \<noteq> sm_eos s"
    "window_done (sm_window s) (steps (rb_rows (sm_rb s) ! r))"
    "steps_host (rb_rows (sm_rb s) ! r) = steps (rb_rows (sm_rb s) ! r)"
  shows "check_solutions_device (fst (check_eos [a, b] [sm_eos s, t] s)) [a, b] = Inr [(a, r)] \<and>
    check_solutions_host (fst (check_eos [a, b] [sm_eos s, t] s)) [a, b] = Inr [(b, r)]"
proof -
  let ?s = "fst (free_sequence a s)"
  have "filter (\<lambda>i. [sm_eos s, t] ! i = sm_eos s) [0..<length [sm_eos s, t]] = [0]"
    using assms(5) by (simp add: upt_rec)
  then have eos: "fst (check_eos [a, b] [sm_eos s, t] s) = ?s"
    by (simp add: check_eos_def fst_act_then)
  have rows: "get_row (sm_rows ?s) a = None" "get_row (sm_rows ?s) b = Some r"
    "rb_rows (sm_rb ?s) ! r = rb_rows (sm_rb s) ! r"
    using free_sequence_spec [OF assms(1), of a] free_other_row [OF assms(1,3,4)] by (simp_all add: get_free)
  have "pool_ok ?s"
    using free_sequence_spec [OF assms(1), of a] by simp
  then have range: "in_range (sm_rb ?s) r"
    using get_row_bound [of "sm_rows ?s" b r] rows(2) by (simp add: pool_ok_def in_range_def)
  have W: "sm_window ?s = sm_window s"
    by (simp add: free_sequence_def fst_act_then split: prod.split)
  show ?thesis
    unfolding eos using rows range assms(6,7) W
    by (simp add: check_solutions_device_def check_solutions_host_def List.map_filter_simps Let_def)
qed

theorem freed_sequence_misattributes_witness:
  "check_solutions_device (fst (check_eos [7, 8] [99, 5] demo_finished)) [7, 8] = Inr [(7, 1)] \<and>
   check_solutions_host (fst (check_eos [7, 8] [99, 5] demo_finished)) [7, 8] = Inr [(8, 1)]"
  using freed_sequence_misattributes [of demo_finished 7 0 8 1 5] demo_finished by (simp add: window_done_def)

text \<open>C30: cleaning up: once the interval has passed, every sequence not updated for longer than the
  maximal age is released, its row, cache, parameters and request ids are gone, every other sequence
  keeps its row and its cache, and nothing raises.\<close>

theorem stale_sequences_released:
  assumes "pool_ok s" "distinct (map fst (sm_caches s))" "interval \<le> now - sm_last_cleanup s"
    "map_of (sm_caches s) sid = Some c" "cleanup_stale_sequences now max_age interval s = (s', e)"
  shows "e = None \<and> pool_ok s' \<and>
    (if max_age < now - last_updated c
     then get_row (sm_rows s') sid = None \<and> map_of (sm_caches s') sid = None \<and>
       map_of (sm_params s') sid = None \<and> sid \<notin> snd ` set (sm_req_ids s')
     else get_row (sm_rows s') sid = get_row (sm_rows s) sid \<and> map_of (sm_caches s') sid = Some c \<and>
       map_of (sm_params s') sid = map_of (sm_params s) sid)"
proof -
  let ?s = "s\<lparr>sm_last_cleanup := now\<rparr>"
  let ?stale = "map fst (filter (\<lambda>(sid, c). max_age < now - last_updated c) (sm_caches s))"
  have stale: "sid \<in> set ?stale \<longleftrightarrow> max_age < now - last_updated c"
  proof
    assume "sid \<in> set ?stale"
    then obtain c' where "(sid, c') \<in> set (sm_caches s)" "max_age < now - last_updated c'"
      by auto
    moreover from this(1) have "c' = c"
      using map_of_is_SomeI [OF assms(2)] assms(4) by simp
    ultimately show "max_age < now - last_updated c" by simp
  next
    assume "max_age < now - last_updated c"
    then show "sid \<in> set ?stale"
      using map_of_SomeD [OF assms(4)] by force
  qed
  have "pool_ok ?s"
    using assms(1) by (simp add: pool_ok_def)
  note all = free_all [OF this, of ?stale]
  have s': "act_each free_sequence ?stale ?s = (s', e)"
    using assms(3,5) by (simp add: cleanup_stale_sequences_def Let_def)
  show ?thesis
    using all stale assms(4) unfolding s' by (simp add: image_iff)
qed

theorem stale_sequences_released_witness:
  "snd (cleanup_stale_sequences 100 60 30 demo_finished) = None \<and>
   get_row (sm_rows (fst (cleanup_stale_sequences 100 60 30 demo_finished))) 7 = None \<and>
   get_row (sm_rows (fst (cleanup_stale_sequences 100 60 30 demo_finished))) 8 = Some 1"
proof -
  have caches: "sm_caches demo_finished = [(7, fresh_cache 1 0 []), (8, fresh_cache 1 90 [])]" "sm_last_cleanup demo_finished = 0"
    by (simp_all add: demo_finished_def sampler_init_def)
  have age: "last_updated (fresh_cache W now p) = now" for W now p
    by (simp add: fresh_cache_def Let_def)
  obtain s' e where r: "cleanup_stale_sequences 100 60 30 demo_finished = (s', e)" by fastforce
  show ?thesis
    using stale_sequences_released [OF demo_finished(1) _ _ _ r, of 7 "fresh_cache 1 0 []"]
      stale_sequences_released [OF demo_finished(1) _ _ _ r, of 8 "fresh_cache 1 90 []"]
    by (simp add: caches age r demo_finished)
qed

end
