(* ===== verification/PyText.thy ===== *)
theory PyText
  imports Prelude
begin

text \<open>
  The text routines of Python the configuration code relies on, on strings of one-byte characters:
  \<^verbatim>\<open>strip\<close>, \<^verbatim>\<open>lower\<close>, \<^verbatim>\<open>int\<close>, and the flag parsers built on them.
\<close>

definition py_space :: "char \<Rightarrow> bool" where
  "py_space c = (let n = of_char c :: nat in n = 32 \<or> 9 \<le> n \<and> n \<le> 13 \<or> 28 \<le> n \<and> n \<le> 31 \<or> n = 133 \<or> n = 160)"

definition py_strip :: "string \<Rightarrow> string" where
  "py_strip s = rev (dropWhile py_space (rev (dropWhile py_space s)))"

definition lower_char :: "char \<Rightarrow> char" where
  "lower_char c = (let n = of_char c :: nat in if 65 \<le> n \<and> n \<le> 90 then char_of (n + 32) else c)"

definition py_lower :: "string \<Rightarrow> string" where
  "py_lower s = map lower_char s"

definition dec_value :: "char \<Rightarrow> int option" where
  "dec_value c = (let n = of_char c :: nat in if 48 \<le> n \<and> n \<le> 57 then Some (int n - 48) else None)"

text \<open>Digits with single underscores between them.\<close>

fun dec_digits :: "bool \<Rightarrow> int \<Rightarrow> string \<Rightarrow> int option" where
  "dec_digits after_digit acc [] = (if after_digit then Some acc else None)"
| "dec_digits after_digit acc (c # cs) =
     (case dec_value c of
        Some d \<Rightarrow> dec_digits True (10 * acc + d) cs
      | None \<Rightarrow> if c = CHR ''_'' \<and> after_digit then dec_digits False acc cs else None)"

text \<open>\<^verbatim>\<open>int(s)\<close>, a ValueError when \<open>s\<close> is no decimal integer.\<close>

definition py_int :: "string \<Rightarrow> int res" where
  "py_int s =
     (let t = py_strip s;
          v = (if t \<noteq> [] \<and> hd t = CHR ''-'' then map_option uminus (dec_digits False 0 (tl t))
               else if t \<noteq> [] \<and> hd t = CHR ''+'' then dec_digits False 0 (tl t)
               else dec_digits False 0 t)
      in case v of None \<Rightarrow> Inl ValueError | Some n \<Rightarrow> Inr n)"

text \<open>\<^verbatim>\<open>_env_flag\<close>.\<close>

definition env_flag :: "string option \<Rightarrow> bool \<Rightarrow> bool" where
  "env_flag raw fallback = (case raw of
      None \<Rightarrow> fallback
    | Some r \<Rightarrow>
        (let r = py_lower (py_strip r)
         in if r \<in> {''1'', ''true'', ''yes'', ''on''} then True
            else if r \<in> {''0'', ''false'', ''no'', ''off'', []} then False
            else fallback))"

text \<open>Decimal digits.\<close>

fun dec_rev :: "nat \<Rightarrow> string" where
  "dec_rev n = char_of (48 + n mod 10) # (if n < 10 then [] else dec_rev (n div 10))"

declare dec_rev.simps [simp del]

definition dec :: "nat \<Rightarrow> string" where
  "dec n = rev (dec_rev n)"

lemma digit_code: "(of_char (char_of (48 + n mod 10) :: char) :: nat) = 48 + n mod 10"
proof -
  have "48 + n mod 10 < (256 :: nat)"
    using mod_less_divisor [of 10 n] by linarith
  then show ?thesis
    unfolding of_char_of by (rule mod_less)
qed

lemma dec_rev_inj: "dec_rev m = dec_rev n \<Longrightarrow> m = n"
proof (induction m arbitrary: n rule: less_induct)
  case (less m)
  have eq: "char_of (48 + m mod 10) # (if m < 10 then [] else dec_rev (m div 10)) =
      (char_of (48 + n mod 10) :: char) # (if n < 10 then [] else dec_rev (n div 10))"
    using less.prems unfolding dec_rev.simps [of m] dec_rev.simps [of n] .
  then have h: "char_of (48 + m mod 10) = (char_of (48 + n mod 10) :: char)"
    and t: "(if m < 10 then [] else dec_rev (m div 10)) = (if n < 10 then [] else dec_rev (n div 10))"
    unfolding list.inject by blast+
  have "m mod 10 = n mod 10"
    using arg_cong [OF h, of "of_char :: char \<Rightarrow> nat"] unfolding digit_code by linarith
  moreover have "m div 10 = n div 10"
  proof (cases "m < 10")
    case True
    then have "n < 10"
      using t by (auto split: if_splits simp: dec_rev.simps [of "n div 10"])
    with True show ?thesis by simp
  next
    case False
    then have "\<not> n < 10" "dec_rev (m div 10) = dec_rev (n div 10)"
      using t by (auto split: if_splits simp: dec_rev.simps [of "m div 10"])
    then show ?thesis
      using less.IH [of "m div 10" "n div 10"] False by simp
  qed
  ultimately show ?case
    by (metis div_mult_mod_eq)
qed

lemma dec_inj: "dec m = dec n \<longleftrightarrow> m = n"
  by (auto simp: dec_def dest: dec_rev_inj)

lemma dec_rev_code: "c \<in> set (dec_rev n) \<Longrightarrow> 48 \<le> (of_char c :: nat)"
proof (induction n rule: dec_rev.induct)
  case (1 n)
  have "c = char_of (48 + n mod 10) \<or> (\<not> n < 10 \<and> c \<in> set (dec_rev (n div 10)))"
    using 1(2) unfolding dec_rev.simps [of n] by (cases "n < 10") simp_all
  with 1(1) show ?case
    by (auto simp: digit_code simp del: of_char_of)
qed

lemma dash_code: "(of_char (CHR ''-'') :: nat) = 45"
  by code_simp

lemma dec_no_dash: "CHR ''-'' \<notin> set (dec n)"
  using dec_rev_code [of "CHR ''-''" n] unfolding dash_code dec_def set_rev by linarith

lemma int_examples: "py_int '' -1_0 '' = Inr (- 10)" "py_int ''1__0'' = Inl ValueError" "py_int [] = Inl ValueError"
  by code_simp+

end
