(* ===== verification/Admission.thy ===== *)
theory Admission
  imports SamplerFacts PyText
begin

text \<open>
  The admission side of \<^verbatim>\<open>CommonSamplerHelper\<close>: before the first token of a window is drawn, a nonce
  is ground and stored in the row, by a blocking call or in the background.  The native grind loop is
  a parameter; a background grind is finished at a poll when the environment says so.
\<close>

section \<open>Configuration\<close>

type_synonym grind = "byte list \<Rightarrow> string \<Rightarrow> byte list \<Rightarrow> int \<Rightarrow> byte list \<Rightarrow> byte list option"

record admission =
  am_mode :: string
  am_max_tries_factor :: int
  am_proof_version :: int
  am_model_identifier :: "string option"
  am_grind :: "grind option"

definition admission_mode_of :: "string option \<Rightarrow> string" where
  "admission_mode_of env = py_lower (py_strip (case env of None \<Rightarrow> ''off'' | Some v \<Rightarrow> v))"

definition max_tries_factor_of :: "string option \<Rightarrow> int" where
  "max_tries_factor_of env =
     (case py_int (case env of None \<Rightarrow> ''16'' | Some v \<Rightarrow> v) of Inl _ \<Rightarrow> 16 | Inr n \<Rightarrow> max 1 n)"

definition V3_PROOF_VERSION :: int where
  "V3_PROOF_VERSION = 3"

definition admission_active :: "admission \<Rightarrow> bool" where
  "admission_active a =
     (am_mode a = ''always'' \<and> \<not> (if am_proof_version a = 0 then 2 else am_proof_version a) < V3_PROOF_VERSION)"

text \<open>The size of the grind pool.\<close>

definition grind_workers :: "nat option \<Rightarrow> string option \<Rightarrow> int" where
  "grind_workers cpu_count raw =
     (let cpus = (case cpu_count of None \<Rightarrow> 2 | Some n \<Rightarrow> if n = 0 then 2 else n);
          fallback = max 1 (int cpus - 1)
      in case raw of
           None \<Rightarrow> fallback
         | Some r \<Rightarrow>
             if r = [] then fallback
             else (case py_int r of Inl _ \<Rightarrow> fallback | Inr n \<Rightarrow> if n < 1 then 1 else n))"

text \<open>The startup self-test: every target below the easiest one.\<close>

definition assert_v3_ready :: "admission \<Rightarrow> unit res" where
  "assert_v3_ready a = (case am_grind a of
      None \<Rightarrow> Inl RuntimeError
    | Some grind \<Rightarrow>
        rbind (build_step_message (replicate 76 0) (replicate 32 0) 0 0 [] ''selftest'' None POW_WINDOW_SIZE) (\<lambda>msg_w.
        rbind (prompt_commitment [] (Some [])) (\<lambda>commitment.
          (case grind msg_w ''v3-selftest'' (replicate 32 0xff) 4 commitment of
             None \<Rightarrow> Inl RuntimeError
           | Some nonce \<Rightarrow> if length nonce \<noteq> 32 then Inl RuntimeError else Inr ()))))"

section \<open>Preparing a grind\<close>

record admission_job =
  aj_row :: nat
  aj_seq_id :: nat
  aj_difficulty :: int
  aj_inputs :: grind_inputs

definition job_inputs :: "admission \<Rightarrow> job \<Rightarrow> seq_cache option \<Rightarrow> int list \<Rightarrow> int \<Rightarrow> string \<Rightarrow> int \<Rightarrow> grind_inputs res" where
  "job_inputs a j cache context_tokens step_idx prec difficulty =
     (let header_hex = (if ps_header_prefix j \<noteq> [] then ps_header_prefix j else ps_block_hash j);
          model = (case am_model_identifier a of None \<Rightarrow> ''unknown'' | Some m \<Rightarrow> if m = [] then ''unknown'' else m);
          prefix = (case cache of None \<Rightarrow> [] | Some c \<Rightarrow> archive_list c);
          pad_mask = (case cache of None \<Rightarrow> [] | Some c \<Rightarrow> pad_mask_list c)
      in rbind (fromhex header_hex) (\<lambda>header.
         rbind (fromhex (ps_vdf j)) (\<lambda>vdf.
         rbind (key (ps_tick j)) (\<lambda>tick.
           build_admission_preimage header vdf tick step_idx context_tokens prefix (Some pad_mask) prec
             difficulty model (am_max_tries_factor a)))))"

definition prepare_admission ::
    "admission \<Rightarrow> nat \<Rightarrow> nat \<Rightarrow> int list \<Rightarrow> int \<Rightarrow> string \<Rightarrow> sampler \<Rightarrow> sampler \<times> admission_job option res" where
  "prepare_admission a sid row context_tokens step_idx prec s =
     (case on_rb (write_admission_nonce row None) s of
        (s, Some e) \<Rightarrow> (s, Inl e)
      | (s, None) \<Rightarrow>
          (s, (case Option.bind (map_of (sm_params s) sid) sp_snapshot of
                 None \<Rightarrow> Inr None
               | Some j \<Rightarrow>
                   (let difficulty = (case job_difficulty j of None \<Rightarrow> 0 | Some d \<Rightarrow> d)
                    in if difficulty \<le> 0 then Inr None
                       else rbind (job_inputs a j (map_of (sm_caches s) sid) context_tokens step_idx prec difficulty)
                         (\<lambda>g. Inr (Some \<lparr>aj_row = row, aj_seq_id = sid, aj_difficulty = difficulty,
                                aj_inputs = g\<rparr>))))))"

definition grind_job :: "grind \<Rightarrow> admission_job \<Rightarrow> byte list option" where
  "grind_job grind job = (let g = aj_inputs job
     in grind (gi_msg_w g) (gi_model_identifier g) (gi_target_le g) (gi_max_tries g) (gi_commitment g))"

definition store_admission_result :: "admission_job \<Rightarrow> byte list option \<Rightarrow> sampler act" where
  "store_admission_result job nonce = (case nonce of
      None \<Rightarrow> act_pure id
    | Some n \<Rightarrow> on_rb (write_admission_nonce (aj_row job) (Some n)))"

definition ensure_admission_for_window ::
    "admission \<Rightarrow> nat \<Rightarrow> nat \<Rightarrow> int list \<Rightarrow> int \<Rightarrow> string \<Rightarrow> sampler \<Rightarrow> sampler \<times> bool res" where
  "ensure_admission_for_window a sid row context_tokens step_idx prec s =
     (case prepare_admission a sid row context_tokens step_idx prec s of
        (s, Inl e) \<Rightarrow> (s, Inl e)
      | (s, Inr None) \<Rightarrow> (s, Inr False)
      | (s, Inr (Some job)) \<Rightarrow>
          (case am_grind a of
             None \<Rightarrow> (s, Inr False)
           | Some grind \<Rightarrow>
               (let nonce = grind_job grind job
                in case store_admission_result job nonce s of
                     (s, Some e) \<Rightarrow> (s, Inl e)
                   | (s, None) \<Rightarrow> (s, Inr (nonce \<noteq> None)))))"

section \<open>The blocking call\<close>

type_synonym entry = "nat \<times> nat option \<times> int list"

text \<open>The entries of a batch whose next token is the first of a window.\<close>

definition boundary_entries :: "nat list \<Rightarrow> nat option list \<Rightarrow> nat list \<Rightarrow> int list list \<Rightarrow> entry list" where
  "boundary_entries seq_ids rows step_ids contexts =
     map (\<lambda>i. (seq_ids ! i, rows ! i, contexts ! i)) (filter (\<lambda>i. step_ids ! i = 0) [0..<length step_ids])"

fun prepare_jobs ::
    "admission \<Rightarrow> string \<Rightarrow> entry list \<Rightarrow> sampler \<Rightarrow> sampler \<times> admission_job list res" where
  "prepare_jobs a prec [] s = (s, Inr [])"
| "prepare_jobs a prec ((sid, None, ctx) # es) s = prepare_jobs a prec es s"
| "prepare_jobs a prec ((sid, Some row, ctx) # es) s =
     (case prepare_admission a sid row ctx 0 prec s of
        (s, Inl e) \<Rightarrow> (s, Inl e)
      | (s, Inr None) \<Rightarrow> prepare_jobs a prec es s
      | (s, Inr (Some job)) \<Rightarrow>
          (case prepare_jobs a prec es s of (s, r) \<Rightarrow> (s, rbind r (\<lambda>jobs. Inr (job # jobs)))))"

definition ensure_admission_for_rows ::
    "admission \<Rightarrow> nat list \<Rightarrow> nat option list \<Rightarrow> nat list \<Rightarrow> int list list \<Rightarrow> string \<Rightarrow> sampler act" where
  "ensure_admission_for_rows a seq_ids rows step_ids contexts prec s =
     (if \<not> admission_active a then (s, None)
      else
        (let boundary = boundary_entries seq_ids rows step_ids contexts
         in if boundary = [] then (s, None)
            else case am_grind a of
              None \<Rightarrow> (s, None)
            | Some grind \<Rightarrow>
                (case prepare_jobs a prec boundary s of
                   (s, Inl e) \<Rightarrow> (s, Some e)
                 | (s, Inr jobs) \<Rightarrow>
                     (let results = map (\<lambda>job. (job, grind_job grind job)) jobs
                      in act_each (\<lambda>(job, nonce). store_admission_result job nonce) results s))))"

section \<open>Grinding in the background\<close>

text \<open>
  Pending grinds by row.  \<open>finished\<close> is what \<^verbatim>\<open>Future.done\<close> answers for the grind of a row.
\<close>

type_synonym pending = "(nat \<times> admission_job) list"

fun harvest :: "grind \<Rightarrow> (nat \<Rightarrow> bool) \<Rightarrow> pending \<Rightarrow> sampler \<Rightarrow> (pending \<times> sampler) \<times> nat list res" where
  "harvest grind finished [] s = (([], s), Inr [])"
| "harvest grind finished ((row, job) # ps) s =
     (if finished row
      then (case store_admission_result job (grind_job grind job) s of
              (s, Some e) \<Rightarrow> (((row, job) # ps, s), Inl e)
            | (s, None) \<Rightarrow>
                (case harvest grind finished ps s of
                   (st, r) \<Rightarrow> (st, rbind r (\<lambda>ready. Inr (row # ready)))))
      else (case harvest grind finished ps s of
              ((ps, s), r) \<Rightarrow> (((row, job) # ps, s), r)))"

definition poll_admission ::
    "grind \<Rightarrow> (nat \<Rightarrow> bool) \<Rightarrow> pending \<times> sampler \<Rightarrow> (pending \<times> sampler) \<times> nat set res" where
  "poll_admission grind finished = (\<lambda>(ps, s).
     (case harvest grind finished ps s of (st, r) \<Rightarrow> (st, rbind r (\<lambda>ready. Inr (set ready)))))"

definition pending_admission_rows :: "pending \<Rightarrow> nat set" where
  "pending_admission_rows ps = set (map fst ps)"

fun submit_jobs ::
    "admission \<Rightarrow> string \<Rightarrow> entry list \<Rightarrow> pending \<times> sampler \<Rightarrow> (pending \<times> sampler) \<times> py_error option" where
  "submit_jobs a prec [] st = (st, None)"
| "submit_jobs a prec ((sid, row, ctx) # es) (ps, s) =
     (case row of
        None \<Rightarrow> submit_jobs a prec es (ps, s)
      | Some r \<Rightarrow>
          if r \<in> pending_admission_rows ps then submit_jobs a prec es (ps, s)
          else (case prepare_admission a sid r ctx 0 prec s of
                  (s, Inl e) \<Rightarrow> ((ps, s), Some e)
                | (s, Inr None) \<Rightarrow> submit_jobs a prec es (ps, s)
                | (s, Inr (Some job)) \<Rightarrow> submit_jobs a prec es (ps @ [(r, job)], s)))"

definition begin_admission_for_rows ::
    "admission \<Rightarrow> nat list \<Rightarrow> nat option list \<Rightarrow> nat list \<Rightarrow> int list list \<Rightarrow> string \<Rightarrow> (nat \<Rightarrow> bool) \<Rightarrow>
     pending \<times> sampler \<Rightarrow> (pending \<times> sampler) \<times> nat set res" where
  "begin_admission_for_rows a seq_ids rows step_ids contexts prec finished st =
     (if \<not> admission_active a then (st, Inr {})
      else case am_grind a of
        None \<Rightarrow> (st, Inr {})
      | Some grind \<Rightarrow>
          (case submit_jobs a prec (boundary_entries seq_ids rows step_ids contexts) st of
             (st, Some e) \<Rightarrow> (st, Inl e)
           | (st, None) \<Rightarrow>
               (case poll_admission grind finished st of
                  (st, Inl e) \<Rightarrow> (st, Inl e)
                | (st, Inr _) \<Rightarrow> (st, Inr (pending_admission_rows (fst st))))))"

end
