(* ===== verification/AdmissionFacts.thy ===== *)
theory AdmissionFacts
  imports Admission
begin

text \<open>
  What the admission calls promise: the blocking call stores exactly the ground nonces in the rows at
  the start of a window and touches nothing else, grinding in the background ends in the same state,
  and the ground preimage is the step message that the row is then hashed with, up to the nonce.
\<close>


section \<open>Effects on rows\<close>

text \<open>A change of the rows of the buffers, row by row.\<close>

definition set_rows :: "(nat \<Rightarrow> rb_row \<Rightarrow> rb_row) \<Rightarrow> sampler \<Rightarrow> sampler" where
  "set_rows f s = s\<lparr>sm_rb := (sm_rb s)\<lparr>rb_rows := map (\<lambda>i. f i (rb_rows (sm_rb s) ! i)) [0..<length (rb_rows (sm_rb s))]\<rparr>\<rparr>"

lemma set_rows_set_rows: "set_rows f (set_rows g s) = set_rows (\<lambda>i w. f i (g i w)) s"
  by (simp add: set_rows_def)

lemma set_rows_id: "set_rows (\<lambda>i w. w) s = s"
  by (simp add: set_rows_def map_nth)

lemma set_rows_in_range [simp]: "in_range (sm_rb (set_rows f s)) r = in_range (sm_rb s) r"
  by (simp add: set_rows_def in_range_def)

lemma set_rows_nth: "in_range (sm_rb s) r \<Longrightarrow> rb_rows (sm_rb (set_rows f s)) ! r = f r (rb_rows (sm_rb s) ! r)"
  by (simp add: set_rows_def in_range_def)

lemma set_rows_frame [simp]:
  "sm_params (set_rows f s) = sm_params s" "sm_caches (set_rows f s) = sm_caches s"
  by (simp_all add: set_rows_def)

lemma on_row_set_rows:
  assumes "in_range (sm_rb s) r"
  shows "on_rb (on_row r (act_pure g)) s = (set_rows (\<lambda>i w. if i = r then g w else w) s, None)"
proof -
  have "(rb_rows (sm_rb s))[r := g (rb_rows (sm_rb s) ! r)] =
      map (\<lambda>i. if i = r then g (rb_rows (sm_rb s) ! i) else rb_rows (sm_rb s) ! i) [0..<length (rb_rows (sm_rb s))]"
    by (intro nth_equalityI) (auto simp: nth_list_update_if)
  then show ?thesis
    using assms by (simp add: on_rb_def on_row_def set_rows_def act_pure_def)
qed

definition clear_nonce :: "rb_row \<Rightarrow> rb_row" where
  "clear_nonce w = w\<lparr>pow_admission_nonce := zero_bytes (pow_admission_nonce w),
     pow_admission_valid := False, pow_admission_valid_host := False\<rparr>"

definition put_nonce :: "byte list \<Rightarrow> rb_row \<Rightarrow> rb_row" where
  "put_nonce n w = w\<lparr>pow_admission_nonce := n, pow_admission_valid := True, pow_admission_valid_host := True\<rparr>"

lemma write_none: "in_range (sm_rb s) r \<Longrightarrow>
    on_rb (write_admission_nonce r None) s = (set_rows (\<lambda>i w. if i = r then clear_nonce w else w) s, None)"
  using on_row_set_rows [of s r clear_nonce] by (simp add: write_admission_nonce_def clear_nonce_def [abs_def])

lemma write_some: "in_range (sm_rb s) r \<Longrightarrow> length n = 32 \<Longrightarrow>
    on_rb (write_admission_nonce r (Some n)) s = (set_rows (\<lambda>i w. if i = r then put_nonce n w else w) s, None)"
  using on_row_set_rows [of s r "put_nonce n"] by (simp add: write_admission_nonce_def put_nonce_def [abs_def])

text \<open>The nonces of a list of grinds with distinct rows, as a change of rows.\<close>

definition nonces :: "(nat \<times> byte list option) list \<Rightarrow> nat \<Rightarrow> rb_row \<Rightarrow> rb_row" where
  "nonces rs i w = (case map_of rs i of Some (Some n) \<Rightarrow> put_nonce n w | _ \<Rightarrow> w)"

lemma nonces_Cons: "r \<notin> set (map fst rs) \<Longrightarrow>
    nonces ((r, x) # rs) i w = nonces rs i (if i = r then (case x of None \<Rightarrow> w | Some n \<Rightarrow> put_nonce n w) else w)"
  by (auto simp: nonces_def map_of_eq_None_iff [symmetric] split: option.split simp del: map_of_eq_None_iff)

lemma store_one:
  assumes "in_range (sm_rb s) (aj_row job)" "x \<noteq> None \<longrightarrow> length (the x) = 32"
  shows "store_admission_result job x s =
    (set_rows (\<lambda>i w. if i = aj_row job then (case x of None \<Rightarrow> w | Some n \<Rightarrow> put_nonce n w) else w) s, None)"
proof (cases x)
  case None
  then show ?thesis
    using set_rows_id [of s] by (simp add: store_admission_result_def act_pure_def cong: if_cong)
next
  case (Some n)
  then show ?thesis
    using assms write_some [of s "aj_row job" n] by (simp add: store_admission_result_def cong: if_cong)
qed

definition grind_ok :: "grind \<Rightarrow> bool" where
  "grind_ok grind \<longleftrightarrow> (\<forall>w m t k c n. grind w m t k c = Some n \<longrightarrow> length n = 32)"

lemma grind_job_len: "grind_ok grind \<Longrightarrow> x = grind_job grind job \<Longrightarrow> x \<noteq> None \<longrightarrow> length (the x) = 32"
  by (auto simp: grind_ok_def grind_job_def Let_def)

definition ground :: "grind \<Rightarrow> admission_job list \<Rightarrow> (nat \<times> byte list option) list" where
  "ground grind jobs = map (\<lambda>job. (aj_row job, grind_job grind job)) jobs"

lemma store_all:
  assumes "grind_ok grind" "distinct (map aj_row jobs)" "\<forall>job \<in> set jobs. in_range (sm_rb s) (aj_row job)"
  shows "act_each (\<lambda>(job, nonce). store_admission_result job nonce) (map (\<lambda>job. (job, grind_job grind job)) jobs) s =
    (set_rows (nonces (ground grind jobs)) s, None)"
  using assms(2,3)
proof (induction jobs arbitrary: s)
  case Nil
  then show ?case
    using set_rows_id [of s] by (simp add: act_pure_def nonces_def ground_def)
next
  case (Cons job jobs)
  let ?x = "grind_job grind job"
  let ?f = "\<lambda>i w. if i = aj_row job then (case ?x of None \<Rightarrow> w | Some n \<Rightarrow> put_nonce n w) else w"
  have one: "store_admission_result job ?x s = (set_rows ?f s, None)"
    using store_one [of s job ?x] Cons.prems(2) grind_job_len [OF assms(1), of ?x job] by simp
  have "aj_row job \<notin> set (map fst (ground grind jobs))"
    using Cons.prems(1) by (simp add: ground_def comp_def)
  then have "nonces (ground grind (job # jobs)) = (\<lambda>i w. nonces (ground grind jobs) i (?f i w))"
    by (intro ext) (simp add: ground_def nonces_Cons)
  then show ?case
    using Cons.IH [of "set_rows ?f s"] Cons.prems one by (simp add: act_then_def set_rows_set_rows)
qed

lemma harvest_some:
  assumes "grind_ok grind" "distinct (map fst ps)" "\<forall>(r, job) \<in> set ps. in_range (sm_rb s) r \<and> aj_row job = r"
  shows "harvest grind f ps s = ((filter (\<lambda>(r, job). \<not> f r) ps,
      set_rows (nonces (ground grind (map snd (filter (\<lambda>(r, job). f r) ps)))) s),
    Inr (map fst (filter (\<lambda>(r, job). f r) ps)))"
  using assms(2,3)
proof (induction ps arbitrary: s)
  case Nil
  then show ?case
    using set_rows_id [of s] by (simp add: nonces_def ground_def)
next
  case (Cons p ps)
  obtain r job where p: "p = (r, job)" by (cases p)
  let ?x = "grind_job grind job"
  let ?f = "\<lambda>i w. if i = r then (case ?x of None \<Rightarrow> w | Some n \<Rightarrow> put_nonce n w) else w"
  have row: "in_range (sm_rb s) r" "aj_row job = r"
    using Cons.prems(2) p by auto
  have one: "store_admission_result job ?x s = (set_rows ?f s, None)"
    using store_one [of s job ?x] row grind_job_len [OF assms(1), of ?x job] by simp
  let ?js = "map snd (filter (\<lambda>(r, job). f r) ps)"
  have "set (map fst (ground grind ?js)) \<subseteq> set (map fst ps)"
    using Cons.prems(2) by (force simp: ground_def)
  then have "r \<notin> set (map fst (ground grind ?js))"
    using Cons.prems(1) p by auto
  then have n: "nonces (ground grind (job # ?js)) = (\<lambda>i w. nonces (ground grind ?js) i (?f i w))"
    using row by (intro ext) (simp add: ground_def nonces_Cons)
  show ?case
    using Cons.IH [of s] Cons.IH [of "set_rows ?f s"] Cons.prems one n
    by (simp add: p set_rows_set_rows)
qed


section \<open>Preparing a batch\<close>

text \<open>What preparing a row yields; it reads only the parameters and the cache of the sequence.\<close>

definition prepared :: "admission \<Rightarrow> string \<Rightarrow> sampler \<Rightarrow> nat \<Rightarrow> nat \<Rightarrow> int list \<Rightarrow> admission_job option res" where
  "prepared a prec s sid row ctx = snd (prepare_admission a sid row ctx 0 prec s)"

lemma prepare_admission_eq:
  assumes "in_range (sm_rb s) row"
  shows "prepare_admission a sid row ctx 0 prec s =
    (set_rows (\<lambda>i w. if i = row then clear_nonce w else w) s, prepared a prec s sid row ctx)"
  using assms by (simp add: prepared_def prepare_admission_def write_none)

lemma prepared_set_rows:
  assumes "in_range (sm_rb s) row"
  shows "prepared a prec (set_rows f s) sid row ctx = prepared a prec s sid row ctx"
  using assms unfolding prepared_def prepare_admission_def
  by (simp add: write_none Let_def split: option.split)

lemma prepared_row:
  assumes "in_range (sm_rb s) row" "prepared a prec s sid row ctx = Inr (Some job)"
  shows "aj_row job = row"
  using assms by (auto simp: prepared_def prepare_admission_def write_none rbind_Inr_iff Let_def split: option.splits if_splits)

fun jobs_of :: "admission \<Rightarrow> string \<Rightarrow> sampler \<Rightarrow> entry list \<Rightarrow> admission_job list res" where
  "jobs_of a prec s [] = Inr []"
| "jobs_of a prec s ((sid, None, ctx) # es) = jobs_of a prec s es"
| "jobs_of a prec s ((sid, Some row, ctx) # es) =
     rbind (prepared a prec s sid row ctx) (\<lambda>j. rbind (jobs_of a prec s es) (\<lambda>js.
       Inr (case j of None \<Rightarrow> js | Some job \<Rightarrow> job # js)))"

definition entry_rows :: "entry list \<Rightarrow> nat list" where
  "entry_rows es = List.map_filter (\<lambda>(sid, row, ctx). row) es"

lemma entry_rows_simps [simp]:
  "entry_rows [] = []" "entry_rows ((sid, None, ctx) # es) = entry_rows es"
  "entry_rows ((sid, Some row, ctx) # es) = row # entry_rows es"
  by (simp_all add: entry_rows_def List.map_filter_simps)

definition cleared :: "nat list \<Rightarrow> nat \<Rightarrow> rb_row \<Rightarrow> rb_row" where
  "cleared rs i w = (if i \<in> set rs then clear_nonce w else w)"

lemma clear_nonce_idem [simp]: "clear_nonce (clear_nonce w) = clear_nonce w"
  by (simp add: clear_nonce_def zero_bytes_def)

lemma cleared_Cons: "cleared (r # rs) = (\<lambda>i w. cleared rs i (if i = r then clear_nonce w else w))"
  by (intro ext) (auto simp: cleared_def)

lemma jobs_of_set_rows:
  "\<forall>r \<in> set (entry_rows es). in_range (sm_rb s) r \<Longrightarrow> jobs_of a prec (set_rows f s) es = jobs_of a prec s es"
  by (induction es rule: jobs_of.induct [of _ a prec s]) (simp_all add: prepared_set_rows)

lemma prepare_jobs_eq:
  assumes "\<forall>r \<in> set (entry_rows es). in_range (sm_rb s) r" "jobs_of a prec s es = Inr jobs"
  shows "prepare_jobs a prec es s = (set_rows (cleared (entry_rows es)) s, Inr jobs)"
  using assms
proof (induction es arbitrary: s jobs)
  case Nil
  then show ?case
    using set_rows_id [of s] by (simp add: cleared_def)
next
  case (Cons e es)
  obtain sid row ctx where e: "e = (sid, row, ctx)" by (cases e)
  show ?case
  proof (cases row)
    case None
    with Cons e show ?thesis by simp
  next
    case (Some r)
    let ?f = "\<lambda>i w. if i = r then clear_nonce w else w"
    have r: "in_range (sm_rb s) r" and es: "\<forall>r \<in> set (entry_rows es). in_range (sm_rb (set_rows ?f s)) r"
      using Cons.prems(1) e Some by auto
    obtain j js where j: "prepared a prec s sid r ctx = Inr j" "jobs_of a prec s es = Inr js"
      "jobs = (case j of None \<Rightarrow> js | Some job \<Rightarrow> job # js)"
      using Cons.prems(2) e Some by (auto simp: rbind_Inr_iff)
    have "jobs_of a prec (set_rows ?f s) es = Inr js"
      using jobs_of_set_rows [of es s a prec ?f] es j(2) by simp
    from Cons.IH [OF es this] j r show ?thesis
      by (auto simp: e Some prepare_admission_eq set_rows_set_rows cleared_Cons split: option.split)
  qed
qed

lemma jobs_of_rows:
  assumes "\<forall>r \<in> set (entry_rows es). in_range (sm_rb s) r" "jobs_of a prec s es = Inr jobs" "distinct (entry_rows es)"
  shows "set (map aj_row jobs) \<subseteq> set (entry_rows es) \<and> distinct (map aj_row jobs)"
  using assms
proof (induction es arbitrary: jobs)
  case Nil
  then show ?case by simp
next
  case (Cons e es)
  obtain sid row ctx where e: "e = (sid, row, ctx)" by (cases e)
  show ?case
  proof (cases row)
    case None
    with Cons e show ?thesis by simp
  next
    case (Some r)
    obtain j js where j: "prepared a prec s sid r ctx = Inr j" "jobs_of a prec s es = Inr js"
      "jobs = (case j of None \<Rightarrow> js | Some job \<Rightarrow> job # js)"
      using Cons.prems(2) e Some by (auto simp: rbind_Inr_iff)
    have ih: "set (map aj_row js) \<subseteq> set (entry_rows es) \<and> distinct (map aj_row js)"
      using Cons.IH [OF _ j(2)] Cons.prems e Some by simp
    show ?thesis
    proof (cases j)
      case None
      with ih j(3) e Some show ?thesis by auto
    next
      case (Some job)
      have "aj_row job = r"
        using prepared_row [of s r a prec sid ctx job] Cons.prems(1) e \<open>row = Some r\<close> j(1) Some by simp
      with ih j(3) e \<open>row = Some r\<close> Some Cons.prems(3) show ?thesis by auto
    qed
  qed
qed

text \<open>The blocking call as one change of rows.\<close>

lemma ensure_eq:
  assumes "admission_active a" "am_grind a = Some grind" "grind_ok grind"
    "es = boundary_entries sids rows step_ids contexts" "distinct (entry_rows es)"
    "\<forall>r \<in> set (entry_rows es). in_range (sm_rb s) r" "jobs_of a prec s es = Inr jobs"
  shows "ensure_admission_for_rows a sids rows step_ids contexts prec s =
    (set_rows (\<lambda>i w. nonces (ground grind jobs) i (cleared (entry_rows es) i w)) s, None)"
proof -
  have rows: "distinct (map aj_row jobs)" "\<forall>job \<in> set jobs. in_range (sm_rb (set_rows (cleared (entry_rows es)) s)) (aj_row job)"
    using jobs_of_rows [OF assms(6,7,5)] assms(6) by auto
  have empty: "jobs = []" if "es = []"
    using assms(7) that by simp
  show ?thesis
    using assms(1,2) store_all [OF assms(3) rows] prepare_jobs_eq [OF assms(6,7)] empty set_rows_id [of s]
    by (simp add: ensure_admission_for_rows_def assms(4) [symmetric] set_rows_set_rows, auto simp: nonces_def ground_def cleared_def)
qed

text \<open>Submitting from an empty pending set, and the two polls.\<close>

lemma submit_eq:
  assumes "\<forall>r \<in> set (entry_rows es). in_range (sm_rb s) r" "distinct (entry_rows es)"
    "jobs_of a prec s es = Inr jobs" "set (map fst ps) \<inter> set (entry_rows es) = {}"
  shows "submit_jobs a prec es (ps, s) =
    ((ps @ map (\<lambda>job. (aj_row job, job)) jobs, set_rows (cleared (entry_rows es)) s), None)"
  using assms
proof (induction es arbitrary: s jobs ps)
  case Nil
  then show ?case
    using set_rows_id [of s] by (simp add: cleared_def)
next
  case (Cons e es)
  obtain sid row ctx where e: "e = (sid, row, ctx)" by (cases e)
  show ?case
  proof (cases row)
    case None
    with Cons e show ?thesis by simp
  next
    case (Some r)
    let ?f = "\<lambda>i w. if i = r then clear_nonce w else w"
    have r: "in_range (sm_rb s) r" "r \<notin> pending_admission_rows ps"
      and es: "\<forall>r \<in> set (entry_rows es). in_range (sm_rb (set_rows ?f s)) r" "distinct (entry_rows es)" "r \<notin> set (entry_rows es)"
      using Cons.prems e Some by (auto simp: pending_admission_rows_def)
    obtain j js where j: "prepared a prec s sid r ctx = Inr j" "jobs_of a prec s es = Inr js"
      "jobs = (case j of None \<Rightarrow> js | Some job \<Rightarrow> job # js)"
      using Cons.prems(3) e Some by (auto simp: rbind_Inr_iff)
    have js: "jobs_of a prec (set_rows ?f s) es = Inr js"
      using jobs_of_set_rows [of es s a prec ?f] es j(2) by simp
    show ?thesis
    proof (cases j)
      case None
      then show ?thesis
        using Cons.IH [OF es(1,2) js, of ps] Cons.prems(4) j r
        by (simp add: e Some prepare_admission_eq set_rows_set_rows cleared_Cons)
    next
      case (Some job)
      have "aj_row job = r"
        using prepared_row [OF r(1)] j(1) Some by simp
      then show ?thesis
        using Cons.IH [OF es(1,2) js, of "ps @ [(r, job)]"] Cons.prems(4) j r es(3) Some
        by (simp add: e \<open>row = Some r\<close> prepare_admission_eq set_rows_set_rows cleared_Cons)
    qed
  qed
qed

lemma nonces_split:
  assumes "distinct (map fst rs)"
  shows "nonces (filter (\<lambda>(r, x). \<not> f r) rs) i (nonces (filter (\<lambda>(r, x). f r) rs) i w) = nonces rs i w"
proof -
  have "map_of (filter (\<lambda>(r, x). P r) rs) i = (if P i then map_of rs i else None)" for P
    by (induction rs) auto
  then show ?thesis
    by (simp add: nonces_def split: option.split)
qed

lemma async_eq:
  assumes "admission_active a" "am_grind a = Some grind" "grind_ok grind"
    "es = boundary_entries sids rows step_ids contexts" "distinct (entry_rows es)"
    "\<forall>r \<in> set (entry_rows es). in_range (sm_rb s) r" "jobs_of a prec s es = Inr jobs"
  shows "\<exists>ps s'. begin_admission_for_rows a sids rows step_ids contexts prec f ([], s) =
      ((ps, s'), Inr {r \<in> aj_row ` set jobs. \<not> f r}) \<and>
    poll_admission grind (\<lambda>_. True) (ps, s') =
      (([], set_rows (\<lambda>i w. nonces (ground grind jobs) i (cleared (entry_rows es) i w)) s), Inr {r \<in> aj_row ` set jobs. \<not> f r})"
proof -
  let ?ps = "map (\<lambda>job. (aj_row job, job)) jobs" and ?s = "set_rows (cleared (entry_rows es)) s"
  have rows: "distinct (map aj_row jobs)" "set (map aj_row jobs) \<subseteq> set (entry_rows es)"
    using jobs_of_rows [OF assms(6,7,5)] by auto
  have sub: "submit_jobs a prec es ([], s) = ((?ps, ?s), None)"
    using submit_eq [OF assms(6,5,7), of "[]"] by simp
  have ps: "distinct (map fst ?ps)" "\<forall>(r, job) \<in> set ?ps. in_range (sm_rb ?s) r \<and> aj_row job = r"
    using rows assms(6) by (auto simp: comp_def)
  let ?done = "filter (\<lambda>(r, job). f r) ?ps" and ?rest = "filter (\<lambda>(r, job). \<not> f r) ?ps"
  let ?t = "set_rows (nonces (ground grind (map snd ?done))) ?s"
  have h1: "harvest grind f ?ps ?s = ((?rest, ?t), Inr (map fst ?done))"
    by (rule harvest_some [OF assms(3) ps])
  have rest: "distinct (map fst ?rest)" "\<forall>(r, job) \<in> set ?rest. in_range (sm_rb ?t) r \<and> aj_row job = r"
    using ps by (auto simp: distinct_map_filter)
  have h2: "harvest grind (\<lambda>_. True) ?rest ?t =
      (([], set_rows (nonces (ground grind (map snd ?rest))) ?t), Inr (map fst ?rest))"
    using harvest_some [OF assms(3) rest, of "\<lambda>_. True"] by simp
  have g: "ground grind (map snd (filter (\<lambda>(r, job). P r) ?ps)) = filter (\<lambda>(r, x). P r) (ground grind jobs)" for P
    by (induction jobs) (auto simp: ground_def)
  have "distinct (map fst (ground grind jobs))"
    using rows by (simp add: ground_def comp_def)
  then have "nonces (ground grind (map snd ?rest)) i (nonces (ground grind (map snd ?done)) i w) = nonces (ground grind jobs) i w" for i w
    unfolding g by (rule nonces_split)
  moreover have "set (map fst ?rest) = {r \<in> aj_row ` set jobs. \<not> f r}"
    by force
  ultimately show ?thesis
    using assms(1,2) sub h1 h2
    by (intro exI [of _ ?rest] exI [of _ ?t])
      (simp add: begin_admission_for_rows_def poll_admission_def assms(4) [symmetric] pending_admission_rows_def
        set_rows_set_rows)
qed

section \<open>The job of a row\<close>

lemma hex_nonempty: "s \<noteq> [] \<Longrightarrow> hex_to_bytes_tensor s = Inr bs \<Longrightarrow> bs \<noteq> []"
  using unhexlify_length [of s bs] by (auto simp: hex_to_bytes_tensor_def)

lemma hex_empty [simp]: "hex_to_bytes_tensor [] = Inr []"
  by (simp add: hex_to_bytes_tensor_def)

lemma overwrite_exact: "length src \<le> cap \<Longrightarrow> take (length src) (overwrite cap src dst) = src"
  by (simp add: overwrite_def)

text \<open>What a row holds after its job was written: header, VDF and tick as the job gives them.\<close>

definition row_job :: "pow_snapshot \<Rightarrow> byte list \<Rightarrow> byte list \<Rightarrow> int \<Rightarrow> rb_row \<Rightarrow> bool" where
  "row_job p header v t w \<longleftrightarrow> take (pow_header_len w) (pow_header w) = header \<and>
     take (pow_vdf_len w) (pow_vdf w) = v \<and> pow_tick w = t"

lemma act_then_None: "act_then f g s = (s', None) \<longleftrightarrow> (\<exists>t. f s = (t, None) \<and> g t = (s', None))"
  by (auto simp: act_then_def split: prod.splits option.splits)

lemma written_row:
  assumes "write_pow_params r (Some p) b = (b', None)" "in_range b r" "ps_tick p = Some t"
    "hex_to_bytes_tensor (ps_header_prefix p) = Inr h" "length h \<le> 76"
    "hex_to_bytes_tensor (ps_vdf p) = Inr v" "length v \<le> 1024"
    "hex_to_bytes_tensor (ps_block_hash p) = Inr bh" "length bh = 32"
  shows "row_job p (if h = [] then bh else h) v t (rb_rows b' ! r)"
proof -
  let ?w = "rb_rows b ! r"
  have "ps_block_hash p \<noteq> []"
    using assms(8,9) by auto
  have hp: "h = [] \<longleftrightarrow> ps_header_prefix p = []" and vp: "v = [] \<longleftrightarrow> ps_vdf p = []"
    using hex_nonempty assms(4,6) by (metis hex_empty sum.inject(2))+
  obtain w' where w': "b' = b\<lparr>rb_rows := (rb_rows b)[r := w']\<rparr>"
    "act_then (act_pure (\<lambda>w. w\<lparr>pow_tick := t, pow_request_id := ps_request_id p, pow_header_len_host := 0,
        pow_vdf_len_host := 0\<rparr>)) (act_then (write_header p) (act_then (write_vdf p) (act_then (write_target p)
        (act_then (write_share_target p) (act_then (write_block_hash p) (act_pure (\<lambda>w. w\<lparr>pow_valid := True\<rparr>)))))))
      ?w = (w', None)"
    using assms(1-3) by (auto simp: write_pow_params_def on_row_def split: prod.splits)
  obtain w1 w2 w3 w4 where
    st: "write_header p (?w\<lparr>pow_tick := t, pow_request_id := ps_request_id p, pow_header_len_host := 0,
        pow_vdf_len_host := 0\<rparr>) = (w1, None)"
      "write_vdf p w1 = (w2, None)" "write_target p w2 = (w3, None)" "write_share_target p w3 = (w4, None)"
    and bh: "act_then (write_block_hash p) (act_pure (\<lambda>w. w\<lparr>pow_valid := True\<rparr>)) w4 = (w', None)"
    using w'(2) unfolding act_then_None act_pure_def by auto
  have w1: "pow_tick w1 = t" "take (pow_header_len w1) (pow_header w1) = h" "pow_header_len w1 = length h"
    "pow_header_len_host w1 = length h"
    using st(1) assms(4,5) hp by (auto simp: write_header_def act_pure_def overwrite_exact Let_def min_absorb1)
  have w2: "pow_tick w2 = t" "take (pow_header_len w2) (pow_header w2) = h" "pow_header_len w2 = length h"
    "pow_header_len_host w2 = length h" "take (pow_vdf_len w2) (pow_vdf w2) = v"
    using st(2) assms(6,7) vp w1 by (auto simp: write_vdf_def act_pure_def overwrite_exact Let_def min_absorb1)
  have w3: "pow_tick w3 = t" "take (pow_header_len w3) (pow_header w3) = h" "pow_header_len w3 = length h"
    "pow_header_len_host w3 = length h" "take (pow_vdf_len w3) (pow_vdf w3) = v"
    using st(3) w2 by (auto simp: write_target_def act_pure_def act_let_def split: if_splits sum.splits)
  have w4: "pow_tick w4 = t" "take (pow_header_len w4) (pow_header w4) = h" "pow_header_len w4 = length h"
    "pow_header_len_host w4 = length h" "take (pow_vdf_len w4) (pow_vdf w4) = v"
    using st(4) w3 by (auto simp: write_share_target_def act_pure_def act_let_def split: if_splits sum.splits)
  have "overwrite 32 bh (pow_block_hash w4) = bh @ drop 32 (pow_block_hash w4)"
    using assms(9) by (simp add: overwrite_def)
  then have "take 32 (overwrite 32 (overwrite 32 bh (pow_block_hash w4)) (pow_header w4)) = bh"
    using assms(9) by (simp add: overwrite_def)
  then have "row_job p (if h = [] then bh else h) v t w'"
    using bh w4 assms(8,9) \<open>ps_block_hash p \<noteq> []\<close>
    by (auto simp: write_block_hash_def act_pure_def act_then_def row_job_def Let_def split: if_splits)
  then show ?thesis
    using w'(1) assms(2) by (simp add: in_range_def)
qed


lemma msg_with_nonce:
  assumes "build_step_message header v t st ctx prec None POW_WINDOW_SIZE = Inr m" "length nonce = 32"
  shows "build_step_message header v t st ctx prec (Some nonce) POW_WINDOW_SIZE = Inr (m @ nonce)"
  using assms unfolding step_message_total by (auto split: if_splits)

lemma fromhex_of_hex: "hex_to_bytes_tensor s = Inr bs \<Longrightarrow> fromhex s = Inr bs"
  by (auto simp: hex_to_bytes_tensor_def fromhex_unhexlify split: if_splits)

section \<open>Properties\<close>

text \<open>C5: the ground preimage is what is hashed: for a job whose header and VDF fit the buffers, after
  its parameters and a nonce were written to a row, the step message of the first step of the window
  is the message the nonce was ground for, followed by the nonce.\<close>

theorem ground_preimage_is_hashed:
  assumes "write_pow_params r (Some (pow_snapshot.truncate j)) b = (b', None)" "in_range b r"
    "hex_to_bytes_tensor (ps_header_prefix j) = Inr h" "length h \<le> 76"
    "hex_to_bytes_tensor (ps_vdf j) = Inr v" "length v \<le> 1024"
    "hex_to_bytes_tensor (ps_block_hash j) = Inr bh" "length bh = 32"
    "job_inputs a j cache ctx 0 prec difficulty = Inr g" "length nonce = 32"
  shows "reference_message (fst (write_admission_nonce r (Some nonce) b')) r ctx 0 prec = Inr (gi_msg_w g @ nonce)"
proof -
  obtain t header where t: "ps_tick j = Some t"
    and header: "fromhex (if ps_header_prefix j \<noteq> [] then ps_header_prefix j else ps_block_hash j) = Inr header"
    and msg: "build_step_message header v t 0 ctx prec None POW_WINDOW_SIZE = Inr (gi_msg_w g)"
    using assms(9) fromhex_of_hex [OF assms(5)]
    by (auto simp: job_inputs_def Let_def key_def build_admission_preimage_def rbind_Inr_iff split: option.splits)
  have "header = (if h = [] then bh else h)"
    using header fromhex_of_hex [OF assms(3)] fromhex_of_hex [OF assms(7)] hex_nonempty [OF _ assms(3)] assms(3)
    by (auto split: if_splits)
  moreover have "row_job (pow_snapshot.truncate j) (if h = [] then bh else h) v t (rb_rows b' ! r)"
    using assms t by (intro written_row [OF assms(1,2)]) (simp_all add: pow_snapshot.truncate_def)
  moreover have range: "in_range b' r"
    using assms(2) write_params_len [of r "Some (pow_snapshot.truncate j)" b] by (simp add: assms(1) in_range_def)
  moreover have "rb_rows (fst (write_admission_nonce r (Some nonce) b')) ! r = put_nonce nonce (rb_rows b' ! r)"
    using range assms(10) by (simp add: write_admission_nonce_def on_row_frame in_range_def put_nonce_def)
  ultimately show ?thesis
    using msg_with_nonce [OF msg assms(10)] by (simp add: reference_message_def Let_def row_job_def put_nonce_def)
qed

text \<open>The blocking admission call: it raises nothing when the grinds can be prepared, clears the
  nonce of every row at the start of a window, stores there exactly the nonce the grinder found for
  this row, and leaves every other row and everything else of the sampler as it was.\<close>

theorem blocking_admission_stores_nonces:
  assumes "admission_active a" "am_grind a = Some grind" "grind_ok grind"
    "distinct (entry_rows (boundary_entries sids rows step_ids contexts))"
    "\<forall>r \<in> set (entry_rows (boundary_entries sids rows step_ids contexts)). in_range (sm_rb s) r"
    "jobs_of a prec s (boundary_entries sids rows step_ids contexts) = Inr jobs"
  shows "snd (ensure_admission_for_rows a sids rows step_ids contexts prec s) = None \<and>
    (\<forall>r. in_range (sm_rb s) r \<longrightarrow>
       rb_rows (sm_rb (fst (ensure_admission_for_rows a sids rows step_ids contexts prec s))) ! r =
       (if r \<in> set (entry_rows (boundary_entries sids rows step_ids contexts))
        then (case map_of (ground grind jobs) r of
                Some (Some n) \<Rightarrow> put_nonce n (clear_nonce (rb_rows (sm_rb s) ! r))
              | _ \<Rightarrow> clear_nonce (rb_rows (sm_rb s) ! r))
        else rb_rows (sm_rb s) ! r)) \<and>
    (\<exists>rb. fst (ensure_admission_for_rows a sids rows step_ids contexts prec s) = s\<lparr>sm_rb := rb\<rparr>)"
proof -
  let ?es = "boundary_entries sids rows step_ids contexts"
  note eq = ensure_eq [OF assms(1-3) refl assms(4-6)]
  have out: "map_of (ground grind jobs) r = None" if "r \<notin> set (entry_rows ?es)" for r
    using jobs_of_rows [OF assms(5,6,4)] that by (auto simp: ground_def map_of_eq_None_iff)
  have "rb_rows (sm_rb (set_rows (\<lambda>i w. nonces (ground grind jobs) i (cleared (entry_rows ?es) i w)) s)) ! r =
      (if r \<in> set (entry_rows ?es)
        then (case map_of (ground grind jobs) r of
                Some (Some n) \<Rightarrow> put_nonce n (clear_nonce (rb_rows (sm_rb s) ! r))
              | _ \<Rightarrow> clear_nonce (rb_rows (sm_rb s) ! r))
        else rb_rows (sm_rb s) ! r)" if "in_range (sm_rb s) r" for r
    using out [of r] by (simp add: set_rows_nth [OF that] nonces_def cleared_def)
  moreover have "\<exists>rb. set_rows f s = s\<lparr>sm_rb := rb\<rparr>" for f
    by (auto simp: set_rows_def)
  ultimately show ?thesis
    unfolding eq by simp
qed

text \<open>C6: grinding in the background is the blocking call: begun with no pending grinds, whatever
  grinds have finished by then, the rows reported as pending are those whose grind has not finished,
  and once a later poll finds all of them finished the sampler is in the state of the blocking call.\<close>

theorem background_equals_blocking:
  assumes "admission_active a" "am_grind a = Some grind" "grind_ok grind"
    "distinct (entry_rows (boundary_entries sids rows step_ids contexts))"
    "\<forall>r \<in> set (entry_rows (boundary_entries sids rows step_ids contexts)). in_range (sm_rb s) r"
    "jobs_of a prec s (boundary_entries sids rows step_ids contexts) = Inr jobs"
  shows "snd (begin_admission_for_rows a sids rows step_ids contexts prec f ([], s)) = Inr {r \<in> aj_row ` set jobs. \<not> f r} \<and>
    poll_admission grind (\<lambda>_. True) (fst (begin_admission_for_rows a sids rows step_ids contexts prec f ([], s))) =
      (([], fst (ensure_admission_for_rows a sids rows step_ids contexts prec s)), Inr {r \<in> aj_row ` set jobs. \<not> f r})"
  using async_eq [OF assms(1-3) refl assms(4-6), of f] ensure_eq [OF assms(1-3) refl assms(4-6)] by auto

text \<open>A grinder that returns one fixed nonce, and a sampler with one job.\<close>

definition demo_admission :: admission where
  "demo_admission = \<lparr>am_mode = ''always'', am_max_tries_factor = 16, am_proof_version = 3,
     am_model_identifier = Some ''m'', am_grind = Some (\<lambda>w m t k c. Some (replicate 32 7))\<rparr>"

definition demo_mining_job :: job where
  "demo_mining_job = pow_snapshot.extend
     \<lparr>ps_tick = Some 7, ps_request_id = 1, ps_header_prefix = ''0a0b'', ps_vdf = ''ff'',
      ps_block_hash = replicate 64 CHR ''0'', ps_target = ''ff'', ps_share_target = []\<rparr>
     \<lparr>job_difficulty = Some 1000000, job_ipfs_cid = None, job_audit_emit = False\<rparr>"

lemma demo_grind: "admission_active demo_admission" "am_grind demo_admission = Some (\<lambda>w m t k c. Some (replicate 32 7))"
  "grind_ok (\<lambda>w m t k c. Some (replicate 32 7))"
  by (simp_all add: admission_active_def demo_admission_def V3_PROOF_VERSION_def grind_ok_def)

lemma demo_inputs: "\<exists>g. job_inputs demo_admission demo_mining_job None [1, 2] 0 ''fp16'' 1000000 = Inr g"
proof -
  have hex: "fromhex ''0a0b'' = Inr [0x0a, 0x0b]" "fromhex ''ff'' = Inr [0xff]"
    by code_simp+
  obtain g where "build_admission_preimage [0x0a, 0x0b] [0xff] 7 0 [1, 2] [] (Some []) ''fp16'' 1000000 ''m'' 16 = Inr g"
    using grind_inputs_exist [of 1000000 "[1, 2]" "[]" "Some []" "[0x0a, 0x0b]" "[0xff]" 7 0 "''fp16''" "''m''" 16]
    by (auto simp: left_pad_short i64_ok_def list_all_iff effective_mask_def)
  then show ?thesis
    by (auto simp: job_inputs_def demo_mining_job_def demo_admission_def pow_snapshot.extend_def hex key_def Let_def
        simp del: fromhex.simps)
qed

definition demo_seq_params :: seq_params where
  "demo_seq_params = \<lparr>sp_temperature = None, sp_top_p = None, sp_top_k = None, sp_repetition_penalty = None,
     sp_completion_id = [], sp_request_item_id = [], sp_base_completion_id = [], sp_snapshot = Some demo_mining_job\<rparr>"

definition demo_mining :: sampler where
  "demo_mining = (sampler_init 4 4 99 True 0)\<lparr>sm_params := [(7, demo_seq_params)]\<rparr>"

lemma demo_jobs: "\<exists>job. jobs_of demo_admission ''fp16'' demo_mining
    (boundary_entries [8, 7] [Some 3, Some 0] [3, 0] [[5], [1, 2]]) = Inr [job] \<and> aj_row job = 0"
proof -
  have entries: "boundary_entries [8, 7] [Some 3, Some 0] [3, 0] [[5], [1, 2]] = [(7, Some 0, [1, 2])]"
    by (simp add: boundary_entries_def upt_rec)
  have range: "in_range (sm_rb demo_mining) 0"
    by (simp add: demo_mining_def sampler_init_def rb_init_def in_range_def)
  obtain g where g: "job_inputs demo_admission demo_mining_job None [1, 2] 0 ''fp16'' 1000000 = Inr g"
    using demo_inputs by blast
  have "sm_caches demo_mining = []" "sm_params demo_mining = [(7, demo_seq_params)]"
    "sp_snapshot demo_seq_params = Some demo_mining_job" "job_difficulty demo_mining_job = Some 1000000"
    by (simp_all add: demo_mining_def sampler_init_def demo_seq_params_def demo_mining_job_def pow_snapshot.extend_def)
  then show ?thesis
    using g range by (simp add: entries prepared_def prepare_admission_def write_none)
qed

theorem ground_preimage_is_hashed_witness:
  "\<exists>g. job_inputs demo_admission demo_mining_job None [1, 2] 0 ''fp16'' 1000000 = Inr g \<and>
    reference_message (fst (write_admission_nonce 1 (Some (replicate 32 7))
      (fst (write_pow_params 1 (Some (pow_snapshot.truncate demo_mining_job)) (rb_init 4 2 True))))) 1 [1, 2] 0 ''fp16'' =
      Inr (gi_msg_w g @ replicate 32 7)"
proof -
  obtain g where g: "job_inputs demo_admission demo_mining_job None [1, 2] 0 ''fp16'' 1000000 = Inr g"
    using demo_inputs by blast
  have hex: "hex_to_bytes_tensor (ps_header_prefix demo_mining_job) = Inr [0x0a, 0x0b]"
    "hex_to_bytes_tensor (ps_vdf demo_mining_job) = Inr [0xff]"
    "hex_to_bytes_tensor (ps_block_hash demo_mining_job) = Inr (replicate 32 0)"
    by code_simp+
  have "snd (write_pow_params 1 (Some (pow_snapshot.truncate demo_mining_job)) (rb_init 4 2 True)) = None"
    by code_simp
  then have w: "write_pow_params 1 (Some (pow_snapshot.truncate demo_mining_job)) (rb_init 4 2 True) =
      (fst (write_pow_params 1 (Some (pow_snapshot.truncate demo_mining_job)) (rb_init 4 2 True)), None)"
    by (simp add: prod_eq_iff)
  show ?thesis
    using ground_preimage_is_hashed [OF w _ hex(1) _ hex(2) _ hex(3) _ g, of "replicate 32 7"] g
    by (simp add: in_range_def rb_init_def)
qed

theorem blocking_admission_stores_nonces_witness:
  "pow_admission_nonce (rb_rows (sm_rb (fst (ensure_admission_for_rows demo_admission [8, 7] [Some 3, Some 0] [3, 0]
      [[5], [1, 2]] ''fp16'' demo_mining))) ! 0) = replicate 32 7 \<and>
   pow_admission_valid (rb_rows (sm_rb (fst (ensure_admission_for_rows demo_admission [8, 7] [Some 3, Some 0] [3, 0]
      [[5], [1, 2]] ''fp16'' demo_mining))) ! 0)"
proof -
  let ?es = "boundary_entries [8, 7] [Some 3, Some 0] [3, 0] [[5], [1, 2]]"
  obtain job where job: "jobs_of demo_admission ''fp16'' demo_mining ?es = Inr [job]" "aj_row job = 0"
    using demo_jobs by blast
  have rows: "entry_rows ?es = [0]"
    by (simp add: boundary_entries_def upt_rec)
  have range: "in_range (sm_rb demo_mining) 0"
    by (simp add: demo_mining_def sampler_init_def rb_init_def in_range_def)
  show ?thesis
    using blocking_admission_stores_nonces [OF demo_grind _ _ job(1)] range
    by (simp add: rows ground_def grind_job_def Let_def job(2) put_nonce_def)
qed

theorem background_equals_blocking_witness:
  "poll_admission (\<lambda>w m t k c. Some (replicate 32 7)) (\<lambda>_. True)
     (fst (begin_admission_for_rows demo_admission [8, 7] [Some 3, Some 0] [3, 0] [[5], [1, 2]] ''fp16'' (\<lambda>_. False) ([], demo_mining))) =
   (([], fst (ensure_admission_for_rows demo_admission [8, 7] [Some 3, Some 0] [3, 0] [[5], [1, 2]] ''fp16'' demo_mining)), Inr {0})"
proof -
  let ?es = "boundary_entries [8, 7] [Some 3, Some 0] [3, 0] [[5], [1, 2]]"
  obtain job where job: "jobs_of demo_admission ''fp16'' demo_mining ?es = Inr [job]" "aj_row job = 0"
    using demo_jobs by blast
  have rows: "entry_rows ?es = [0]"
    by (simp add: boundary_entries_def upt_rec)
  have "in_range (sm_rb demo_mining) 0"
    by (simp add: demo_mining_def sampler_init_def rb_init_def in_range_def)
  then show ?thesis
    using background_equals_blocking [OF demo_grind _ _ job(1), of "\<lambda>_. False"] by (simp add: rows job(2))
qed

end
