(* ===== verification/Json.thy ===== *)
theory Json
  imports Doubles PyText
begin

text \<open>
  Values as \<^verbatim>\<open>json.loads\<close> returns them, and what Python does with them: truth values, indexing,
  \<^verbatim>\<open>get\<close>, comparison with integers and \<^verbatim>\<open>int\<close>.  The pairs of an object have distinct keys and keep
  the order of insertion.
\<close>

datatype json = JNull | JBool bool | JInt int | JFloat f64 | JStr string | JArr "json list" | JObj "(string \<times> json) list"

fun json_true :: "json \<Rightarrow> bool" where
  "json_true JNull = False"
| "json_true (JBool b) = b"
| "json_true (JInt n) = (n \<noteq> 0)"
| "json_true (JFloat x) = (case x of Fin m e \<Rightarrow> m \<noteq> 0 | _ \<Rightarrow> True)"
| "json_true (JStr s) = (s \<noteq> [])"
| "json_true (JArr xs) = (xs \<noteq> [])"
| "json_true (JObj ps) = (ps \<noteq> [])"

text \<open>\<^verbatim>\<open>o.get(k)\<close> and \<^verbatim>\<open>o.get(k, d)\<close>; only objects have \<^verbatim>\<open>get\<close>.\<close>

fun json_get :: "json \<Rightarrow> string \<Rightarrow> json \<Rightarrow> json res" where
  "json_get (JObj ps) k d = Inr (case map_of ps k of None \<Rightarrow> d | Some v \<Rightarrow> v)"
| "json_get _ k d = Inl AttributeError"

definition json_has :: "json \<Rightarrow> string \<Rightarrow> bool" where
  "json_has ob k = (case ob of JObj ps \<Rightarrow> map_of ps k \<noteq> None | _ \<Rightarrow> False)"

text \<open>\<^verbatim>\<open>x[i]\<close> for a non-negative index.\<close>

fun json_index :: "json \<Rightarrow> nat \<Rightarrow> json res" where
  "json_index (JArr xs) i = (if i < length xs then Inr (xs ! i) else Inl IndexError)"
| "json_index (JStr s) i = (if i < length s then Inr (JStr [s ! i]) else Inl IndexError)"
| "json_index (JObj ps) i = Inl KeyError"
| "json_index _ i = Inl TypeError"

fun json_len :: "json \<Rightarrow> nat res" where
  "json_len (JArr xs) = Inr (length xs)"
| "json_len (JStr s) = Inr (length s)"
| "json_len (JObj ps) = Inr (length ps)"
| "json_len _ = Inl TypeError"

text \<open>\<^verbatim>\<open>x[a:b]\<close> for \<open>a \<le> b\<close>.\<close>

fun json_slice :: "json \<Rightarrow> nat \<Rightarrow> nat \<Rightarrow> json res" where
  "json_slice (JArr xs) a b = Inr (JArr (take (b - a) (drop a xs)))"
| "json_slice (JStr s) a b = Inr (JStr (take (b - a) (drop a s)))"
| "json_slice _ a b = Inl TypeError"

text \<open>\<^verbatim>\<open>isinstance(x, (int, float))\<close> (a Boolean is an integer), \<^verbatim>\<open>int(x)\<close> and \<^verbatim>\<open>x >= n\<close>, \<^verbatim>\<open>x == n\<close>.\<close>

fun json_number :: "json \<Rightarrow> bool" where
  "json_number (JInt n) = True"
| "json_number (JBool b) = True"
| "json_number (JFloat x) = True"
| "json_number _ = False"

definition trunc_dyadic :: "int \<Rightarrow> int \<Rightarrow> int" where
  "trunc_dyadic m e = (if 0 \<le> e then m * 2 ^ nat e
     else if 0 \<le> m then m div 2 ^ nat (- e) else - ((- m) div 2 ^ nat (- e)))"

fun json_int :: "json \<Rightarrow> int res" where
  "json_int (JInt n) = Inr n"
| "json_int (JBool b) = Inr (if b then 1 else 0)"
| "json_int (JFloat NaN) = Inl ValueError"
| "json_int (JFloat (Inf s)) = Inl OverflowError"
| "json_int (JFloat (Fin m e)) = Inr (trunc_dyadic m e)"
| "json_int (JStr s) = py_int s"
| "json_int _ = Inl TypeError"

fun json_ge :: "json \<Rightarrow> int \<Rightarrow> bool res" where
  "json_ge (JInt n) k = Inr (k \<le> n)"
| "json_ge (JBool b) k = Inr (k \<le> (if b then 1 else 0))"
| "json_ge (JFloat x) k = Inr (f64_le (Fin k 0) x)"
| "json_ge _ k = Inl TypeError"

fun json_eq :: "json \<Rightarrow> int \<Rightarrow> bool" where
  "json_eq (JInt n) k = (n = k)"
| "json_eq (JBool b) k = ((if b then 1 else 0) = k)"
| "json_eq (JFloat x) k = (f64_le (Fin k 0) x \<and> f64_le x (Fin k 0))"
| "json_eq _ k = False"

end
