(* ===== verification/Bridge.thy ===== *)
theory Bridge
  imports Json Sha256 Hex "HOL-Library.AList"
begin

text \<open>
  The stratum bridge \<^verbatim>\<open>vllm-stratum-bridge.py\<close>: jobs from the pool, prompts for the local worker, and
  the submission of its proofs.  The state is the attributes of \<^verbatim>\<open>Bridge\<close> and the lines written to
  the pool.  A message of the pool is the value of its line, a proof of the worker the fields of its
  \<^verbatim>\<open>MiningResponse\<close> that the bridge reads.  Threads share the state under its lock; the last section
  interleaves them at the points where the code takes it.
\<close>

section \<open>State\<close>

record pow_payload =
  pp_block_hash :: json
  pp_vdf :: string
  pp_tick :: int
  pp_request_id :: int
  pp_target :: json
  pp_share_target :: json
  pp_difficulty :: int
  pp_header_prefix :: json
  pp_model :: "json \<times> json"

record bridge_job =
  bj_job_id :: json
  bj_pow :: pow_payload
  bj_vdf_tick :: int

text \<open>
  What the pool sees: a new connection, then lines with a subscription, authorisation, the answer to a ping, a submission with
  its identifier and the parameters job, nonce, proof, achieved hash and tick.
\<close>

datatype line =
    Opened
  | Subscribe
  | Authorize
  | Pong json
  | Submit nat json nat string string int

text \<open>
  The stamped model is the pair of values the name is rendered from.  \<open>br_out\<close> holds the lines
  written, the latest last; \<open>br_wfile\<close> says whether there is a write handle.
\<close>

record bridge =
  br_job :: "bridge_job option"
  br_job_by_req :: "(int \<times> json) list"
  br_difficulty :: int
  br_share_target :: json
  br_model :: "json \<times> json"
  br_nonce :: nat
  br_wfile :: bool
  br_next_id :: nat
  br_submitted :: nat
  br_accepted :: nat
  br_rejected :: nat
  br_stale :: nat
  br_below_floor :: nat
  br_id_checked :: bool
  br_dbg_resp :: nat
  br_proofs :: nat
  br_out :: "line list"

record bridge_args =
  ba_placeholder_vdf :: string
  ba_placeholder_tick :: int
  ba_b_floor :: f64
  ba_concurrency :: nat

definition default_args :: bridge_args where
  "default_args = \<lparr>ba_placeholder_vdf = replicate 200 CHR ''0'', ba_placeholder_tick = 315000,
     ba_b_floor = Fin 70 0, ba_concurrency = 16\<rparr>"

definition bridge_init :: bridge where
  "bridge_init = \<lparr>br_job = None, br_job_by_req = [], br_difficulty = 1000000, br_share_target = JNull,
     br_model = (JStr ''Qwen/Qwen3-8B'', JStr ''9c925d64d72725edaf899c6cb9c377fd0709d9c5''),
     br_nonce = 1, br_wfile = False, br_next_id = 3, br_submitted = 0, br_accepted = 0,
     br_rejected = 0, br_stale = 0, br_below_floor = 0, br_id_checked = False, br_dbg_resp = 0, br_proofs = 0,
     br_out = []\<rparr>"

section \<open>The connection\<close>

text \<open>\<^verbatim>\<open>send\<close>: \<open>io_ok\<close> is whether the write goes through; a failed one drops the handle.\<close>

definition send :: "bool \<Rightarrow> line \<Rightarrow> bridge \<Rightarrow> bridge" where
  "send io_ok l s =
     (if \<not> br_wfile s then s
      else if io_ok then s\<lparr>br_out := br_out s @ [l]\<rparr>
      else s\<lparr>br_wfile := False\<rparr>)"

text \<open>\<^verbatim>\<open>connect\<close> once the socket is open: a new write handle, then two lines.\<close>

definition dial :: "bridge \<Rightarrow> bridge" where
  "dial s = s\<lparr>br_wfile := True, br_out := br_out s @ [Opened]\<rparr>"

definition connect :: "bool \<Rightarrow> bridge \<Rightarrow> bridge" where
  "connect io_ok s = send io_ok Authorize (send io_ok Subscribe (dial s))"

section \<open>Messages of the pool\<close>

definition payload_of :: "bridge_args \<Rightarrow> bridge \<Rightarrow> json \<Rightarrow> (json \<times> pow_payload \<times> bool) option res" where
  "payload_of a s p =
     rbind (json_len p) (\<lambda>n.
     if n < 7 then Inr None
     else
       rbind (json_index p 1) (\<lambda>header_prefix.
       rbind (json_index p 2) (\<lambda>block_target.
       rbind (if 7 < n then json_index p 7 else Inr JNull) (\<lambda>p7.
       rbind (if json_number p7 then json_int p7 else Inr 0) (\<lambda>request_id.
       rbind (if 9 < n then json_index p 9 else Inr JNull) (\<lambda>p9.
       rbind (if 10 < n then json_index p 10 else Inr JNull) (\<lambda>p10.
       rbind (if json_number p10 then json_int p10 else Inr (ba_placeholder_tick a)) (\<lambda>tick.
       rbind (json_index p 0) (\<lambda>job_id.
       rbind (json_slice header_prefix 8 72) (\<lambda>block_hash.
       rbind (json_index p 6) (\<lambda>clean.
         Inr (Some (job_id,
           \<lparr>pp_block_hash = block_hash,
            pp_vdf = (case p9 of JStr v \<Rightarrow> if v \<noteq> [] then v else ba_placeholder_vdf a | _ \<Rightarrow> ba_placeholder_vdf a),
            pp_tick = tick, pp_request_id = request_id, pp_target = block_target,
            pp_share_target = (if json_true (br_share_target s) then br_share_target s
                               else JStr (replicate 2 CHR ''0'' @ replicate 62 CHR ''f'')),
            pp_difficulty = br_difficulty s, pp_header_prefix = header_prefix, pp_model = br_model s\<rparr>,
           json_true clean)))))))))))))"

definition trim_jobs :: "(int \<times> json) list \<Rightarrow> (int \<times> json) list" where
  "trim_jobs m = (if 32 < length m then fold AList.delete (take 16 (map fst m)) m else m)"

definition on_notify :: "bridge_args \<Rightarrow> json \<Rightarrow> bridge act" where
  "on_notify a p s = act_let (payload_of a s p) (\<lambda>r s. case r of
      None \<Rightarrow> (s, None)
    | Some (job_id, pw, clean) \<Rightarrow>
        (let m = (if clean then [] else br_job_by_req s);
             m = AList.update (pp_request_id pw) job_id m
         in (s\<lparr>br_job := Some \<lparr>bj_job_id = job_id, bj_pow = pw, bj_vdf_tick = pp_tick pw\<rparr>,
               br_job_by_req := trim_jobs m\<rparr>, None))) s"

definition on_set_target :: "json \<Rightarrow> bridge act" where
  "on_set_target params = act_let (json_index params 0) (\<lambda>t. act_pure (\<lambda>s. s\<lparr>br_share_target := t\<rparr>))"

definition on_set_model :: "json \<Rightarrow> bridge act" where
  "on_set_model params =
     act_let (json_index params 0) (\<lambda>ob.
     act_let (json_get ob ''name'' JNull) (\<lambda>name.
     act_let (json_get ob ''commit'' JNull) (\<lambda>commit.
     act_then (act_pure (\<lambda>s. s\<lparr>br_model := (name, commit)\<rparr>))
       (\<lambda>s. act_let (rbind (json_get ob ''difficulty'' (JInt (br_difficulty s))) json_int)
              (\<lambda>d. act_pure (\<lambda>s. s\<lparr>br_difficulty := d\<rparr>)) s))))"

definition error_code :: "json \<Rightarrow> json" where
  "error_code err = (case err of
      JArr (c # _) \<Rightarrow> c
    | JObj ps \<Rightarrow> (case map_of ps ''code'' of None \<Rightarrow> JInt 20 | Some c \<Rightarrow> c)
    | _ \<Rightarrow> JInt 20)"

definition on_response :: "json \<Rightarrow> bridge act" where
  "on_response m = act_let (json_get m ''error'' JNull) (\<lambda>err. act_pure (\<lambda>s0.
     let s = s0\<lparr>br_dbg_resp := min 3 (br_dbg_resp s0 + 1)\<rparr> in
     if err = JNull then s\<lparr>br_accepted := br_accepted s + 1\<rparr>
     else if json_eq (error_code err) 21 then s\<lparr>br_stale := br_stale s + 1\<rparr>
     else s\<lparr>br_rejected := br_rejected s + 1\<rparr>))"

text \<open>
  \<^verbatim>\<open>on_message\<close>, branch by branch: a known method with empty parameters falls through to the test of
  the identifier.
\<close>

definition on_message :: "bridge_args \<Rightarrow> bool \<Rightarrow> json \<Rightarrow> bridge act" where
  "on_message a io_ok m =
     act_let (json_get m ''method'' JNull) (\<lambda>meth.
     act_let (json_get m ''params'' JNull) (\<lambda>params.
     act_let (json_get m ''id'' JNull) (\<lambda>ident.
     if meth = JStr ''mining.notify'' then
       (if json_has m ''params'' then on_notify a params else (\<lambda>s. (s, Some KeyError)))
     else if meth = JStr ''mining.set_target'' \<and> json_true params then on_set_target params
     else if meth = JStr ''mining.set_model'' \<and> json_true params then on_set_model params
     else if meth = JStr ''mining.ping'' then act_pure (send io_ok (Pong ident))
     else act_let (json_ge (if json_has m ''id'' then ident else JInt 0) 3) (\<lambda>is_submit.
       if is_submit \<and> (json_has m ''result'' \<or> json_has m ''error'') then on_response m
       else act_pure id))))"

text \<open>
  One pass over a connection: unparsable lines (\<open>None\<close>) are skipped, an exception of
  \<^verbatim>\<open>on_message\<close> leaves \<^verbatim>\<open>reader\<close>, and \<^verbatim>\<open>supervisor\<close> only catches OSError, which no message raises.
\<close>

fun reader :: "bridge_args \<Rightarrow> (json option \<times> bool) list \<Rightarrow> bridge act" where
  "reader a [] = act_pure id"
| "reader a ((None, io_ok) # ls) = reader a ls"
| "reader a ((Some m, io_ok) # ls) = act_then (on_message a io_ok m) (reader a ls)"

text \<open>
  \<^verbatim>\<open>supervisor\<close> over a list of connections: \<open>None\<close> a failed attempt, \<open>Some\<close> the lines of one.  The
  error is the exception that ends the thread.
\<close>

fun supervisor :: "bridge_args \<Rightarrow> (bool \<times> (json option \<times> bool) list) option list \<Rightarrow> bridge act" where
  "supervisor a [] = act_pure id"
| "supervisor a (None # cs) = act_then (act_pure (\<lambda>s. s\<lparr>br_wfile := False\<rparr>)) (supervisor a cs)"
| "supervisor a (Some (io_ok, ls) # cs) =
     act_then (act_pure (connect io_ok)) (act_then (reader a ls)
       (act_then (act_pure (\<lambda>s. s\<lparr>br_wfile := False\<rparr>)) (supervisor a cs)))"

section \<open>Prompts\<close>

text \<open>The salt of the \<open>k\<close>-th prompt of a worker.\<close>

definition prompt_salt :: "string \<Rightarrow> nat \<Rightarrow> nat \<Rightarrow> nat \<Rightarrow> string" where
  "prompt_salt base concurrency worker k =
     base @ ''-'' @ dec worker @ ''-'' @ dec (worker + k * concurrency)"

text \<open>What \<^verbatim>\<open>dispatch_loop\<close> sends in an iteration: nothing without a job.\<close>

definition dispatch :: "string \<Rightarrow> bridge_args \<Rightarrow> nat \<Rightarrow> nat \<Rightarrow> bridge \<Rightarrow> (string \<times> pow_payload) option" where
  "dispatch base a worker k s =
     map_option (\<lambda>j. (prompt_salt base (ba_concurrency a) worker k, bj_pow j)) (br_job s)"

section \<open>Proofs of the worker\<close>

record proof_blob =
  pb_header_prefix :: "byte list"
  pb_hash :: "byte list"
  pb_chosen_probs :: "f64 list"

record mining_response =
  mr_req_id :: int
  mr_pow_blob :: "proof_blob option"

text \<open>
  \<^verbatim>\<open>_b_cred\<close>: the clamped probabilities, their negated logarithms added up from the left.  The
  logarithm and the addition of doubles are arguments.
\<close>

definition clamp_prob :: "f64 \<Rightarrow> f64" where
  "clamp_prob p =
     (if f64_le p (Fin 0 0) then Fin 4951760157141521 (- 92)
      else if f64_lt (Fin 1 0) p then Fin 1 0
      else p)"

definition b_cred :: "(f64 \<Rightarrow> f64) \<Rightarrow> (f64 \<Rightarrow> f64 \<Rightarrow> f64) \<Rightarrow> f64 list \<Rightarrow> f64 option" where
  "b_cred neg_log2 add probs =
     (if probs = [] then None
      else Some (foldl (\<lambda>total p. add total (neg_log2 (clamp_prob p))) (Fin 0 0) probs))"

definition sha256d :: "byte list \<Rightarrow> byte list" where
  "sha256d b = sha256 (sha256 b)"

text \<open>\<^verbatim>\<open>base64.b64encode\<close>.\<close>

definition b64char :: "nat \<Rightarrow> char" where
  "b64char n = (if n < 26 then char_of (65 + n) else if n < 52 then char_of (71 + n)
     else if n < 62 then char_of (n - 4) else if n = 62 then CHR ''+'' else CHR ''/'')"

fun b64encode :: "byte list \<Rightarrow> string" where
  "b64encode [] = []"
| "b64encode [a] = (let n = unat a * 16 in [b64char (n div 64), b64char (n mod 64), CHR ''='', CHR ''=''])"
| "b64encode [a, b] = (let n = (unat a * 256 + unat b) * 4
     in [b64char (n div 4096), b64char (n div 64 mod 64), b64char (n mod 64), CHR ''=''])"
| "b64encode (a # b # c # bs) = (let n = (unat a * 256 + unat b) * 256 + unat c
     in [b64char (n div 262144), b64char (n div 4096 mod 64), b64char (n div 64 mod 64), b64char (n mod 64)] @ b64encode bs)"

definition achieved :: "proof_blob \<Rightarrow> string" where
  "achieved pb = to_hex (rev (sha256d (pb_header_prefix pb @ take 4 (pb_hash pb))))"

definition job_of_proof :: "bridge \<Rightarrow> int \<Rightarrow> json" where
  "job_of_proof s req_id =
     (let j = (case map_of (br_job_by_req s) req_id of None \<Rightarrow> JNull | Some j \<Rightarrow> j)
      in if json_true j then j
         else case br_job s of None \<Rightarrow> JNull | Some job \<Rightarrow> bj_job_id job)"

text \<open>
  \<^verbatim>\<open>submit_proof\<close> up to the end of its locked block: the job and the tick of the submission, unless
  the proof is dropped.
\<close>

definition check_proof ::
    "(f64 \<Rightarrow> f64) \<Rightarrow> (f64 \<Rightarrow> f64 \<Rightarrow> f64) \<Rightarrow> bridge_args \<Rightarrow> mining_response \<Rightarrow> bridge \<Rightarrow>
     bridge \<times> (json \<times> string \<times> int) option" where
  "check_proof neg_log2 add a mr s = (case mr_pow_blob mr of
      None \<Rightarrow> (s, None)
    | Some pb \<Rightarrow>
        if length (pb_header_prefix pb) \<noteq> 76 \<or> length (pb_hash pb) \<noteq> 32 then (s, None)
        else
          (let s = s\<lparr>br_id_checked := True\<rparr>
           in if (case b_cred neg_log2 add (pb_chosen_probs pb) of None \<Rightarrow> False | Some c \<Rightarrow> f64_lt c (ba_b_floor a))
              then (s\<lparr>br_below_floor := br_below_floor s + 1\<rparr>, None)
              else
                (let job_id = job_of_proof s (mr_req_id mr);
                     vdf_tick = (case br_job s of None \<Rightarrow> 315000 | Some job \<Rightarrow> bj_vdf_tick job)
                 in (s, if json_true job_id then Some (job_id, achieved pb, vdf_tick) else None))))"

text \<open>The rest of it: a fresh nonce and a fresh identifier, and the line.\<close>

definition emit :: "bool \<Rightarrow> byte list \<Rightarrow> json \<times> string \<times> int \<Rightarrow> bridge \<Rightarrow> bridge" where
  "emit io_ok raw r s = (case r of (job_id, hash, vdf_tick) \<Rightarrow>
     let l = Submit (br_next_id s) job_id (br_nonce s) (b64encode raw) hash vdf_tick;
         s = s\<lparr>br_nonce := br_nonce s + 1, br_next_id := br_next_id s + 1\<rparr>;
         s = send io_ok l s
     in s\<lparr>br_submitted := br_submitted s + 1\<rparr>)"

definition submit_proof ::
    "(f64 \<Rightarrow> f64) \<Rightarrow> (f64 \<Rightarrow> f64 \<Rightarrow> f64) \<Rightarrow> bridge_args \<Rightarrow> bool \<Rightarrow> byte list \<Rightarrow> mining_response \<Rightarrow> bridge \<Rightarrow> bridge" where
  "submit_proof neg_log2 add a io_ok raw mr s = (case check_proof neg_log2 add a mr s of
      (s, None) \<Rightarrow> s
    | (s, Some r) \<Rightarrow> emit io_ok raw r s)"

text \<open>
  An iteration of \<^verbatim>\<open>drain_loop\<close> with a message.  Reading its fields is an argument; an exception
  (\<open>None\<close>) is logged and the loop goes on.
\<close>

definition drain ::
    "(byte list \<Rightarrow> mining_response option) \<Rightarrow> (f64 \<Rightarrow> f64) \<Rightarrow> (f64 \<Rightarrow> f64 \<Rightarrow> f64) \<Rightarrow> bridge_args \<Rightarrow> bool \<Rightarrow>
     byte list \<Rightarrow> bridge \<Rightarrow> bridge" where
  "drain decode neg_log2 add a io_ok raw s =
     (let s = s\<lparr>br_proofs := br_proofs s + 1\<rparr>
      in case decode raw of None \<Rightarrow> s | Some mr \<Rightarrow> submit_proof neg_log2 add a io_ok raw mr s)"

section \<open>Interleavings\<close>

text \<open>
  Where the connection thread is: between connections, greeting with the lines still to send,
  reading, or ended by an exception.
\<close>

datatype supervisor_at = Down | Greeting "line list" | Reading | Ended

text \<open>
  The shared state, the two threads that change it (the drain thread may hold a submission it has
  looked up and not sent yet), and the jobs notified so far.
\<close>

record threads =
  th_br :: bridge
  th_sup :: supervisor_at
  th_pending :: "(byte list \<times> json \<times> string \<times> int) option"
  th_notified :: "(int \<times> json) list"

definition threads_init :: threads where
  "threads_init = \<lparr>th_br = bridge_init, th_sup = Down, th_pending = None, th_notified = []\<rparr>"

text \<open>The job a message announces.\<close>

definition announced :: "bridge_args \<Rightarrow> json \<Rightarrow> bridge \<Rightarrow> (int \<times> json) list" where
  "announced a m s = (case (json_get m ''method'' JNull, json_get m ''params'' JNull) of
      (Inr meth, Inr params) \<Rightarrow>
        (if meth = JStr ''mining.notify'' \<and> json_has m ''params''
         then (case payload_of a s params of
                 Inr (Some (job_id, pw, clean)) \<Rightarrow> [(pp_request_id pw, job_id)]
               | _ \<Rightarrow> [])
         else [])
    | _ \<Rightarrow> [])"

definition receive :: "bridge_args \<Rightarrow> bool \<Rightarrow> json \<Rightarrow> threads \<Rightarrow> threads" where
  "receive a io_ok m t = (case on_message a io_ok m (th_br t) of (s, e) \<Rightarrow>
     t\<lparr>th_br := s, th_sup := (case e of None \<Rightarrow> Reading | Some _ \<Rightarrow> Ended),
       th_notified := th_notified t @ announced a m (th_br t)\<rparr>)"

definition pull ::
    "(byte list \<Rightarrow> mining_response option) \<Rightarrow> (f64 \<Rightarrow> f64) \<Rightarrow> (f64 \<Rightarrow> f64 \<Rightarrow> f64) \<Rightarrow> bridge_args \<Rightarrow>
     byte list \<Rightarrow> threads \<Rightarrow> threads" where
  "pull decode neg_log2 add a raw t =
     (let s = (th_br t)\<lparr>br_proofs := br_proofs (th_br t) + 1\<rparr>
      in case decode raw of
           None \<Rightarrow> t\<lparr>th_br := s\<rparr>
         | Some mr \<Rightarrow> (case check_proof neg_log2 add a mr s of
             (s, r) \<Rightarrow> t\<lparr>th_br := s, th_pending := map_option (Pair raw) r\<rparr>))"

inductive br_step :: "bridge_args \<Rightarrow> threads \<Rightarrow> threads \<Rightarrow> bool" for a where
  dial: "th_sup t = Down \<Longrightarrow>
    br_step a t (t\<lparr>th_br := dial (th_br t), th_sup := Greeting [Subscribe, Authorize]\<rparr>)"
| refused: "th_sup t = Down \<Longrightarrow> br_step a t (t\<lparr>th_br := (th_br t)\<lparr>br_wfile := False\<rparr>\<rparr>)"
| greet: "th_sup t = Greeting (l # ls) \<Longrightarrow>
    br_step a t (t\<lparr>th_br := send io_ok l (th_br t), th_sup := (if ls = [] then Reading else Greeting ls)\<rparr>)"
| receive: "th_sup t = Reading \<Longrightarrow> br_step a t (receive a io_ok m t)"
| closed: "th_sup t = Reading \<Longrightarrow>
    br_step a t (t\<lparr>th_br := (th_br t)\<lparr>br_wfile := False\<rparr>, th_sup := Down\<rparr>)"
| pull: "th_pending t = None \<Longrightarrow> br_step a t (pull decode neg_log2 add a raw t)"
| emit: "th_pending t = Some (raw, r) \<Longrightarrow>
    br_step a t (t\<lparr>th_br := emit io_ok raw r (th_br t), th_pending := None\<rparr>)"

inductive br_reach :: "bridge_args \<Rightarrow> threads \<Rightarrow> bool" for a where
  init: "br_reach a threads_init"
| step: "br_reach a t \<Longrightarrow> br_step a t t' \<Longrightarrow> br_reach a t'"

end
