(* ===== verification/BridgeFacts.thy ===== *)
theory BridgeFacts
  imports Bridge
begin

text \<open>
  Facts about the stratum bridge: the invariants of its two threads under any interleaving, what a
  proof of the worker turns into, what ends the connection thread, and the uniqueness of the
  prompts.
\<close>

section \<open>The table of jobs\<close>

lemma delete_keys: "fold AList.delete ks m = filter (\<lambda>(k, _). k \<notin> set ks) m"
proof (induction ks arbitrary: m)
  case Nil
  then show ?case by (simp add: case_prod_beta')
next
  case (Cons k ks)
  then show ?case
    by (auto simp: AList.delete_eq case_prod_beta' intro: filter_cong)
qed

lemma trim_jobs_drop:
  assumes "distinct (map fst m)" "32 < length m"
  shows "trim_jobs m = drop 16 m"
proof -
  have m: "m = take 16 m @ drop 16 m"
    by simp
  have d: "distinct (map fst (take 16 m) @ map fst (drop 16 m))"
    using assms(1) by (simp flip: map_append)
  have "filter (\<lambda>(k, _). k \<notin> set (map fst (take 16 m))) (take 16 m @ drop 16 m) = drop 16 m"
  proof -
    have "filter (\<lambda>(k, _). k \<notin> set (map fst (take 16 m))) (take 16 m) = []"
      by (auto simp: filter_empty_conv intro: rev_image_eqI)
    moreover have "filter (\<lambda>(k, _). k \<notin> set (map fst (take 16 m))) (drop 16 m) = drop 16 m"
      by (intro filter_True ballI) (use d in \<open>force simp: disjoint_iff\<close>)
    ultimately show ?thesis by (simp only: filter_append append_Nil)
  qed
  then show ?thesis
    using assms(2) by (simp add: trim_jobs_def delete_keys take_map)
qed

lemma trim_jobs_ok:
  assumes "distinct (map fst m)" "length m \<le> 33"
  shows "distinct (map fst (trim_jobs m))" "length (trim_jobs m) \<le> 32" "set (trim_jobs m) \<subseteq> set m"
  using assms trim_jobs_drop [OF assms(1)]
  by (cases "32 < length m"; auto simp: trim_jobs_def set_drop_subset drop_map [symmetric] dest: in_set_dropD)+

lemma update_length: "length (AList.update k v m) \<le> Suc (length m)"
  by (induction m) auto

lemma update_set: "set (AList.update k v m) \<subseteq> insert (k, v) (set m)"
  by (induction m) auto

section \<open>What is submitted\<close>

fun submitted :: "line \<Rightarrow> (nat \<times> json \<times> nat) list" where
  "submitted (Submit i j n _ _ _) = [(i, j, n)]"
| "submitted _ = []"

definition submits :: "bridge \<Rightarrow> (nat \<times> json \<times> nat) list" where
  "submits s = concat (map submitted (br_out s))"

lemma submits_send:
  "submits (send io_ok l s) = submits s @ (if br_wfile s \<and> io_ok then submitted l else [])"
  by (simp add: submits_def send_def)

lemma send_fields [simp]:
  "br_job (send io_ok l s) = br_job s" "br_job_by_req (send io_ok l s) = br_job_by_req s"
  "br_next_id (send io_ok l s) = br_next_id s" "br_nonce (send io_ok l s) = br_nonce s"
  "br_submitted (send io_ok l s) = br_submitted s"
  by (simp_all add: send_def)

text \<open>Identifiers and nonces: consecutive counters, every submission older than the next one.\<close>

definition ledger_ok :: "bridge \<Rightarrow> bool" where
  "ledger_ok s \<longleftrightarrow> br_next_id s = br_submitted s + 3 \<and> br_nonce s = br_submitted s + 1 \<and>
     sorted_wrt (\<lambda>x y. fst x < fst y) (submits s) \<and>
     (\<forall>(i, j, n) \<in> set (submits s). i < br_next_id s \<and> i = n + 2 \<and> 1 \<le> n)"

definition jobs_known :: "(int \<times> json) set \<Rightarrow> bridge \<Rightarrow> bool" where
  "jobs_known H s \<longleftrightarrow> distinct (map fst (br_job_by_req s)) \<and> length (br_job_by_req s) \<le> 32 \<and>
     set (br_job_by_req s) \<subseteq> H \<and>
     (\<forall>j. br_job s = Some j \<longrightarrow> (pp_request_id (bj_pow j), bj_job_id j) \<in> H) \<and>
     (\<forall>(i, j, n) \<in> set (submits s). j \<in> snd ` H \<and> json_true j)"

lemma jobs_known_mono: "jobs_known H s \<Longrightarrow> H \<subseteq> H' \<Longrightarrow> jobs_known H' s"
  by (fastforce simp: jobs_known_def)

section \<open>Every step\<close>

lemma same_ledger:
  "br_next_id s' = br_next_id s \<Longrightarrow> br_nonce s' = br_nonce s \<Longrightarrow> br_submitted s' = br_submitted s \<Longrightarrow>
   submits s' = submits s \<Longrightarrow> ledger_ok s \<Longrightarrow> ledger_ok s'"
  by (auto simp: ledger_ok_def split_beta)

lemma same_jobs:
  "br_job s' = br_job s \<Longrightarrow> br_job_by_req s' = br_job_by_req s \<Longrightarrow> submits s' = submits s \<Longrightarrow>
   jobs_known H s \<Longrightarrow> jobs_known H s'"
  by (simp add: jobs_known_def)

text \<open>What the messages of the pool leave alone: counters and submissions.\<close>

definition unsubmitted :: "bridge \<Rightarrow> bridge \<Rightarrow> bool" where
  "unsubmitted s s' \<longleftrightarrow> submits s' = submits s \<and> br_next_id s' = br_next_id s \<and> br_nonce s' = br_nonce s \<and>
     br_submitted s' = br_submitted s"

lemma unsubmitted_simps [simp]:
  "unsubmitted s (send io_ok (Pong i) s') \<longleftrightarrow> unsubmitted s s'"
  "unsubmitted s (s'\<lparr>br_share_target := x\<rparr>) \<longleftrightarrow> unsubmitted s s'"
  "unsubmitted s (s'\<lparr>br_model := y\<rparr>) \<longleftrightarrow> unsubmitted s s'"
  "unsubmitted s (s'\<lparr>br_difficulty := z\<rparr>) \<longleftrightarrow> unsubmitted s s'"
  "unsubmitted s (s'\<lparr>br_accepted := n\<rparr>) \<longleftrightarrow> unsubmitted s s'"
  "unsubmitted s (s'\<lparr>br_rejected := n\<rparr>) \<longleftrightarrow> unsubmitted s s'"
  "unsubmitted s (s'\<lparr>br_stale := n\<rparr>) \<longleftrightarrow> unsubmitted s s'"
  "unsubmitted s (s'\<lparr>br_dbg_resp := n\<rparr>) \<longleftrightarrow> unsubmitted s s'"
  "unsubmitted s (s'\<lparr>br_job := jb\<rparr>) \<longleftrightarrow> unsubmitted s s'"
  "unsubmitted s (s'\<lparr>br_job_by_req := tb\<rparr>) \<longleftrightarrow> unsubmitted s s'"
  by (simp_all add: unsubmitted_def submits_def send_def)

lemma on_message_unsubmitted: "keeps (unsubmitted s) (on_message a io_ok m)"
proof -
  have "keeps (unsubmitted s) (on_notify a p)" for p
    by (auto simp: keeps_def on_notify_def act_let_def Let_def split: sum.split option.split)
  moreover have "keeps (unsubmitted s) (on_set_target p)" for p
    unfolding on_set_target_def by (intro keeps_let keeps_pure) simp
  moreover have "keeps (unsubmitted s) (on_set_model p)" for p
    unfolding on_set_model_def
    by (intro keeps_let keeps_then keeps_pure; simp add: keeps_def act_let_def split: sum.split)
  moreover have "keeps (unsubmitted s) (on_response p)" for p
    unfolding on_response_def by (intro keeps_let keeps_pure) (simp add: Let_def)
  moreover have "keeps (unsubmitted s) (act_pure id)" "keeps (unsubmitted s) (\<lambda>s. (s, Some KeyError))"
    "keeps (unsubmitted s) (act_pure (send io_ok (Pong i)))" for i
    by (simp_all add: keeps_def)
  ultimately show ?thesis
    unfolding on_message_def by (intro keeps_let) (simp split: if_split add: keeps_let)
qed


definition same_table :: "bridge \<Rightarrow> bridge \<Rightarrow> bool" where
  "same_table s s' \<longleftrightarrow> br_job s' = br_job s \<and> br_job_by_req s' = br_job_by_req s"

lemma same_table_simps [simp]:
  "same_table s (send io_ok l s') \<longleftrightarrow> same_table s s'"
  "same_table s (s'\<lparr>br_share_target := x\<rparr>) \<longleftrightarrow> same_table s s'"
  "same_table s (s'\<lparr>br_model := y\<rparr>) \<longleftrightarrow> same_table s s'"
  "same_table s (s'\<lparr>br_difficulty := z\<rparr>) \<longleftrightarrow> same_table s s'"
  "same_table s (s'\<lparr>br_accepted := n\<rparr>) \<longleftrightarrow> same_table s s'"
  "same_table s (s'\<lparr>br_rejected := n\<rparr>) \<longleftrightarrow> same_table s s'"
  "same_table s (s'\<lparr>br_stale := n\<rparr>) \<longleftrightarrow> same_table s s'"
  "same_table s (s'\<lparr>br_dbg_resp := n\<rparr>) \<longleftrightarrow> same_table s s'"
  by (simp_all add: same_table_def)

lemma on_message_same_table:
  assumes "json_get m ''method'' JNull \<noteq> Inr (JStr ''mining.notify'')"
  shows "keeps (same_table s) (on_message a io_ok m)"
proof -
  have "keeps (same_table s) (on_set_target p)" for p
    unfolding on_set_target_def by (intro keeps_let keeps_pure) simp
  moreover have "keeps (same_table s) (on_set_model p)" for p
    unfolding on_set_model_def
    by (intro keeps_let keeps_then keeps_pure; simp add: keeps_def act_let_def split: sum.split)
  moreover have "keeps (same_table s) (on_response p)" for p
    unfolding on_response_def by (intro keeps_let keeps_pure) (simp add: Let_def)
  moreover have "keeps (same_table s) (act_pure id)" "keeps (same_table s) (act_pure (send io_ok (Pong i)))" for i
    by (simp_all add: keeps_def)
  ultimately show ?thesis
    using assms unfolding on_message_def by (intro keeps_let) (simp split: if_split add: keeps_let)
qed

lemma on_message_notify:
  assumes "map_of ps ''method'' = Some (JStr ''mining.notify'')"
  shows "on_message a io_ok (JObj ps) s = (case map_of ps ''params'' of
      Some params \<Rightarrow> on_notify a params s | None \<Rightarrow> (s, Some KeyError))"
  using assms by (simp add: on_message_def json_has_def split: option.split)

lemma on_notify_jobs:
  assumes "payload_of a s p = Inr (Some (job_id, pw, clean))" "jobs_known H s"
  shows "jobs_known (insert (pp_request_id pw, job_id) H) (fst (on_notify a p s))"
proof -
  define tab where "tab = (if clean then [] else br_job_by_req s)"
  define new where "new = AList.update (pp_request_id pw) job_id tab"
  have "distinct (map fst tab)" "length tab \<le> 32" "set tab \<subseteq> H"
    using assms(2) by (auto simp: tab_def jobs_known_def)
  moreover then have "distinct (map fst new)" "length new \<le> 33"
    using update_length [of "pp_request_id pw" job_id tab] by (simp_all add: new_def distinct_update)
  moreover have "set new \<subseteq> insert (pp_request_id pw, job_id) (set tab)"
    by (simp add: new_def update_set)
  ultimately have "distinct (map fst (trim_jobs new))" "length (trim_jobs new) \<le> 32"
    "set (trim_jobs new) \<subseteq> insert (pp_request_id pw, job_id) H"
    using trim_jobs_ok [of new] by (simp_all, blast)
  moreover have "fst (on_notify a p s) =
      s\<lparr>br_job := Some \<lparr>bj_job_id = job_id, bj_pow = pw, bj_vdf_tick = pp_tick pw\<rparr>, br_job_by_req := trim_jobs new\<rparr>"
    by (simp add: on_notify_def assms(1) Let_def new_def tab_def)
  ultimately show ?thesis
    using assms(2) by (fastforce simp: jobs_known_def submits_def)
qed

lemma on_message_jobs:
  assumes "jobs_known H s"
  shows "jobs_known (H \<union> set (announced a m s)) (fst (on_message a io_ok m s))"
proof (cases "json_get m ''method'' JNull = Inr (JStr ''mining.notify'')")
  case True
  then obtain ps where m: "m = JObj ps" "map_of ps ''method'' = Some (JStr ''mining.notify'')"
    by (cases m) (auto split: option.splits)
  show ?thesis
  proof (cases "map_of ps ''params''")
    case None
    then show ?thesis
      using assms m by (simp add: on_message_notify announced_def json_has_def)
  next
    case (Some params)
    show ?thesis
    proof (cases "\<exists>job_id pw clean. payload_of a s params = Inr (Some (job_id, pw, clean))")
      case True
      then show ?thesis
        using on_notify_jobs [OF _ assms] Some m
        by (auto simp: on_message_notify announced_def json_has_def)
    next
      case False
      then have "fst (on_notify a params s) = s" "announced a m s = []"
        using Some m by (auto simp: on_notify_def act_let_def announced_def split: sum.split option.split)
      with assms Some m show ?thesis
        by (simp add: on_message_notify)
    qed
  qed
next
  case False
  then have "same_table s (fst (on_message a io_ok m s))"
    using on_message_same_table [of m s a io_ok] by (simp add: keeps_def same_table_def)
  moreover have "unsubmitted s (fst (on_message a io_ok m s))"
    using on_message_unsubmitted [of s a io_ok m] by (simp add: keeps_def unsubmitted_def)
  moreover have "announced a m s = []"
    using False by (auto simp: announced_def split: sum.split)
  ultimately show ?thesis
    using same_jobs assms by (auto simp: same_table_def unsubmitted_def)
qed

lemma check_proof_frame:
  assumes "check_proof neg_log2 add a mr s = (s', r)"
  shows "unsubmitted s s'" "same_table s s'"
  using assms
  by (auto simp: check_proof_def Let_def unsubmitted_def same_table_def submits_def split: option.splits if_splits)

lemma check_proof_job:
  assumes "check_proof neg_log2 add a mr s = (s', Some (job_id, hash, tick))" "jobs_known H s"
  shows "json_true job_id" "job_id \<in> snd ` H"
proof -
  have j: "job_id = job_of_proof s (mr_req_id mr)" and t: "json_true job_id"
    using assms(1) by (auto simp: check_proof_def Let_def job_of_proof_def split: option.splits if_splits)
  then show "json_true job_id" by simp
  show "job_id \<in> snd ` H"
  proof (cases "map_of (br_job_by_req s) (mr_req_id mr)")
    case None
    then show ?thesis
      using j t assms(2) by (force simp: job_of_proof_def jobs_known_def Let_def split: option.splits)
  next
    case (Some k)
    then have "k \<in> snd ` H"
      using assms(2) by (force simp: jobs_known_def dest: map_of_SomeD)
    with Some show ?thesis
      using j t assms(2) by (force simp: job_of_proof_def jobs_known_def Let_def split: option.splits if_splits)
  qed
qed

lemma emit_ledger:
  assumes "ledger_ok s"
  shows "ledger_ok (emit io_ok raw r s)"
proof -
  obtain j h t where r: "r = (j, h, t)"
    by (cases r) auto
  have "submits (emit io_ok raw r s) = submits s @ (if br_wfile s \<and> io_ok then [(br_next_id s, j, br_nonce s)] else [])"
    by (simp add: r emit_def Let_def submits_def send_def)
  with assms show ?thesis
    by (auto simp: ledger_ok_def r emit_def Let_def sorted_wrt_append split_beta)
qed

lemma emit_jobs:
  assumes "jobs_known H s" "json_true (fst r)" "fst r \<in> snd ` H"
  shows "jobs_known H (emit io_ok raw r s)"
proof -
  obtain j h t where r: "r = (j, h, t)"
    by (cases r) auto
  have "submits (emit io_ok raw r s) = submits s @ (if br_wfile s \<and> io_ok then [(br_next_id s, j, br_nonce s)] else [])"
    by (simp add: r emit_def Let_def submits_def send_def)
  moreover have "br_job (emit io_ok raw r s) = br_job s" "br_job_by_req (emit io_ok raw r s) = br_job_by_req s"
    by (simp_all add: emit_def Let_def split_beta)
  ultimately show ?thesis
    using assms by (simp add: jobs_known_def r ball_Un)
qed

definition threads_ok :: "threads \<Rightarrow> bool" where
  "threads_ok t \<longleftrightarrow> ledger_ok (th_br t) \<and> jobs_known (set (th_notified t)) (th_br t) \<and>
     (\<forall>raw r. th_pending t = Some (raw, r) \<longrightarrow> json_true (fst r) \<and> fst r \<in> snd ` set (th_notified t)) \<and>
     (\<forall>ls. th_sup t = Greeting ls \<longrightarrow> concat (map submitted ls) = [])"

lemma same_ok:
  assumes "unsubmitted s s'"
  shows "ledger_ok s \<Longrightarrow> ledger_ok s'" "same_table s s' \<Longrightarrow> jobs_known H s \<Longrightarrow> jobs_known H s'"
  using assms same_ledger same_jobs unfolding unsubmitted_def same_table_def by metis+

lemma same_threads_ok:
  assumes "threads_ok t" "unsubmitted (th_br t) s" "same_table (th_br t) s"
  shows "ledger_ok s" "jobs_known (set (th_notified t)) s"
  using assms(1) same_ok [OF assms(2)] assms(3) unfolding threads_ok_def by blast+

lemma on_message_same: "unsubmitted s (fst (on_message a io_ok m s))"
  using on_message_unsubmitted [of s a io_ok m] unfolding keeps_def unsubmitted_def by blast

lemma receive_ok:
  assumes "threads_ok t"
  shows "threads_ok (receive a io_ok m t)"
proof -
  define s where "s = fst (on_message a io_ok m (th_br t))"
  have "ledger_ok s"
    using same_ok(1) [OF on_message_same] assms unfolding threads_ok_def s_def by blast
  moreover have "jobs_known (set (th_notified t) \<union> set (announced a m (th_br t))) s"
    using on_message_jobs assms unfolding threads_ok_def s_def by blast
  moreover have "th_br (receive a io_ok m t) = s" "th_pending (receive a io_ok m t) = th_pending t"
    "th_sup (receive a io_ok m t) \<noteq> Greeting ls"
    "th_notified (receive a io_ok m t) = th_notified t @ announced a m (th_br t)" for ls
    by (simp_all add: receive_def s_def split_beta split: option.split)
  moreover have "json_true (fst r) \<and> fst r \<in> snd ` set (th_notified t @ announced a m (th_br t))"
    if "th_pending t = Some (raw, r)" for raw r
    using assms that unfolding threads_ok_def by (metis Un_iff image_Un set_append)
  ultimately show ?thesis
    unfolding threads_ok_def by (simp only: set_append) blast
qed

lemma step_ok:
  assumes "br_step a t t'" "threads_ok t"
  shows "threads_ok t'"
  using assms
proof cases
  case dial
  have "unsubmitted (th_br t) (Bridge.dial (th_br t))" "same_table (th_br t) (Bridge.dial (th_br t))"
    by (simp_all add: unsubmitted_def same_table_def dial_def submits_def)
  from same_threads_ok [OF assms(2) this] assms(2) show ?thesis
    by (simp add: dial threads_ok_def)
next
  case refused
  have "unsubmitted (th_br t) ((th_br t)\<lparr>br_wfile := False\<rparr>)" "same_table (th_br t) ((th_br t)\<lparr>br_wfile := False\<rparr>)"
    by (simp_all add: unsubmitted_def same_table_def submits_def)
  from same_threads_ok [OF assms(2) this] assms(2) show ?thesis
    by (simp add: refused threads_ok_def)
next
  case (greet l ls io_ok)
  with assms(2) have "submitted l = []" "concat (map submitted ls) = []"
    by (auto simp: threads_ok_def)
  moreover from this have "unsubmitted (th_br t) (send io_ok l (th_br t))" "same_table (th_br t) (send io_ok l (th_br t))"
    by (simp_all add: unsubmitted_def same_table_def submits_send)
  note same_threads_ok [OF assms(2) this]
  ultimately show ?thesis
    using assms(2) by (simp add: greet(1) threads_ok_def)
next
  case (receive io_ok m)
  then show ?thesis
    using receive_ok [OF assms(2)] by simp
next
  case closed
  have "unsubmitted (th_br t) ((th_br t)\<lparr>br_wfile := False\<rparr>)" "same_table (th_br t) ((th_br t)\<lparr>br_wfile := False\<rparr>)"
    by (simp_all add: unsubmitted_def same_table_def submits_def)
  from same_threads_ok [OF assms(2) this] assms(2) show ?thesis
    by (simp add: closed threads_ok_def)
next
  case (pull decode neg_log2 add raw)
  define s where "s = (th_br t)\<lparr>br_proofs := Suc (br_proofs (th_br t))\<rparr>"
  have s: "unsubmitted (th_br t) s" "same_table (th_br t) s"
    by (simp_all add: s_def unsubmitted_def same_table_def submits_def)
  note ok = same_threads_ok [OF assms(2) this]
  show ?thesis
  proof (cases "decode raw")
    case None
    then show ?thesis
      using assms(2) ok by (simp add: pull Bridge.pull_def Let_def threads_ok_def flip: s_def)
  next
    case (Some mr)
    obtain s' r where c: "check_proof neg_log2 add a mr s = (s', r)"
      by force
    have "ledger_ok s'" "jobs_known (set (th_notified t)) s'"
      using same_ok [OF check_proof_frame(1) [OF c]] check_proof_frame(2) [OF c] ok by blast+
    moreover have "json_true (fst q) \<and> fst q \<in> snd ` set (th_notified t)" if "r = Some q" for q
      using check_proof_job [OF _ ok(2)] c that by (cases q) auto
    ultimately show ?thesis
      using assms(2) by (auto simp: pull Bridge.pull_def Let_def threads_ok_def Some c simp flip: s_def)
  qed
next
  case (emit raw r io_ok)
  with assms(2) have "json_true (fst r)" "fst r \<in> snd ` set (th_notified t)"
    by (cases r; simp add: threads_ok_def)+
  with assms(2) show ?thesis
    by (simp add: emit(1) threads_ok_def emit_ledger emit_jobs del: One_nat_def)
qed

lemma init_ok: "threads_ok threads_init"
  by (simp add: threads_ok_def threads_init_def bridge_init_def ledger_ok_def jobs_known_def submits_def)

lemma reach_ok: "br_reach a t \<Longrightarrow> threads_ok t"
  by (induction rule: br_reach.induct) (simp_all add: init_ok step_ok)

section \<open>Unique prompts\<close>

lemma split_at:
  assumes "xs @ d # ys = xs' @ d # ys'" "d \<notin> set xs" "d \<notin> set xs'"
  shows "xs = xs' \<and> ys = ys'"
proof -
  have tw: "takeWhile (\<lambda>c. c \<noteq> d) (us @ d # vs) = us" if "d \<notin> set us" for us vs
    using that by (subst takeWhile_append2) auto
  have "xs = xs'"
    using tw [OF assms(2), of ys] tw [OF assms(3), of ys'] assms(1) by simp
  with assms(1) show ?thesis by simp
qed

lemma salt_inj:
  assumes "0 < c" "prompt_salt base c w k = prompt_salt base c w' k'"
  shows "w = w' \<and> k = k'"
proof -
  have "dec w @ CHR ''-'' # dec (w + k * c) = dec w' @ CHR ''-'' # dec (w' + k' * c)"
    using assms(2) unfolding prompt_salt_def append.simps append_assoc same_append_eq list.inject by blast
  then have "w = w'" "w + k * c = w' + k' * c"
    using split_at [OF _ dec_no_dash dec_no_dash] unfolding dec_inj by blast+
  with assms(1) show ?thesis by simp
qed

section \<open>Submissions\<close>

lemma submit_out:
  "br_out (submit_proof neg_log2 add a io_ok raw mr s) = br_out s @
     (case check_proof neg_log2 add a mr s of
        (_, Some (j, h, t)) \<Rightarrow> if br_wfile s \<and> io_ok then [Submit (br_next_id s) j (br_nonce s) (b64encode raw) h t] else []
      | (_, None) \<Rightarrow> [])"
  by (auto simp: submit_proof_def check_proof_def emit_def send_def Let_def split: option.split prod.split)


section \<open>A run with two jobs\<close>

definition demo_notify :: "int \<Rightarrow> string \<Rightarrow> int \<Rightarrow> json" where
  "demo_notify req j tick = JObj [(''method'', JStr ''mining.notify''), (''params'',
     JArr [JStr j, JStr ''00'', JStr ''ff'', JNull, JNull, JNull, JBool False, JInt req, JNull,
           JStr ''aa'', JInt tick])]"

definition demo_proof :: "int \<Rightarrow> mining_response" where
  "demo_proof req = \<lparr>mr_req_id = req,
     mr_pow_blob = Some \<lparr>pb_header_prefix = replicate 76 0, pb_hash = replicate 32 0, pb_chosen_probs = []\<rparr>\<rparr>"

definition demo_reading :: threads where
  "demo_reading = threads_init\<lparr>th_br := connect True bridge_init, th_sup := Reading\<rparr>"

definition demo_two_jobs :: threads where
  "demo_two_jobs = receive default_args True (demo_notify 6 ''b'' 2)
     (receive default_args True (demo_notify 5 ''a'' 1) demo_reading)"

lemma reach_reading: "br_reach default_args demo_reading"
proof -
  define t1 where "t1 = threads_init\<lparr>th_br := dial bridge_init, th_sup := Greeting [Subscribe, Authorize]\<rparr>"
  define t2 where "t2 = t1\<lparr>th_br := send True Subscribe (dial bridge_init), th_sup := Greeting [Authorize]\<rparr>"
  have "br_reach default_args t1"
    using br_reach.step [OF br_reach.init br_step.dial, of default_args] by (simp add: t1_def threads_init_def)
  from br_reach.step [OF this br_step.greet [of _ Subscribe "[Authorize]" default_args True]]
  have "br_reach default_args t2"
    by (simp add: t1_def t2_def)
  from br_reach.step [OF this br_step.greet [of _ Authorize "[]" default_args True]] show ?thesis
    by (simp add: t1_def t2_def demo_reading_def connect_def)
qed

lemma demo_payload_of:
  "payload_of default_args s (JArr [JStr j, JStr h, JStr tg, JNull, JNull, JNull, JBool False, JInt req, JNull, JStr ''aa'', JInt tick]) =
   Inr (Some (JStr j, \<lparr>pp_block_hash = JStr (take 64 (drop 8 h)), pp_vdf = ''aa'', pp_tick = tick, pp_request_id = req,
      pp_target = JStr tg, pp_share_target = (if json_true (br_share_target s) then br_share_target s
         else JStr (replicate 2 CHR ''0'' @ replicate 62 CHR ''f'')),
      pp_difficulty = br_difficulty s, pp_header_prefix = JStr h, pp_model = br_model s\<rparr>, False))"
  by (simp add: payload_of_def)

lemma demo_receive:
  "receive default_args True (demo_notify req j tick) t =
     t\<lparr>th_br := fst (on_notify default_args (JArr [JStr j, JStr ''00'', JStr ''ff'', JNull, JNull, JNull,
          JBool False, JInt req, JNull, JStr ''aa'', JInt tick]) (th_br t)),
       th_sup := Reading, th_notified := th_notified t @ [(req, JStr j)]\<rparr>"
  by (simp add: receive_def demo_notify_def on_message_notify announced_def json_has_def on_notify_def demo_payload_of
      Let_def)

lemma reach_two_jobs: "br_reach default_args demo_two_jobs"
proof -
  have "br_reach default_args (receive default_args True (demo_notify 5 ''a'' 1) demo_reading)"
    using br_reach.step [OF reach_reading br_step.receive] by (simp add: demo_reading_def)
  moreover have "th_sup (receive default_args True (demo_notify 5 ''a'' 1) demo_reading) = Reading"
    by (simp add: demo_receive)
  ultimately show ?thesis
    unfolding demo_two_jobs_def by (rule br_reach.step [OF _ br_step.receive])
qed

lemma two_jobs_state:
  "br_job_by_req (th_br demo_two_jobs) = [(5, JStr ''a''), (6, JStr ''b'')]"
  "map_option bj_vdf_tick (br_job (th_br demo_two_jobs)) = Some 2"
  "br_next_id (th_br demo_two_jobs) = 3" "br_nonce (th_br demo_two_jobs) = 1"
  "br_wfile (th_br demo_two_jobs)" "th_pending demo_two_jobs = None" "th_sup demo_two_jobs = Reading"
  "br_out (th_br demo_two_jobs) = [Opened, Subscribe, Authorize]"
  "th_notified demo_two_jobs = [(5, JStr ''a''), (6, JStr ''b'')]"
  by (simp_all add: demo_two_jobs_def demo_receive demo_reading_def threads_init_def connect_def on_notify_def demo_payload_of
      Let_def trim_jobs_def bridge_init_def dial_def send_def)


text \<open>The proof of request 5 is pulled, then sent.\<close>

definition demo_pulled :: "threads \<Rightarrow> threads" where
  "demo_pulled t = pull (\<lambda>raw. Some (demo_proof 5)) (\<lambda>x. x) (\<lambda>x y. x) default_args [] t"

definition demo_sent :: threads where
  "demo_sent = (demo_pulled demo_two_jobs)\<lparr>th_br := emit True [] (JStr ''a'', achieved (the (mr_pow_blob (demo_proof 5))), 2)
     (th_br (demo_pulled demo_two_jobs)), th_pending := None\<rparr>"

lemma demo_check:
  assumes "br_job_by_req s = [(5, JStr ''a''), (6, JStr ''b'')]" "map_option bj_vdf_tick (br_job s) = Some 2"
  shows "check_proof f g default_args (demo_proof 5) s =
    (s\<lparr>br_id_checked := True\<rparr>, Some (JStr ''a'', achieved (the (mr_pow_blob (demo_proof 5))), 2))"
  using assms by (auto simp: check_proof_def demo_proof_def b_cred_def Let_def job_of_proof_def split: option.split)

lemma pulled_state:
  "th_br (demo_pulled demo_two_jobs) = (th_br demo_two_jobs)\<lparr>br_proofs := br_proofs (th_br demo_two_jobs) + 1, br_id_checked := True\<rparr>"
  "th_pending (demo_pulled demo_two_jobs) = Some ([], JStr ''a'', achieved (the (mr_pow_blob (demo_proof 5))), 2)"
  "th_sup (demo_pulled demo_two_jobs) = Reading"
  by (simp_all add: demo_pulled_def pull_def demo_check two_jobs_state Let_def)

lemma reach_pulled: "br_reach default_args (demo_pulled demo_two_jobs)"
  unfolding demo_pulled_def
  by (rule br_reach.step [OF reach_two_jobs br_step.pull]) (simp add: two_jobs_state)

lemma reach_sent: "br_reach default_args demo_sent"
  unfolding demo_sent_def
  by (rule br_reach.step [OF reach_pulled br_step.emit]) (simp add: pulled_state)

lemma sent_state:
  "br_out (th_br demo_sent) = [Opened, Subscribe, Authorize,
     Submit 3 (JStr ''a'') 1 [] (achieved (the (mr_pow_blob (demo_proof 5)))) 2]"
  "th_notified demo_sent = [(5, JStr ''a''), (6, JStr ''b'')]"
  by (simp_all add: demo_sent_def emit_def Let_def send_def pulled_state two_jobs_state)
    (simp add: demo_pulled_def pull_def Let_def demo_check two_jobs_state)

section \<open>Claims\<close>

text \<open>C33: under any interleaving of the connection thread and the drain thread, the identifiers of the
  submissions written to the pool increase strictly, each is its nonce plus 2, and none reaches the
  next identifier, which is the number of submissions made plus 3.\<close>

theorem submissions_unique:
  assumes "br_reach a t"
  shows "sorted_wrt (\<lambda>x y. fst x < fst y) (submits (th_br t)) \<and>
    (\<forall>(i, j, n) \<in> set (submits (th_br t)). i = n + 2 \<and> 1 \<le> n \<and> i < br_next_id (th_br t)) \<and>
    br_next_id (th_br t) = br_submitted (th_br t) + 3"
  using reach_ok [OF assms] by (auto simp: threads_ok_def ledger_ok_def)

theorem submissions_unique_witness:
  "submits (th_br demo_sent) = [(3, JStr ''a'', 1)] \<and> br_next_id (th_br demo_sent) = br_submitted (th_br demo_sent) + 3"
  using submissions_unique [OF reach_sent] by (simp add: submits_def sent_state)

text \<open>C34: the table of jobs never has more than 32 entries or a request twice, and every job in the
  table or in a submission was announced by the pool: no proof is submitted under a job that the
  pool never named.\<close>

theorem only_announced_jobs:
  assumes "br_reach a t"
  shows "length (br_job_by_req (th_br t)) \<le> 32 \<and> distinct (map fst (br_job_by_req (th_br t))) \<and>
    set (br_job_by_req (th_br t)) \<subseteq> set (th_notified t) \<and>
    (\<forall>(i, j, n) \<in> set (submits (th_br t)). j \<in> snd ` set (th_notified t) \<and> json_true j)"
  using reach_ok [OF assms] by (simp add: threads_ok_def jobs_known_def)

theorem only_announced_jobs_witness:
  "length (br_job_by_req (th_br demo_sent)) \<le> 32 \<and> JStr ''a'' \<in> snd ` set (th_notified demo_sent)"
  using only_announced_jobs [OF reach_sent] by (simp add: submits_def sent_state)


text \<open>Once the connection thread has ended, nothing but the drain thread runs.\<close>

lemma ended_stays:
  assumes "(br_step a)\<^sup>*\<^sup>* t t'" "th_sup t = Ended"
  shows "th_sup t' = Ended \<and> th_notified t' = th_notified t \<and> same_table (th_br t) (th_br t')"
  using assms
proof (induction rule: rtranclp_induct)
  case base
  then show ?case by (simp add: same_table_def)
next
  case (step t1 t2)
  then have t1: "th_sup t1 = Ended" "th_notified t1 = th_notified t" "same_table (th_br t) (th_br t1)"
    by simp_all
  from step(2) show ?case
  proof cases
    case (pull decode neg_log2 add raw)
    have "same_table (th_br t1) (fst (check_proof neg_log2 add a mr ((th_br t1)\<lparr>br_proofs := Suc (br_proofs (th_br t1))\<rparr>)))" for mr
      using check_proof_frame(2) [OF prod.collapse [symmetric]] by (simp add: same_table_def)
    with t1 show ?thesis
      by (simp add: pull Bridge.pull_def Let_def same_table_def split_beta split: option.split)
  next
    case (emit raw r io_ok)
    with t1 show ?thesis
      by (cases r) (simp add: Bridge.emit_def Let_def same_table_def)
  qed (use t1 in simp_all)
qed

text \<open>A message whose identifier is null and whose method the bridge does not know raises TypeError
  inside the reader; the connection thread ends for good, no job is ever taken up again, and only
  the proofs of the old jobs still go through.\<close>

theorem null_id_ends_connection_thread:
  assumes "map_of ps ''id'' = Some JNull"
    and "map_of ps ''method'' = Some (JStr meth)"
    and "meth \<notin> {''mining.notify'', ''mining.set_target'', ''mining.set_model'', ''mining.ping''}"
    and "(br_step a)\<^sup>*\<^sup>* (receive a io_ok (JObj ps) t) t'"
  shows "th_sup t' = Ended \<and> br_job (th_br t') = br_job (th_br t) \<and>
    br_job_by_req (th_br t') = br_job_by_req (th_br t)"
proof -
  have "on_message a io_ok (JObj ps) s = (s, Some TypeError)" for s
    using assms(1-3) by (simp add: on_message_def json_has_def act_let_def split: option.split)
  then have "receive a io_ok (JObj ps) t = t\<lparr>th_sup := Ended, th_notified := th_notified t @ announced a (JObj ps) (th_br t)\<rparr>"
    by (simp add: receive_def)
  then show ?thesis
    using ended_stays [OF assms(4)] by (simp add: same_table_def)
qed

theorem null_id_ends_connection_thread_witness:
  "th_sup (receive default_args True (JObj [(''id'', JNull), (''method'', JStr ''mining.set_difficulty'')]) demo_two_jobs) = Ended"
  using null_id_ends_connection_thread [of "[(''id'', JNull), (''method'', JStr ''mining.set_difficulty'')]"
      "''mining.set_difficulty''" default_args True demo_two_jobs] by simp

text \<open>When a proof is worth submitting.\<close>

definition acceptable :: "(f64 \<Rightarrow> f64) \<Rightarrow> (f64 \<Rightarrow> f64 \<Rightarrow> f64) \<Rightarrow> bridge_args \<Rightarrow> bridge \<Rightarrow> int \<Rightarrow> proof_blob \<Rightarrow> bool" where
  "acceptable neg_log2 add a s req_id pb \<longleftrightarrow> length (pb_header_prefix pb) = 76 \<and> length (pb_hash pb) = 32 \<and>
     (case b_cred neg_log2 add (pb_chosen_probs pb) of None \<Rightarrow> True | Some c \<Rightarrow> \<not> f64_lt c (ba_b_floor a)) \<and>
     json_true (job_of_proof s req_id)"

lemma check_proof_result:
  assumes "mr_pow_blob mr = Some pb"
  shows "snd (check_proof neg_log2 add a mr s) = (if acceptable neg_log2 add a s (mr_req_id mr) pb
      then Some (job_of_proof s (mr_req_id mr), achieved pb, case br_job s of None \<Rightarrow> 315000 | Some cur \<Rightarrow> bj_vdf_tick cur)
      else None)"
    "br_out (fst (check_proof neg_log2 add a mr s)) = br_out s"
    "br_wfile (fst (check_proof neg_log2 add a mr s)) = br_wfile s"
    "br_next_id (fst (check_proof neg_log2 add a mr s)) = br_next_id s"
    "br_nonce (fst (check_proof neg_log2 add a mr s)) = br_nonce s"
    "br_submitted (fst (check_proof neg_log2 add a mr s)) = br_submitted s"
  using assms by (auto simp: check_proof_def acceptable_def job_of_proof_def Let_def split: option.splits)

text \<open>C35: what a proof of the worker turns into.  It is dropped silently when its header or hash has the
  wrong size, its credit is below the floor, or no job is known; otherwise one line is written, if
  there is a connection, with the double hash of the header and the first four bytes of the proof
  hash as nonce, and the counters move on whether or not the write went through.\<close>

theorem proof_submission:
  assumes "mr_pow_blob mr = Some pb"
  shows "br_out (submit_proof neg_log2 add a io_ok raw mr s) = br_out s @
      (if acceptable neg_log2 add a s (mr_req_id mr) pb \<and> br_wfile s \<and> io_ok
       then [Submit (br_next_id s) (job_of_proof s (mr_req_id mr)) (br_nonce s) (b64encode raw)
               (to_hex (rev (sha256 (sha256 (pb_header_prefix pb @ take 4 (pb_hash pb))))))
               (case br_job s of None \<Rightarrow> 315000 | Some cur \<Rightarrow> bj_vdf_tick cur)]
       else []) \<and>
    br_submitted (submit_proof neg_log2 add a io_ok raw mr s) = br_submitted s + (if acceptable neg_log2 add a s (mr_req_id mr) pb then 1 else 0) \<and>
    (acceptable neg_log2 add a s (mr_req_id mr) pb \<and> \<not> io_ok \<longrightarrow> \<not> br_wfile (submit_proof neg_log2 add a io_ok raw mr s))"
proof -
  define c where "c = check_proof neg_log2 add a mr s"
  have "submit_proof neg_log2 add a io_ok raw mr s = (case snd c of None \<Rightarrow> fst c | Some r \<Rightarrow> emit io_ok raw r (fst c))"
    by (simp add: submit_proof_def c_def split_beta split: option.split)
  then show ?thesis
    using check_proof_result [OF assms, of neg_log2 add a s, folded c_def]
    by (cases "acceptable neg_log2 add a s (mr_req_id mr) pb"; cases io_ok; cases "br_wfile s") (simp_all add: emit_def Let_def send_def achieved_def sha256d_def)
qed

theorem proof_submission_witness:
  "\<exists>h. br_out (submit_proof (\<lambda>x. x) (\<lambda>x y. x) default_args True [] (demo_proof 5) (th_br demo_two_jobs)) =
    [Opened, Subscribe, Authorize, Submit 3 (JStr ''a'') 1 [] h 2]"
proof -
  have "\<exists>cur. br_job (th_br demo_two_jobs) = Some cur \<and> bj_vdf_tick cur = 2"
    using two_jobs_state(2) by (cases "br_job (th_br demo_two_jobs)") auto
  then show ?thesis
    using proof_submission [of "demo_proof 5" "the (mr_pow_blob (demo_proof 5))" "\<lambda>x. x" "\<lambda>x y. x" default_args True "[]" "th_br demo_two_jobs"]
    by (auto simp: acceptable_def b_cred_def demo_proof_def job_of_proof_def two_jobs_state)
qed



text \<open>The lock does not cover the greeting: a submission the drain thread has prepared is written to a
  new connection ahead of its subscription.\<close>

definition demo_redial :: threads where
  "demo_redial = (demo_pulled demo_two_jobs)\<lparr>th_br := dial ((th_br (demo_pulled demo_two_jobs))\<lparr>br_wfile := False\<rparr>),
     th_sup := Greeting [Subscribe, Authorize]\<rparr>"

lemma reach_redial: "br_reach default_args demo_redial"
proof -
  define t where "t = (demo_pulled demo_two_jobs)\<lparr>th_br := (th_br (demo_pulled demo_two_jobs))\<lparr>br_wfile := False\<rparr>, th_sup := Down\<rparr>"
  have "br_reach default_args t"
    unfolding t_def by (rule br_reach.step [OF reach_pulled br_step.closed]) (simp add: pulled_state)
  from br_reach.step [OF this br_step.dial] show ?thesis
    by (simp add: t_def demo_redial_def)
qed

lemma submission_before_subscription:
  "\<exists>t h. br_reach default_args t \<and>
     br_out (th_br t) = [Opened, Subscribe, Authorize, Opened, Submit 3 (JStr ''a'') 1 [] h 2, Subscribe]"
proof -
  define t1 where "t1 = demo_redial\<lparr>th_br := emit True [] (JStr ''a'', achieved (the (mr_pow_blob (demo_proof 5))), 2) (th_br demo_redial), th_pending := None\<rparr>"
  define t2 where "t2 = t1\<lparr>th_br := send True Subscribe (th_br t1), th_sup := Greeting [Authorize]\<rparr>"
  have "br_reach default_args t1"
    unfolding t1_def by (rule br_reach.step [OF reach_redial br_step.emit]) (simp add: demo_redial_def pulled_state)
  from br_reach.step [OF this br_step.greet [of _ Subscribe "[Authorize]" default_args True]]
  have "br_reach default_args t2"
    by (simp add: t2_def t1_def demo_redial_def)
  moreover have "br_out (th_br t2) = [Opened, Subscribe, Authorize, Opened,
      Submit 3 (JStr ''a'') 1 [] (achieved (the (mr_pow_blob (demo_proof 5)))) 2, Subscribe]"
    by (simp add: t2_def t1_def demo_redial_def emit_def Let_def send_def dial_def pulled_state two_jobs_state)
  ultimately show ?thesis by blast
qed

text \<open>No two prompts of a run are equal: different workers, or different iterations of one worker,
  use different salts.\<close>

theorem prompts_unique:
  assumes "0 < ba_concurrency a"
    and "dispatch base a w k s = Some (salt, p)" "dispatch base a w' k' s' = Some (salt, p')"
  shows "w = w' \<and> k = k'"
proof -
  have "prompt_salt base (ba_concurrency a) w k = salt" "prompt_salt base (ba_concurrency a) w' k' = salt"
    using assms(2,3) unfolding dispatch_def map_option_eq_Some by blast+
  then show ?thesis
    by (intro salt_inj [OF assms(1)]) (rule trans, assumption, rule sym)
qed

theorem prompts_unique_witness:
  "dispatch ''1-2'' default_args 3 0 (th_br demo_two_jobs) \<noteq> dispatch ''1-2'' default_args 0 3 (th_br demo_two_jobs)"
proof
  assume eq: "dispatch ''1-2'' default_args 3 0 (th_br demo_two_jobs) = dispatch ''1-2'' default_args 0 3 (th_br demo_two_jobs)"
  obtain cur where "br_job (th_br demo_two_jobs) = Some cur"
    using two_jobs_state(2) by (cases "br_job (th_br demo_two_jobs)") simp_all
  then obtain salt p where d: "dispatch ''1-2'' default_args 3 0 (th_br demo_two_jobs) = Some (salt, p)"
    unfolding dispatch_def by fastforce
  have "0 < ba_concurrency default_args"
    by (simp add: default_args_def)
  from prompts_unique [OF this d trans [OF eq [symmetric] d]] show False by simp
qed

end
