(* ===== verification/JsonText.thy ===== *)
theory JsonText
  imports Json Hex "HOL-Library.AList" "HOL-Library.List_Lexorder" "HOL-Library.Char_ord"
begin

text \<open>
  JSON text as Python's \<^verbatim>\<open>json\<close> module writes and reads it, and the carrier of \<^verbatim>\<open>pow_v3.py\<close> (section 3)
  built on it.  Strings have one-byte characters as everywhere in the development: an escape of a
  larger code point is read as UnicodeError.  The text of a double and the double of a text are
  arguments.
\<close>

section \<open>Writing\<close>

definition int_text :: "int \<Rightarrow> string" where
  "int_text n = (if n < 0 then CHR ''-'' # dec (nat (- n)) else dec (nat n))"

text \<open>A character inside a string, as \<^verbatim>\<open>ensure_ascii\<close> has it.\<close>

definition esc_char :: "char \<Rightarrow> string" where
  "esc_char c = (let n = of_char c :: nat in
     if n = 34 then [CHR 0x5C, CHR 0x22]
     else if n = 92 then [CHR 0x5C, CHR 0x5C]
     else if n = 10 then [CHR 0x5C, CHR ''n'']
     else if n = 13 then [CHR 0x5C, CHR ''r'']
     else if n = 9 then [CHR 0x5C, CHR ''t'']
     else if n = 12 then [CHR 0x5C, CHR ''f'']
     else if n = 8 then [CHR 0x5C, CHR ''b'']
     else if 32 \<le> n \<and> n \<le> 126 then [c]
     else [CHR 0x5C, CHR ''u'', CHR ''0'', CHR ''0'', hexdig (n div 16), hexdig (n mod 16)])"

definition str_text :: "string \<Rightarrow> string" where
  "str_text s = CHR 0x22 # concat (map esc_char s) @ [CHR 0x22]"

text \<open>\<^verbatim>\<open>json.dumps\<close> with item and key separators.\<close>

fun json_text :: "(f64 \<Rightarrow> string) \<Rightarrow> string \<Rightarrow> string \<Rightarrow> json \<Rightarrow> string"
  and elems_text :: "(f64 \<Rightarrow> string) \<Rightarrow> string \<Rightarrow> string \<Rightarrow> json list \<Rightarrow> string"
  and membs_text :: "(f64 \<Rightarrow> string) \<Rightarrow> string \<Rightarrow> string \<Rightarrow> (string \<times> json) list \<Rightarrow> string" where
  "json_text fl sep ks JNull = ''null''"
| "json_text fl sep ks (JBool b) = (if b then ''true'' else ''false'')"
| "json_text fl sep ks (JInt n) = int_text n"
| "json_text fl sep ks (JFloat x) = fl x"
| "json_text fl sep ks (JStr s) = str_text s"
| "json_text fl sep ks (JArr xs) = CHR ''['' # elems_text fl sep ks xs @ '']''"
| "json_text fl sep ks (JObj ps) = CHR ''{'' # membs_text fl sep ks ps @ ''}''"
| "elems_text fl sep ks [] = []"
| "elems_text fl sep ks [x] = json_text fl sep ks x"
| "elems_text fl sep ks (x # y # xs) = json_text fl sep ks x @ sep @ elems_text fl sep ks (y # xs)"
| "membs_text fl sep ks [] = []"
| "membs_text fl sep ks [(k, v)] = str_text k @ ks @ json_text fl sep ks v"
| "membs_text fl sep ks ((k, v) # q # ps) =
     str_text k @ ks @ json_text fl sep ks v @ sep @ membs_text fl sep ks (q # ps)"

text \<open>\<^verbatim>\<open>sort_keys=True\<close>.\<close>

fun json_sort :: "json \<Rightarrow> json" and json_sorts :: "json list \<Rightarrow> json list"
  and memb_sorts :: "(string \<times> json) list \<Rightarrow> (string \<times> json) list" where
  "json_sort (JArr xs) = JArr (json_sorts xs)"
| "json_sort (JObj ps) = JObj (sort_key fst (memb_sorts ps))"
| "json_sort v = v"
| "json_sorts [] = []"
| "json_sorts (x # xs) = json_sort x # json_sorts xs"
| "memb_sorts [] = []"
| "memb_sorts ((k, v) # ps) = (k, json_sort v) # memb_sorts ps"

definition canonical_json :: "(f64 \<Rightarrow> string) \<Rightarrow> json \<Rightarrow> string" where
  "canonical_json fl v = json_text fl '','' '':'' (json_sort v)"

section \<open>Reading\<close>

definition skip_ws :: "string \<Rightarrow> string" where
  "skip_ws s = dropWhile (\<lambda>c. (of_char c :: nat) \<in> {9, 10, 13, 32}) s"

definition strip_prefix :: "string \<Rightarrow> string \<Rightarrow> string option" where
  "strip_prefix p s = (if take (length p) s = p then Some (drop (length p) s) else None)"

definition unescape :: "char \<Rightarrow> char option" where
  "unescape e = (let n = of_char e :: nat in
     if n = 34 \<or> n = 92 \<or> n = 47 then Some e
     else if n = 98 then Some (char_of (8 :: nat)) else if n = 102 then Some (char_of (12 :: nat))
     else if n = 110 then Some (char_of (10 :: nat)) else if n = 114 then Some (char_of (13 :: nat))
     else if n = 116 then Some (char_of (9 :: nat)) else None)"

text \<open>The rest of a string literal after its opening quote.\<close>

definition hex4 :: "string \<Rightarrow> (nat \<times> string) res" where
  "hex4 s = (case s of
      a # b # c # d # r \<Rightarrow>
        (case (hexval a, hexval b, hexval c, hexval d) of
           (Some w, Some x, Some y, Some z) \<Rightarrow> Inr (((w * 16 + x) * 16 + y) * 16 + z, r)
         | _ \<Rightarrow> Inl ValueError)
    | _ \<Rightarrow> Inl ValueError)"

function scan_str :: "string \<Rightarrow> (string \<times> string) res" where
  "scan_str s = (case s of
      [] \<Rightarrow> Inl ValueError
    | c # r \<Rightarrow>
        (let n = of_char c :: nat in
         if n = 34 then Inr ([], r)
         else if n = 92 then
           (case r of
              [] \<Rightarrow> Inl ValueError
            | e # r \<Rightarrow>
                if e = CHR ''u'' then
                  (case hex4 r of
                     Inl err \<Rightarrow> Inl err
                   | Inr (k, r') \<Rightarrow>
                       if 255 < k then Inl UnicodeError
                       else rbind (scan_str (drop 4 r)) (\<lambda>(t, q). Inr (char_of k # t, q)))
                else (case unescape e of
                        None \<Rightarrow> Inl ValueError
                      | Some x \<Rightarrow> rbind (scan_str r) (\<lambda>(t, q). Inr (x # t, q))))
         else if n < 32 then Inl ValueError
         else rbind (scan_str r) (\<lambda>(t, q). Inr (c # t, q))))"
  by pat_completeness auto
termination
  by (relation "measure length") auto

definition digit :: "char \<Rightarrow> bool" where
  "digit c = (let n = of_char c :: nat in 48 \<le> n \<and> n \<le> 57)"

definition nat_of_digits :: "string \<Rightarrow> nat" where
  "nat_of_digits s = foldl (\<lambda>a c. 10 * a + (of_char c - 48)) 0 s"

text \<open>
  \<^verbatim>\<open>(-?(?:0|[1-9][0-9]*))(\.[0-9]+)?([eE][-+]?[0-9]+)?\<close>, an integer unless one of the optional parts
  is there.
\<close>

definition scan_frac :: "string \<Rightarrow> string \<times> string" where
  "scan_frac s = (case s of
      c # r \<Rightarrow> if c = CHR ''.'' \<and> takeWhile digit r \<noteq> [] then (c # takeWhile digit r, dropWhile digit r) else ([], s)
    | [] \<Rightarrow> ([], s))"

definition scan_exp :: "string \<Rightarrow> string \<times> string" where
  "scan_exp s = (case s of
      c # r \<Rightarrow>
        (let (sg, r) = (case r of d # q \<Rightarrow> if d = CHR ''-'' \<or> d = CHR ''+'' then ([d], q) else ([], r) | [] \<Rightarrow> ([], r))
         in if (c = CHR ''e'' \<or> c = CHR ''E'') \<and> takeWhile digit r \<noteq> []
            then (c # sg @ takeWhile digit r, dropWhile digit r) else ([], s))
    | [] \<Rightarrow> ([], s))"

definition scan_number :: "(string \<Rightarrow> f64) \<Rightarrow> string \<Rightarrow> (json \<times> string) res" where
  "scan_number pf s =
     (let (neg, r) = (case s of c # q \<Rightarrow> if c = CHR ''-'' then (True, q) else (False, s) | [] \<Rightarrow> (False, s));
          ds = (case r of c # q \<Rightarrow> if c = CHR ''0'' then [c] else takeWhile digit r | [] \<Rightarrow> []);
          r = drop (length ds) r
      in if ds = [] then Inl ValueError
         else
           (let (fr, r) = scan_frac r; (ex, r) = scan_exp r;
                sign = (if neg then [CHR ''-''] else [])
            in if fr = [] \<and> ex = []
               then Inr (JInt (if neg then - int (nat_of_digits ds) else int (nat_of_digits ds)), r)
               else Inr (JFloat (pf (sign @ ds @ fr @ ex)), r)))"

text \<open>The constants, in the order the scanner tries them.\<close>

definition scan_const :: "string \<Rightarrow> (json \<times> string) option" where
  "scan_const s = (case find (\<lambda>(w, v). strip_prefix w s \<noteq> None)
       [(''null'', JNull), (''true'', JBool True), (''false'', JBool False), (''NaN'', JFloat NaN),
        (''Infinity'', JFloat (Inf False)), (''-Infinity'', JFloat (Inf True))] of
      None \<Rightarrow> None
    | Some (w, v) \<Rightarrow> Some (v, drop (length w) s))"

text \<open>
  Elements up to the closing bracket and members up to the closing brace, given the reader of a
  value.  Every turn consumes a character, so the length of the text is fuel enough.
\<close>

fun parse_elems :: "(string \<Rightarrow> (json \<times> string) res) \<Rightarrow> nat \<Rightarrow> string \<Rightarrow> (json list \<times> string) res" where
  "parse_elems pv 0 s = Inl ValueError"
| "parse_elems pv (Suc k) s = rbind (pv s) (\<lambda>(v, r). case skip_ws r of
      [] \<Rightarrow> Inl ValueError
    | c # q \<Rightarrow>
        if c = CHR '']'' then Inr ([v], q)
        else if c = CHR '','' then rbind (parse_elems pv k (skip_ws q)) (\<lambda>(vs, t). Inr (v # vs, t))
        else Inl ValueError)"

fun parse_membs :: "(string \<Rightarrow> (json \<times> string) res) \<Rightarrow> nat \<Rightarrow> string \<Rightarrow> ((string \<times> json) list \<times> string) res" where
  "parse_membs pv 0 s = Inl ValueError"
| "parse_membs pv (Suc k) s = (case s of
      [] \<Rightarrow> Inl ValueError
    | c # r \<Rightarrow>
        if (of_char c :: nat) \<noteq> 34 then Inl ValueError
        else rbind (scan_str r) (\<lambda>(key, r). case skip_ws r of
            [] \<Rightarrow> Inl ValueError
          | c # r \<Rightarrow>
              if c \<noteq> CHR '':'' then Inl ValueError
              else rbind (pv (skip_ws r)) (\<lambda>(v, r). case skip_ws r of
                  [] \<Rightarrow> Inl ValueError
                | c # q \<Rightarrow>
                    if c = CHR ''}'' then Inr ([(key, v)], q)
                    else if c = CHR '','' then rbind (parse_membs pv k (skip_ws q)) (\<lambda>(ps, t). Inr ((key, v) # ps, t))
                    else Inl ValueError)))"

text \<open>
  A value.  \<open>mk\<close> turns the pairs of an object into its value; \<open>limit\<close> is the recursion limit of the
  interpreter, exceeded by RecursionError.
\<close>

fun parse_value ::
    "((string \<times> json) list \<Rightarrow> json res) \<Rightarrow> (string \<Rightarrow> f64) \<Rightarrow> nat \<Rightarrow> string \<Rightarrow> (json \<times> string) res" where
  "parse_value mk pf 0 s = Inl RuntimeError"
| "parse_value mk pf (Suc limit) s = (case s of
      [] \<Rightarrow> Inl ValueError
    | c # r \<Rightarrow>
        if (of_char c :: nat) = 34 then rbind (scan_str r) (\<lambda>(t, q). Inr (JStr t, q))
        else if c = CHR ''['' then
          (case skip_ws r of
             [] \<Rightarrow> Inl ValueError
           | d # q \<Rightarrow>
               if d = CHR '']'' then Inr (JArr [], q)
               else rbind (parse_elems (parse_value mk pf limit) (length s) (d # q)) (\<lambda>(vs, t). Inr (JArr vs, t)))
        else if c = CHR ''{'' then
          (case skip_ws r of
             [] \<Rightarrow> Inl ValueError
           | d # q \<Rightarrow>
               if d = CHR ''}'' then rbind (mk []) (\<lambda>v. Inr (v, q))
               else rbind (parse_membs (parse_value mk pf limit) (length s) (d # q))
                      (\<lambda>(ps, t). rbind (mk ps) (\<lambda>v. Inr (v, t))))
        else
          (case scan_const s of
             Some r \<Rightarrow> Inr r
           | None \<Rightarrow> scan_number pf s))"

definition json_loads ::
    "((string \<times> json) list \<Rightarrow> json res) \<Rightarrow> (string \<Rightarrow> f64) \<Rightarrow> nat \<Rightarrow> string \<Rightarrow> json res" where
  "json_loads mk pf limit s = rbind (parse_value mk pf limit (skip_ws s))
     (\<lambda>(v, r). if skip_ws r = [] then Inr v else Inl ValueError)"

text \<open>Without a hook, later pairs overwrite earlier ones.\<close>

definition last_wins :: "(string \<times> json) list \<Rightarrow> json res" where
  "last_wins ps = Inr (JObj (foldl (\<lambda>d (k, v). AList.update k v d) [] ps))"

section \<open>The carrier of the admission nonce\<close>

definition EXTRA_FLAGS_MAX_BYTES :: nat where "EXTRA_FLAGS_MAX_BYTES = 4096"
definition EXTRA_FLAGS_MAX_DEPTH :: nat where "EXTRA_FLAGS_MAX_DEPTH = 8"

text \<open>\<^verbatim>\<open>_pairs_reject_duplicates\<close>.\<close>

fun reject_from :: "(string \<times> json) list \<Rightarrow> (string \<times> json) list \<Rightarrow> (string \<times> json) list res" where
  "reject_from d [] = Inr d"
| "reject_from d ((k, v) # ps) = (if map_of d k \<noteq> None then Inl ValueError else reject_from (d @ [(k, v)]) ps)"

definition pairs_reject_duplicates :: "(string \<times> json) list \<Rightarrow> json res" where
  "pairs_reject_duplicates ps = rbind (reject_from [] ps) (\<lambda>d. Inr (JObj d))"

text \<open>\<^verbatim>\<open>_depth_of\<close>: it stops one level below the bound, which is the measure of the recursion.\<close>

function depth_of :: "json \<Rightarrow> nat \<Rightarrow> nat" where
  "depth_of v d =
     (if EXTRA_FLAGS_MAX_DEPTH < d then d
      else case v of
        JObj ps \<Rightarrow> Max (set (d # map (\<lambda>(k, v). depth_of v (d + 1)) ps))
      | JArr xs \<Rightarrow> Max (set (d # map (\<lambda>v. depth_of v (d + 1)) xs))
      | _ \<Rightarrow> d)"
  by pat_completeness auto
termination
  by (relation "measure (\<lambda>(v, d). EXTRA_FLAGS_MAX_DEPTH + 1 - d)") auto

text \<open>What \<^verbatim>\<open>extra_flags\<close> may be; \<open>Other\<close> stands for any other type.\<close>

datatype flags = NoFlags | Dict "(string \<times> json) list" | Text string | Other

definition base_of :: "(string \<Rightarrow> f64) \<Rightarrow> nat \<Rightarrow> flags \<Rightarrow> (string \<times> json) list res" where
  "base_of pf limit fl = (case fl of
      Dict ps \<Rightarrow> Inr ps
    | Text s \<Rightarrow>
        if py_strip s = [] then Inr []
        else (case json_loads last_wins pf limit s of
                Inr (JObj ps) \<Rightarrow> Inr ps
              | Inr _ \<Rightarrow> Inr [(''_diff'', JStr s)]
              | Inl e \<Rightarrow> if e = ValueError then Inr [(''_diff'', JStr s)] else Inl e)
    | Other \<Rightarrow> Inl TypeError
    | NoFlags \<Rightarrow> Inr [])"

definition with_nonce :: "string \<Rightarrow> (string \<times> json) list \<Rightarrow> (string \<times> json) list" where
  "with_nonce nonce base =
     (let v3 = (case map_of base ''v3'' of Some (JObj ps) \<Rightarrow> ps | _ \<Rightarrow> [])
      in AList.update ''v3'' (JObj (AList.update ''admission_nonce'' (JStr nonce) v3)) base)"

definition merge_extra_flags_v3 ::
    "(f64 \<Rightarrow> string) \<Rightarrow> (string \<Rightarrow> f64) \<Rightarrow> nat \<Rightarrow> flags \<Rightarrow> string \<Rightarrow> string res" where
  "merge_extra_flags_v3 fl pf limit flags nonce =
     (if \<not> is_valid_admission_nonce_hex nonce then Inl ValueError
      else rbind (base_of pf limit flags) (\<lambda>base. Inr (canonical_json fl (JObj (with_nonce nonce base)))))"

definition utf8_size :: "string \<Rightarrow> nat" where
  "utf8_size s = sum_list (map (\<lambda>c. if (of_char c :: nat) < 128 then 1 else 2) s)"

definition extract_admission_nonce :: "(string \<Rightarrow> f64) \<Rightarrow> nat \<Rightarrow> string \<Rightarrow> byte list option" where
  "extract_admission_nonce pf limit s =
     (if py_strip s = [] \<or> EXTRA_FLAGS_MAX_BYTES < utf8_size s then None
      else case json_loads pairs_reject_duplicates pf limit s of
        Inr (JObj ps) \<Rightarrow>
          if EXTRA_FLAGS_MAX_DEPTH < depth_of (JObj ps) 1 then None
          else (case map_of ps ''v3'' of
                  Some (JObj v3) \<Rightarrow>
                    (case map_of v3 ''admission_nonce'' of
                       Some (JStr h) \<Rightarrow>
                         if is_valid_admission_nonce_hex h then (case fromhex h of Inr b \<Rightarrow> Some b | Inl _ \<Rightarrow> None) else None
                     | _ \<Rightarrow> None)
                | _ \<Rightarrow> None)
      | _ \<Rightarrow> None)"

end
