(* ===== verification/JsonFacts.thy ===== *)
theory JsonFacts
  imports JsonText
begin

text \<open>
  Facts about JSON text: what the writer writes the reader reads back, sorting the keys changes
  neither the entries nor the nesting, and the admission nonce survives the carrier exactly within
  the bounds of the consensus rule.
\<close>

declare scan_str.simps [simp del]

section \<open>Strings\<close>

lemma codes:
  "(of_char (CHR 0x5C) :: nat) = 92" "(of_char (CHR 0x22) :: nat) = 34" "(of_char (CHR ''n'') :: nat) = 110"
  "(of_char (CHR ''r'') :: nat) = 114" "(of_char (CHR ''t'') :: nat) = 116" "(of_char (CHR ''f'') :: nat) = 102"
  "(of_char (CHR ''b'') :: nat) = 98" "(of_char (CHR ''u'') :: nat) = 117" "(of_char (CHR ''['') :: nat) = 91"
  "(of_char (CHR '']'') :: nat) = 93" "(of_char (CHR ''{'') :: nat) = 123" "(of_char (CHR ''}'') :: nat) = 125"
  "(of_char (CHR '','') :: nat) = 44" "(of_char (CHR '':'') :: nat) = 58" "(of_char (CHR ''-'') :: nat) = 45"
  "(of_char (CHR '' '') :: nat) = 32" "(of_char (CHR ''.'') :: nat) = 46" "(of_char (CHR ''e'') :: nat) = 101"
  "(of_char (CHR ''E'') :: nat) = 69" "(of_char (CHR ''0'') :: nat) = 48" "(of_char (CHR ''N'') :: nat) = 78"
  "(of_char (CHR ''I'') :: nat) = 73"
  by code_simp+

lemma of_char_less: "(of_char c :: nat) < 256"
proof -
  have "(of_char c :: nat) = of_char c mod 256"
    using of_char_of [of "of_char c :: nat"] by simp
  then show ?thesis
    by (metis mod_less_divisor zero_less_numeral)
qed

lemma scan_plain:
  assumes "32 \<le> (of_char c :: nat)" "(of_char c :: nat) \<noteq> 34" "(of_char c :: nat) \<noteq> 92"
  shows "scan_str (c # t) = rbind (scan_str t) (\<lambda>(u, q). Inr (c # u, q))"
  using assms by (subst scan_str.simps) (simp add: Let_def)

lemma scan_escape:
  assumes "unescape e = Some x" "(of_char e :: nat) \<noteq> 117"
  shows "scan_str (CHR 0x5C # e # t) = rbind (scan_str t) (\<lambda>(u, q). Inr (x # u, q))"
proof -
  have "e \<noteq> CHR ''u''"
    using assms(2) codes(8) by metis
  with assms(1) show ?thesis
    by (subst scan_str.simps) (simp add: Let_def codes)
qed

lemma scan_u00:
  assumes "n < 256"
  shows "scan_str (CHR 0x5C # CHR ''u'' # CHR ''0'' # CHR ''0'' # hexdig (n div 16) # hexdig (n mod 16) # t) =
    rbind (scan_str t) (\<lambda>(u, q). Inr (char_of n # u, q))"
proof -
  have z: "hexval (CHR ''0'') = Some 0"
    using hexval_hexdig [of 0] by (simp add: hexdig_def)
  have "n div 16 * 16 + n mod 16 = n" by simp
  then have h: "hex4 (CHR ''0'' # CHR ''0'' # hexdig (n div 16) # hexdig (n mod 16) # t) = Inr (n, t)"
    using assms by (simp add: hex4_def hexval_hexdig z)
  show ?thesis
    using assms by (subst scan_str.simps) (simp add: Let_def codes h)
qed

lemma scan_esc_char: "scan_str (esc_char c @ t) = rbind (scan_str t) (\<lambda>(u, q). Inr (c # u, q))"
proof -
  define n where "n = (of_char c :: nat)"
  have c: "char_of n = c" "n < 256"
    by (simp_all add: n_def of_char_less)
  have e: "scan_str (CHR 0x5C # e # t) = rbind (scan_str t) (\<lambda>(u, q). Inr (c # u, q))"
    if "unescape e = Some (char_of n)" "(of_char e :: nat) \<noteq> 117" for e
    using scan_escape [OF that] c by simp
  consider "n = 34" | "n = 92" | "n = 10" | "n = 13" | "n = 9" | "n = 12" | "n = 8"
    | "n \<noteq> 34" "n \<noteq> 92" "32 \<le> n" "n \<le> 126"
    | "n \<noteq> 34" "n \<noteq> 92" "n \<noteq> 10" "n \<noteq> 13" "n \<noteq> 9" "n \<noteq> 12" "n \<noteq> 8" "\<not> (32 \<le> n \<and> n \<le> 126)"
    by linarith
  then show ?thesis
  proof cases
    case 8
    then show ?thesis
      using scan_plain [of c t] by (simp add: esc_char_def Let_def flip: n_def)
  next
    case 9
    then have "esc_char c = [CHR 0x5C, CHR ''u'', CHR ''0'', CHR ''0'', hexdig (n div 16), hexdig (n mod 16)]"
      by (simp add: esc_char_def Let_def flip: n_def)
    then show ?thesis
      using scan_u00 [OF c(2), of t] c(1) by simp
  next
    case 1
    then have "c = CHR 0x22" using c(1) codes(2) by (metis char_of_char)
    with 1 scan_escape [of "CHR 0x22" "CHR 0x22" t] show ?thesis
      by (simp add: esc_char_def Let_def unescape_def codes c(1) flip: n_def)
  next
    case 2
    then have "c = CHR 0x5C" using c(1) codes(1) by (metis char_of_char)
    with 2 scan_escape [of "CHR 0x5C" "CHR 0x5C" t] show ?thesis
      by (simp add: esc_char_def Let_def unescape_def codes c(1) flip: n_def)
  qed (use e [of "CHR ''n''"] e [of "CHR ''r''"] e [of "CHR ''t''"] e [of "CHR ''f''"] e [of "CHR ''b''"] in
      \<open>simp add: esc_char_def Let_def unescape_def codes flip: n_def\<close>)+
qed

lemma scan_str_text: "scan_str (concat (map esc_char s) @ CHR 0x22 # r) = Inr (s, r)"
proof (induction s)
  case Nil
  then show ?case by (subst scan_str.simps) (simp add: codes)
next
  case (Cons c s)
  then show ?case by (simp add: scan_esc_char)
qed


section \<open>Numbers\<close>

lemma dec_unfold: "dec n = (if n < 10 then [] else dec (n div 10)) @ [char_of (48 + n mod 10)]"
  by (simp add: dec_def dec_rev.simps [of n])

lemma dec_ne [simp]: "dec n \<noteq> []"
  using dec_unfold [of n] by simp

lemma digit_char: "digit (char_of (48 + n mod 10 :: nat))"
  unfolding digit_def Let_def digit_code using mod_less_divisor [of 10 n] by linarith

lemma dec_digits_all: "c \<in> set (dec n) \<Longrightarrow> digit c"
proof (induction n rule: less_induct)
  case (less n)
  have "c \<in> set (if n < 10 then [] else dec (n div 10)) \<or> c = char_of (48 + n mod 10)"
    using less.prems unfolding dec_unfold [of n] by auto
  with less.IH [of "n div 10"] digit_char [of n] show ?case
    by (auto split: if_splits)
qed

lemma nat_of_digits_dec: "nat_of_digits (dec n) = n"
proof (induction n rule: less_induct)
  case (less n)
  have "nat_of_digits (dec n) = 10 * nat_of_digits (if n < 10 then [] else dec (n div 10)) + n mod 10"
    unfolding dec_unfold [of n] nat_of_digits_def foldl_append by (simp only: foldl.simps digit_code diff_add_inverse)
  moreover have "nat_of_digits [] = 0"
    by (simp add: nat_of_digits_def)
  ultimately show ?case
    using less.IH [of "n div 10"] by (cases "n < 10") simp_all
qed

lemma hd_dec: "hd (dec n) = CHR ''0'' \<longleftrightarrow> n = 0"
proof (induction n rule: less_induct)
  case (less n)
  show ?case
  proof (cases "n < 10")
    case True
    have "hd (dec n) = CHR ''0'' \<longleftrightarrow> (of_char (char_of (48 + n mod 10) :: char) :: nat) = 48"
      using True unfolding dec_unfold [of n] codes(20) [symmetric] of_char_eq_iff by simp
    with True show ?thesis
      unfolding digit_code by simp
  next
    case False
    then have "hd (dec n) = hd (dec (n div 10))"
      by (subst dec_unfold) simp
    with False less.IH [of "n div 10"] show ?thesis
      by (simp add: div_eq_0_iff)
  qed
qed

lemma dec_cons:
  obtains c cs where "dec n = c # cs" "digit c" "(of_char c :: nat) \<noteq> 45" "c \<noteq> CHR ''-''"
proof -
  obtain c cs where d: "dec n = c # cs"
    by (cases "dec n") simp_all
  then have c: "digit c"
    using dec_digits_all [of c n] by simp
  then have "(of_char c :: nat) \<noteq> 45"
    by (simp add: digit_def Let_def)
  with d c that codes(15) show thesis by metis
qed

text \<open>What may follow a value without being read as part of a number.\<close>

definition stops :: "string \<Rightarrow> bool" where
  "stops r = (case r of [] \<Rightarrow> True | c # _ \<Rightarrow> \<not> digit c \<and> c \<noteq> CHR ''.'' \<and> c \<noteq> CHR ''e'' \<and> c \<noteq> CHR ''E'')"

lemma take_digits:
  assumes "stops r"
  shows "takeWhile digit (dec n @ r) = dec n"
proof -
  have "takeWhile digit r = []"
    using assms by (cases r) (simp_all add: stops_def)
  moreover have "\<forall>c \<in> set (dec n). digit c"
    using dec_digits_all by blast
  ultimately show ?thesis
    by (simp add: takeWhile_append)
qed

lemma scan_int:
  assumes "stops r"
  shows "scan_number pf (int_text n @ r) = Inr (JInt n, r)"
proof -
  define neg k where "neg = (n < 0)" and "k = nat \<bar>n\<bar>"
  have itext: "int_text n = (if neg then [CHR ''-''] else []) @ dec k"
    by (simp add: int_text_def neg_def k_def)
  obtain c cs where d: "dec k = c # cs" "c \<noteq> CHR ''-''"
    by (rule dec_cons)
  have ds: "(case dec k @ r of c # q \<Rightarrow> if c = CHR ''0'' then [c] else takeWhile digit (dec k @ r) | [] \<Rightarrow> []) = dec k"
  proof (cases "k = 0")
    case True
    then have "dec k = [CHR ''0'']"
      using hd_dec [of k] dec_unfold [of k] by simp
    then show ?thesis by simp
  next
    case False
    then show ?thesis
      using hd_dec [of k] take_digits [OF assms, of k] d by simp
  qed
  have split: "(case (if neg then [CHR ''-''] else []) @ dec k @ r of
      c # q \<Rightarrow> if c = CHR ''-'' then (True, q) else (False, (if neg then [CHR ''-''] else []) @ dec k @ r) | [] \<Rightarrow> (False, (if neg then [CHR ''-''] else []) @ dec k @ r)) =
      (neg, dec k @ r)"
    using d by simp
  have "scan_frac r = ([], r)" "scan_exp r = ([], r)"
    using assms by (cases r; simp add: stops_def scan_frac_def scan_exp_def split: list.split prod.split)+
  then show ?thesis
    unfolding scan_number_def itext append_assoc split Let_def prod.case ds
    by (simp add: nat_of_digits_dec) (simp add: neg_def k_def)
qed


section \<open>Reading back what was written\<close>

text \<open>Values without doubles whose objects have distinct keys, and their nesting.\<close>

fun json_ok :: "json \<Rightarrow> bool" and elems_ok :: "json list \<Rightarrow> bool" and membs_ok :: "(string \<times> json) list \<Rightarrow> bool" where
  "json_ok (JFloat x) = False"
| "json_ok (JArr xs) = elems_ok xs"
| "json_ok (JObj ps) = (distinct (map fst ps) \<and> membs_ok ps)"
| "json_ok v = True"
| "elems_ok [] = True"
| "elems_ok (x # xs) = (json_ok x \<and> elems_ok xs)"
| "membs_ok [] = True"
| "membs_ok ((k, v) # ps) = (json_ok v \<and> membs_ok ps)"

fun nesting :: "json \<Rightarrow> nat" and elems_nesting :: "json list \<Rightarrow> nat" and membs_nesting :: "(string \<times> json) list \<Rightarrow> nat" where
  "nesting (JArr xs) = Suc (elems_nesting xs)"
| "nesting (JObj ps) = Suc (membs_nesting ps)"
| "nesting v = 1"
| "elems_nesting [] = 0"
| "elems_nesting (x # xs) = max (nesting x) (elems_nesting xs)"
| "membs_nesting [] = 0"
| "membs_nesting ((k, v) # ps) = max (nesting v) (membs_nesting ps)"

text \<open>The first character of a value.\<close>

definition starts_value :: "char \<Rightarrow> bool" where
  "starts_value c \<longleftrightarrow> digit c \<or> (of_char c :: nat) \<in> {34, 45, 91, 102, 110, 116, 123}"

lemma starts_codes:
  "starts_value (CHR ''n'')" "starts_value (CHR ''t'')" "starts_value (CHR ''f'')" "starts_value (CHR 0x22)"
  "starts_value (CHR ''['')" "starts_value (CHR ''{'')" "starts_value (CHR ''-'')"
  by (simp_all add: starts_value_def codes)

lemma int_starts: "int_text n \<noteq> [] \<and> starts_value (hd (int_text n))"
proof -
  obtain c cs where "dec (nat n) = c # cs" "digit c"
    by (rule dec_cons)
  then show ?thesis
    by (simp add: int_text_def starts_codes starts_value_def)
qed

lemma text_starts: "json_ok v \<Longrightarrow> json_text fl sep ks v \<noteq> [] \<and> starts_value (hd (json_text fl sep ks v))"
  by (cases v) (simp_all add: int_starts starts_codes str_text_def)

lemma starts_not_ws:
  assumes "starts_value c"
  shows "skip_ws (c # cs) = c # cs" "c \<noteq> CHR '']''" "c \<noteq> CHR ''}''"
proof -
  have "(of_char c :: nat) \<notin> {9, 10, 13, 32, 93, 125}"
    using assms by (auto simp: starts_value_def digit_def Let_def)
  then show "skip_ws (c # cs) = c # cs" "c \<noteq> CHR '']''" "c \<noteq> CHR ''}''"
    using codes(10,12) by (auto simp: skip_ws_def)
qed

lemma skip_text:
  assumes "json_ok v"
  shows "skip_ws (json_text fl sep ks v @ r) = json_text fl sep ks v @ r"
  using text_starts [OF assms, of fl sep ks] starts_not_ws(1)
  by (cases "json_text fl sep ks v") simp_all

lemma skip_punct:
  "skip_ws (CHR '','' # s) = CHR '','' # s" "skip_ws (CHR '':'' # s) = CHR '':'' # s"
  "skip_ws (CHR '']'' # s) = CHR '']'' # s" "skip_ws (CHR ''}'' # s) = CHR ''}'' # s"
  "skip_ws (CHR 0x22 # s) = CHR 0x22 # s" "skip_ws [] = []"
  by (simp_all add: skip_ws_def codes)

definition blanks :: "string \<Rightarrow> bool" where
  "blanks w \<longleftrightarrow> set w \<subseteq> {CHR '' ''}"

lemma skip_blanks: "blanks w \<Longrightarrow> skip_ws (w @ s) = skip_ws s"
  by (induction w) (auto simp: blanks_def skip_ws_def codes)

lemma scan_const_int: "scan_const (int_text n @ r) = None"
proof -
  obtain c cs where d: "dec (nat \<bar>n\<bar>) = c # cs" "digit c"
    by (rule dec_cons)
  have l: "\<not> digit (CHR ''n'')" "\<not> digit (CHR ''t'')" "\<not> digit (CHR ''f'')" "\<not> digit (CHR ''N'')" "\<not> digit (CHR ''I'')"
    "\<not> digit (CHR ''-'')"
    by (simp_all add: digit_def Let_def codes)
  then have "c \<notin> {CHR ''n'', CHR ''t'', CHR ''f'', CHR ''N'', CHR ''I'', CHR ''-''}"
    using d(2) by blast
  with d show ?thesis
    by (cases "n < 0") (simp_all add: int_text_def scan_const_def strip_prefix_def)
qed

lemma scan_const_words:
  "scan_const (''null'' @ r) = Some (JNull, r)" "scan_const (''true'' @ r) = Some (JBool True, r)"
  "scan_const (''false'' @ r) = Some (JBool False, r)"
  by (simp_all add: scan_const_def strip_prefix_def)

lemma stops_after: "stops (CHR '']'' # r)" "stops (CHR ''}'' # r)" "stops (CHR '','' # r)" "stops []"
  by (simp_all add: stops_def digit_def Let_def codes)

lemma elems_long: "elems_ok xs \<Longrightarrow> length xs \<le> length (elems_text fl sep ks xs)"
proof (induction xs rule: induct_list012)
  case (2 x)
  then show ?case
    using text_starts [of x fl sep ks] by (simp add: Suc_le_eq)
next
  case (3 x y zs)
  have "1 \<le> length (json_text fl sep ks x)"
    using text_starts [of x fl sep ks] 3(3) by (simp add: Suc_le_eq)
  with 3 show ?case by simp
qed simp

lemma membs_long: "length ps \<le> length (membs_text fl sep ks ps)"
  by (induction ps rule: induct_list012) (auto simp: str_text_def)


lemma parse_words:
  "parse_value mk pf (Suc m) (CHR ''n'' # CHR ''u'' # CHR ''l'' # CHR ''l'' # r) = Inr (JNull, r)"
  "parse_value mk pf (Suc m) (CHR ''t'' # CHR ''r'' # CHR ''u'' # CHR ''e'' # r) = Inr (JBool True, r)"
  "parse_value mk pf (Suc m) (CHR ''f'' # CHR ''a'' # CHR ''l'' # CHR ''s'' # CHR ''e'' # r) = Inr (JBool False, r)"
  using scan_const_words [of r] by (simp_all add: codes)

lemma parse_str: "parse_value mk pf (Suc m) (CHR 0x22 # concat (map esc_char s) @ CHR 0x22 # r) = Inr (JStr s, r)"
  by (simp add: codes scan_str_text)

lemma parse_int:
  assumes "stops r"
  shows "parse_value mk pf (Suc m) (int_text n @ r) = Inr (JInt n, r)"
proof -
  obtain c cs where d: "dec (nat \<bar>n\<bar>) = c # cs" "digit c"
    by (rule dec_cons)
  then obtain e es where e: "int_text n @ r = e # es" "digit e \<or> e = CHR ''-''"
    by (cases "n < 0") (auto simp: int_text_def)
  have "(of_char e :: nat) \<noteq> 34" "e \<noteq> CHR ''[''" "e \<noteq> CHR ''{''"
    using e(2) codes(9,11,15) by (auto simp: digit_def Let_def)
  then have "parse_value mk pf (Suc m) (e # es) =
      (case scan_const (e # es) of Some r \<Rightarrow> Inr r | None \<Rightarrow> scan_number pf (e # es))"
    by simp
  then show ?thesis
    using scan_const_int [of n r] scan_int [OF assms, of pf n] e(1) by simp
qed

lemma parse_scalars:
  assumes "Suc 0 \<le> n"
  shows "parse_value mk pf n (CHR ''n'' # CHR ''u'' # CHR ''l'' # CHR ''l'' # r) = Inr (JNull, r)"
    "parse_value mk pf n (CHR ''t'' # CHR ''r'' # CHR ''u'' # CHR ''e'' # r) = Inr (JBool True, r)"
    "parse_value mk pf n (CHR ''f'' # CHR ''a'' # CHR ''l'' # CHR ''s'' # CHR ''e'' # r) = Inr (JBool False, r)"
    "parse_value mk pf n (CHR 0x22 # concat (map esc_char s) @ CHR 0x22 # r) = Inr (JStr s, r)"
    "stops r \<Longrightarrow> parse_value mk pf n (int_text i @ r) = Inr (JInt i, r)"
  using assms by (cases n; simp add: parse_words parse_str parse_int del: parse_value.simps(2))+

lemma parse_text:
  assumes mk: "\<And>ps. distinct (map fst ps) \<Longrightarrow> mk ps = Inr (JObj ps)"
    and sep: "sep = CHR '','' # w" "blanks w" and ks: "ks = CHR '':'' # w'" "blanks w'"
  shows "json_ok v \<Longrightarrow> nesting v \<le> n \<Longrightarrow> stops r \<Longrightarrow>
      parse_value mk pf n (json_text fl sep ks v @ r) = Inr (v, r)"
    and "elems_ok xs \<Longrightarrow> elems_nesting xs \<le> n \<Longrightarrow> xs \<noteq> [] \<Longrightarrow> length xs \<le> k \<Longrightarrow>
      parse_elems (parse_value mk pf n) k (elems_text fl sep ks xs @ CHR '']'' # r) = Inr (xs, r)"
    and "membs_ok ps \<Longrightarrow> membs_nesting ps \<le> n \<Longrightarrow> ps \<noteq> [] \<Longrightarrow> length ps \<le> k \<Longrightarrow>
      parse_membs (parse_value mk pf n) k (membs_text fl sep ks ps @ CHR ''}'' # r) = Inr (ps, r)"
proof (induction v and xs and ps arbitrary: n r and n k r and n k r rule: json_ok_elems_ok_membs_ok.induct)
  case (2 xs)
  then obtain m where n: "n = Suc m" by (cases n) simp_all
  show ?case
  proof (cases xs)
    case Nil
    then show ?thesis
      by (simp add: n codes skip_ws_def)
  next
    case (Cons x ys)
    define body where "body = elems_text fl sep ks xs @ CHR '']'' # r"
    have "json_ok x" using 2(2) Cons by simp
    then have b: "body \<noteq> []" "starts_value (hd body)"
      using text_starts [of x fl sep ks] Cons by (cases ys; simp add: body_def)+
    then obtain d q where dq: "body = d # q" "skip_ws body = body" "d \<noteq> CHR '']''"
      using starts_not_ws(1) [of "hd body" "tl body"] starts_not_ws(2) [of "hd body"] by (cases body) auto
    have "parse_elems (parse_value mk pf m) (Suc (length body)) body = Inr (xs, r)"
      unfolding body_def using 2 n Cons elems_long [of xs fl sep ks] by (intro 2(1)) simp_all
    then have "parse_value mk pf n (CHR ''['' # body) = Inr (JArr xs, r)"
      using dq by (simp add: n codes)
    then show ?thesis
      by (simp add: body_def)
  qed
next
  case (3 ps)
  then obtain m where n: "n = Suc m" by (cases n) simp_all
  show ?case
  proof (cases ps)
    case Nil
    then show ?thesis
      by (simp add: n codes skip_ws_def mk)
  next
    case (Cons p qs)
    define body where "body = membs_text fl sep ks ps @ CHR ''}'' # r"
    obtain q where dq: "body = CHR 0x22 # q"
      unfolding body_def Cons by (cases p; cases qs) (simp_all add: str_text_def)
    then have "skip_ws body = body"
      by (simp add: skip_ws_def codes)
    moreover have "parse_membs (parse_value mk pf m) (Suc (length body)) body = Inr (ps, r)"
      unfolding body_def using 3 n Cons membs_long [of ps fl sep ks] by (intro 3(1)) simp_all
    ultimately have "parse_value mk pf n (CHR ''{'' # body) = Inr (JObj ps, r)"
      using dq mk [of ps] 3(2) by (simp add: n codes)
    then show ?thesis
      by (simp add: body_def)
  qed
next
  case (6 x xs)
  then obtain j where k: "k = Suc j" by (cases k) simp_all
  show ?case
  proof (cases xs)
    case Nil
    then show ?thesis
      using 6 by (simp add: k stops_after skip_punct)
  next
    case (Cons y ys)
    have y: "skip_ws (w @ elems_text fl sep ks xs @ CHR '']'' # r) = elems_text fl sep ks xs @ CHR '']'' # r"
      using 6(3) Cons skip_text [of y fl sep ks] sep(2) by (cases ys) (simp_all add: skip_blanks)
    have "parse_elems (parse_value mk pf n) k (json_text fl sep ks x @ CHR '','' # w @ elems_text fl sep ks xs @ CHR '']'' # r) =
        Inr (x # xs, r)"
      using 6 Cons by (simp add: k stops_after skip_punct y [unfolded Cons])
    then show ?thesis
      using Cons sep(1) by simp
  qed
next
  case (8 key v ps)
  then obtain j where k: "k = Suc j" by (cases k) simp_all
  have v: "skip_ws (w' @ json_text fl sep ks v @ s) = json_text fl sep ks v @ s" for s
    using 8(3) skip_text [of v fl sep ks] ks(2) by (simp add: skip_blanks)
  have key: "scan_str (concat (map esc_char key) @ CHR 0x22 # s) = Inr (key, s)" for s
    by (rule scan_str_text)
  show ?case
  proof (cases ps)
    case Nil
    have "parse_membs (parse_value mk pf n) k
        (CHR 0x22 # concat (map esc_char key) @ CHR 0x22 # CHR '':'' # w' @ json_text fl sep ks v @ CHR ''}'' # r) =
        Inr ([(key, v)], r)"
      using 8 by (simp add: k key codes stops_after skip_punct v)
    then show ?thesis
      using Nil ks(1) by (simp add: str_text_def)
  next
    case (Cons q qs)
    obtain u where u: "membs_text fl sep ks ps @ CHR ''}'' # r = CHR 0x22 # u"
      unfolding Cons by (cases q; cases qs) (simp_all add: str_text_def)
    have y: "skip_ws (w @ membs_text fl sep ks ps @ CHR ''}'' # r) = membs_text fl sep ks ps @ CHR ''}'' # r"
      using sep(2) u by (simp add: skip_blanks skip_punct)
    have "parse_membs (parse_value mk pf n) k
        (CHR 0x22 # concat (map esc_char key) @ CHR 0x22 # CHR '':'' # w' @ json_text fl sep ks v @
           CHR '','' # w @ membs_text fl sep ks ps @ CHR ''}'' # r) =
        Inr ((key, v) # ps, r)"
      using 8 Cons by (simp add: k key codes stops_after skip_punct v y [unfolded Cons])
    then show ?thesis
      using Cons ks(1) sep(1) by (cases q) (simp add: str_text_def)
  qed
qed (simp_all add: parse_scalars str_text_def)

section \<open>The carrier\<close>


lemma update_fresh: "k \<notin> fst ` set d \<Longrightarrow> AList.update k v d = d @ [(k, v)]"
  by (induction d) auto

lemma foldl_update:
  assumes "distinct (map fst (d @ ps))"
  shows "foldl (\<lambda>d (k, v). AList.update k v d) d ps = d @ ps"
  using assms
proof (induction ps arbitrary: d)
  case (Cons p ps)
  have "fst p \<notin> fst ` set d"
    using Cons.prems by auto
  then have "foldl (\<lambda>d (k, v). AList.update k v d) d (p # ps) = foldl (\<lambda>d (k, v). AList.update k v d) (d @ [p]) ps"
    using update_fresh [of "fst p" d "snd p"] by (simp add: case_prod_beta')
  with Cons.IH [of "d @ [p]"] Cons.prems show ?case
    by simp
qed simp

lemma last_wins_distinct: "distinct (map fst ps) \<Longrightarrow> last_wins ps = Inr (JObj ps)"
  using foldl_update [of "[]" ps] by (simp add: last_wins_def)

lemma reject_from_distinct: "distinct (map fst (d @ ps)) \<Longrightarrow> reject_from d ps = Inr (d @ ps)"
proof (induction ps arbitrary: d)
  case (Cons p ps)
  then have "map_of d (fst p) = None"
    by (auto simp: map_of_eq_None_iff)
  with Cons.IH [of "d @ [p]"] Cons.prems show ?case
    by (cases p) simp
qed simp

lemma pairs_distinct: "distinct (map fst ps) \<Longrightarrow> pairs_reject_duplicates ps = Inr (JObj ps)"
  using reject_from_distinct [of "[]" ps] by (simp add: pairs_reject_duplicates_def)

text \<open>A repeated key is refused, whatever follows it.\<close>

lemma reject_from_repeated: "\<not> distinct (map fst (d @ ps)) \<Longrightarrow> distinct (map fst d) \<Longrightarrow> reject_from d ps = Inl ValueError"
proof (induction ps arbitrary: d)
  case (Cons p ps)
  show ?case
  proof (cases "map_of d (fst p)")
    case None
    then have "distinct (map fst (d @ [p]))" "\<not> distinct (map fst ((d @ [p]) @ ps))"
      using Cons.prems by (auto simp: map_of_eq_None_iff)
    with None Cons.IH [of "d @ [p]"] show ?thesis
      by (cases p) simp
  next
    case (Some v)
    then show ?thesis by (cases p) simp
  qed
qed simp

section \<open>Sorting the keys\<close>

lemma membs_ok_iff: "membs_ok ps \<longleftrightarrow> (\<forall>p \<in> set ps. json_ok (snd p))"
  by (induction ps) auto

lemma membs_nesting_iff: "membs_nesting ps \<le> n \<longleftrightarrow> (\<forall>p \<in> set ps. nesting (snd p) \<le> n)"
  by (induction ps) auto

lemma elems_nesting_iff: "elems_nesting xs \<le> n \<longleftrightarrow> (\<forall>x \<in> set xs. nesting x \<le> n)"
  by (induction xs) auto

lemma keys_sorted: "map fst (memb_sorts ps) = map fst ps"
  by (induction ps) auto

lemma distinct_sort_key: "distinct (map fst (sort_key fst ps)) = distinct (map fst ps)"
  by (simp add: distinct_map)

lemma memb_sorts_map: "memb_sorts ps = map (\<lambda>(k, v). (k, json_sort v)) ps"
  by (induction ps) auto

lemma sort_ok:
  "json_ok v \<Longrightarrow> json_ok (json_sort v)"
  "elems_ok xs \<Longrightarrow> elems_ok (json_sorts xs)"
  "membs_ok ps \<Longrightarrow> membs_ok (memb_sorts ps)"
proof (induction v and xs and ps rule: json_ok_elems_ok_membs_ok.induct)
  case (3 ps)
  then show ?case
    by (simp add: distinct_sort_key keys_sorted membs_ok_iff)
qed simp_all

lemma sort_nesting:
  "nesting (json_sort v) \<le> n \<longleftrightarrow> nesting v \<le> n"
  "elems_nesting (json_sorts xs) \<le> n \<longleftrightarrow> elems_nesting xs \<le> n"
  "membs_nesting (memb_sorts ps) \<le> n \<longleftrightarrow> membs_nesting ps \<le> n"
proof (induction v and xs and ps arbitrary: n and n and n rule: json_ok_elems_ok_membs_ok.induct)
  case (2 xs)
  then show ?case by (cases n) simp_all
next
  case (3 ps)
  show ?case
  proof (cases n)
    case (Suc m)
    have "membs_nesting (sort_key fst (memb_sorts ps)) \<le> m \<longleftrightarrow> membs_nesting (memb_sorts ps) \<le> m"
      by (simp add: membs_nesting_iff)
    with 3 Suc show ?thesis by simp
  qed simp
qed simp_all

lemma map_of_sorted:
  assumes "distinct (map fst ps)"
  shows "map_of (sort_key fst (memb_sorts ps)) k = map_option json_sort (map_of ps k)"
proof -
  have d: "distinct (map fst (memb_sorts ps))" "distinct (map fst (sort_key fst (memb_sorts ps)))"
    using assms by (simp_all add: distinct_sort_key keys_sorted)
  have "map_of (sort_key fst (memb_sorts ps)) = map_of (memb_sorts ps)"
    using d by (intro map_of_inject_set [THEN iffD2]) simp_all
  moreover have "map_of (memb_sorts ps) k = map_option json_sort (map_of ps k)"
    by (simp add: memb_sorts_map map_of_map)
  ultimately show ?thesis by simp
qed

lemma loads_canonical:
  assumes "\<And>ps. distinct (map fst ps) \<Longrightarrow> mk ps = Inr (JObj ps)" "json_ok v" "nesting v \<le> limit"
  shows "json_loads mk pf limit (canonical_json fl v) = Inr (json_sort v)"
proof -
  have ok: "json_ok (json_sort v)" "nesting (json_sort v) \<le> limit"
    using assms(2,3) by (simp_all add: sort_ok sort_nesting)
  have "skip_ws (canonical_json fl v) = canonical_json fl v"
    using skip_text [OF ok(1), of fl "'',''" "'':''" "[]"] by (simp add: canonical_json_def)
  moreover have "parse_value mk pf limit (canonical_json fl v) = Inr (json_sort v, [])"
    using parse_text(1) [where w = "[]" and w' = "[]" and r = "[]" and mk = mk, OF assms(1) refl _ refl _ ok stops_after(4), of pf fl]
    by (simp add: canonical_json_def blanks_def)
  ultimately show ?thesis
    by (simp add: json_loads_def skip_punct)
qed

section \<open>Depth\<close>

declare depth_of.simps [simp del]

lemma depth_exceeds: "EXTRA_FLAGS_MAX_DEPTH < depth_of v d \<longleftrightarrow> EXTRA_FLAGS_MAX_DEPTH + 1 < d + nesting v"
  for v d
proof (induction v d rule: depth_of.induct)
  case (1 v d)
  have pos: "1 \<le> nesting v" by (cases v) simp_all
  show ?case
  proof (cases "EXTRA_FLAGS_MAX_DEPTH < d")
    case True
    then show ?thesis using pos by (subst depth_of.simps) simp
  next
    case False
    define M where "M = EXTRA_FLAGS_MAX_DEPTH"
    have bound: "M + 1 < d + 1 + k \<longleftrightarrow> \<not> k \<le> M - d" for k
      using False unfolding M_def by linarith
    show ?thesis
    proof (cases v)
      case (JArr xs)
      have "M < depth_of v d \<longleftrightarrow> (\<exists>x \<in> set xs. M + 1 < d + 1 + nesting x)"
        using False 1(1) [OF False JArr] unfolding M_def [symmetric] by (subst depth_of.simps) (auto simp: JArr Max_gr_iff M_def)
      also have "\<dots> \<longleftrightarrow> M + 1 < d + nesting v"
        using bound elems_nesting_iff [of xs "M - d"] False unfolding M_def [symmetric] by (simp add: JArr flip: not_le)
      finally show ?thesis by (simp add: M_def)
    next
      case (JObj ps)
      have "M < depth_of v d \<longleftrightarrow> (\<exists>p \<in> set ps. M + 1 < d + 1 + nesting (snd p))"
      proof -
        have "M < depth_of (snd p) (d + 1) \<longleftrightarrow> M + 1 < d + 1 + nesting (snd p)" if "p \<in> set ps" for p
          using 1(2) [OF False JObj that] prod.collapse [of p] unfolding M_def by blast
        then show ?thesis
          using False unfolding M_def [symmetric]
          by (subst depth_of.simps) (simp add: JObj Max_gr_iff case_prod_beta' flip: M_def)
      qed
      also have "\<dots> \<longleftrightarrow> M + 1 < d + nesting v"
        using bound membs_nesting_iff [of ps "M - d"] False unfolding M_def [symmetric] by (simp add: JObj flip: not_le)
      finally show ?thesis by (simp add: M_def)
    qed (use False in \<open>subst depth_of.simps; simp\<close>)+
  qed
qed


section \<open>The nonce in the carrier\<close>

lemma update_ok:
  assumes "distinct (map fst ps)" "membs_ok ps" "json_ok v"
  shows "distinct (map fst (AList.update k v ps))" "membs_ok (AList.update k v ps)"
proof -
  show "distinct (map fst (AList.update k v ps))"
    using assms by (simp add: distinct_update)
  have "set (AList.update k v ps) \<subseteq> insert (k, v) (set ps)"
    by (induction ps) auto
  with assms show "membs_ok (AList.update k v ps)"
    by (auto simp: membs_ok_iff)
qed

lemma with_nonce_ok:
  assumes "distinct (map fst base)" "membs_ok base"
  shows "json_ok (JObj (with_nonce nonce base))"
proof -
  define v3 where "v3 = (case map_of base ''v3'' of Some (JObj ps) \<Rightarrow> ps | _ \<Rightarrow> [])"
  have "distinct (map fst v3) \<and> membs_ok v3"
  proof (cases "map_of base ''v3''")
    case (Some u)
    then have "json_ok u"
      using assms(2) by (auto simp: membs_ok_iff dest!: map_of_SomeD)
    with Some show ?thesis
      by (cases u) (simp_all add: v3_def)
  qed (simp add: v3_def)
  then have "json_ok (JObj (AList.update ''admission_nonce'' (JStr nonce) v3))"
    using update_ok by simp
  with update_ok [OF assms] show ?thesis
    by (simp add: with_nonce_def Let_def flip: v3_def)
qed

lemma with_nonce_lookup:
  "map_of (with_nonce nonce base) k = (if k = ''v3'' then
      Some (JObj (AList.update ''admission_nonce'' (JStr nonce) (case map_of base ''v3'' of Some (JObj ps) \<Rightarrow> ps | _ \<Rightarrow> [])))
    else map_of base k)"
  by (simp add: with_nonce_def update_conv)

lemma canonical_object_starts: "\<exists>cs. canonical_json fl (JObj ps) = CHR ''{'' # cs"
  by (simp add: canonical_json_def)

lemma strip_object: "py_strip (CHR ''{'' # cs) \<noteq> []"
proof -
  have s: "\<not> py_space (CHR ''{'')"
    by (simp add: py_space_def codes)
  then have "dropWhile py_space (rev (CHR ''{'' # cs)) \<noteq> []"
    by (simp add: dropWhile_eq_Nil_conv)
  then show ?thesis
    by (simp add: py_strip_def s)
qed

lemma fromhex_nonce:
  assumes "is_valid_admission_nonce_hex h"
  obtains b where "fromhex h = Inr b" "to_hex b = h" "length b = 32"
  using assms that by (auto simp: valid_nonce_hex_iff fromhex_to_hex)

text \<open>C38: reading back canonical JSON gives the value that was written, its keys sorted: for every value
  without doubles whose objects have distinct keys, with both readers of objects, within the
  recursion limit.\<close>

theorem canonical_json_round_trip:
  assumes "json_ok v" "nesting v \<le> limit"
  shows "json_loads last_wins pf limit (canonical_json fl v) = Inr (json_sort v) \<and>
    json_loads pairs_reject_duplicates pf limit (canonical_json fl v) = Inr (json_sort v)"
  using loads_canonical [OF last_wins_distinct assms] loads_canonical [OF pairs_distinct assms] by simp

theorem canonical_json_round_trip_witness:
  "json_loads last_wins (\<lambda>s. NaN) 5 (canonical_json (\<lambda>x. []) (JObj [(''b'', JInt (- 12)), (''a'', JArr [JStr [CHR 0x22], JNull])])) =
   Inr (JObj [(''a'', JArr [JStr [CHR 0x22], JNull]), (''b'', JInt (- 12))])"
proof -
  have "json_sort (JObj [(''b'', JInt (- 12)), (''a'', JArr [JStr [CHR 0x22], JNull])]) =
      JObj [(''a'', JArr [JStr [CHR 0x22], JNull]), (''b'', JInt (- 12))]"
    by code_simp
  then show ?thesis
    using canonical_json_round_trip [of "JObj [(''b'', JInt (- 12)), (''a'', JArr [JStr [CHR 0x22], JNull])]" 5 "\<lambda>s. NaN" "\<lambda>x. []"]
    by simp
qed

text \<open>Both claims on the carrier rest on this fact.\<close>

lemma merged_flags:
  assumes nonce: "is_valid_admission_nonce_hex nonce"
    and base: "base_of pf limit flags = Inr base" "distinct (map fst base)" "membs_ok base"
    and limit: "nesting (JObj (with_nonce nonce base)) \<le> limit"
  shows "\<exists>s ps b. merge_extra_flags_v3 fl pf limit flags nonce = Inr s \<and>
    json_loads last_wins pf limit s = Inr (JObj ps) \<and>
    (\<forall>k. k \<noteq> ''v3'' \<longrightarrow> map_of ps k = map_option json_sort (map_of base k)) \<and>
    nonce = to_hex b \<and> length b = 32 \<and>
    extract_admission_nonce pf limit s =
      (if utf8_size s \<le> EXTRA_FLAGS_MAX_BYTES \<and> nesting (JObj (with_nonce nonce base)) \<le> EXTRA_FLAGS_MAX_DEPTH
       then Some b else None)"
proof -
  define v where "v = JObj (with_nonce nonce base)"
  define s where "s = canonical_json fl v"
  define ps where "ps = sort_key fst (memb_sorts (with_nonce nonce base))"
  have ok: "json_ok v" "nesting v \<le> limit"
    using with_nonce_ok [OF base(2,3)] limit by (simp_all add: v_def)
  have dist: "distinct (map fst (with_nonce nonce base))"
    using ok(1) by (simp add: v_def)
  have sort: "json_sort v = JObj ps"
    by (simp add: v_def ps_def)
  have loads: "json_loads last_wins pf limit s = Inr (JObj ps)" "json_loads pairs_reject_duplicates pf limit s = Inr (JObj ps)"
    using loads_canonical [OF last_wins_distinct ok] loads_canonical [OF pairs_distinct ok] by (simp_all add: s_def sort)
  have strip: "py_strip s \<noteq> []"
    using canonical_object_starts [of fl "with_nonce nonce base"] strip_object by (auto simp: s_def v_def)
  have depth: "EXTRA_FLAGS_MAX_DEPTH < depth_of (JObj ps) 1 \<longleftrightarrow> \<not> nesting v \<le> EXTRA_FLAGS_MAX_DEPTH"
    using sort_nesting(1) [of v EXTRA_FLAGS_MAX_DEPTH] unfolding sort depth_exceeds by linarith
  obtain b where b: "fromhex nonce = Inr b" "nonce = to_hex b" "length b = 32"
    using fromhex_nonce [OF nonce] by metis
  define v3 where "v3 = AList.update ''admission_nonce'' (JStr nonce) (case map_of base ''v3'' of Some (JObj ps) \<Rightarrow> ps | _ \<Rightarrow> [])"
  have v3: "map_of ps ''v3'' = Some (json_sort (JObj v3))"
    by (simp add: ps_def map_of_sorted [OF dist] with_nonce_lookup v3_def)
  have "distinct (map fst v3)"
    using ok(1) with_nonce_lookup [of nonce base "''v3''"] by (auto simp: v_def membs_ok_iff v3_def dest: map_of_SomeD)
  then have nonce_at: "map_of (sort_key fst (memb_sorts v3)) ''admission_nonce'' = Some (JStr nonce)"
    by (simp add: map_of_sorted v3_def update_conv)
  have "extract_admission_nonce pf limit s =
      (if utf8_size s \<le> EXTRA_FLAGS_MAX_BYTES \<and> nesting v \<le> EXTRA_FLAGS_MAX_DEPTH then Some b else None)"
    using strip nonce b(1) depth by (simp add: extract_admission_nonce_def loads v3 nonce_at not_less)
  moreover have "map_of ps k = map_option json_sort (map_of base k)" if "k \<noteq> ''v3''" for k
    using that by (simp add: ps_def map_of_sorted [OF dist] with_nonce_lookup)
  moreover have "merge_extra_flags_v3 fl pf limit flags nonce = Inr s"
    using nonce base(1) by (simp add: merge_extra_flags_v3_def s_def v_def)
  ultimately show ?thesis
    using loads(1) b(2,3) unfolding v_def by blast
qed


text \<open>C37: the nonce merged into the flags of a proof is what the consensus rule extracts, unless the
  merged flags are larger or deeper than the rule admits: then the merge returns all the same and
  the extraction finds no nonce.  Every other entry of the flags is kept.\<close>

theorem nonce_carrier_round_trip:
  assumes nonce: "is_valid_admission_nonce_hex nonce"
    and base: "base_of pf limit flags = Inr base" "distinct (map fst base)" "membs_ok base"
    and limit: "nesting (JObj (with_nonce nonce base)) \<le> limit"
  shows "\<exists>s ps b. merge_extra_flags_v3 fl pf limit flags nonce = Inr s \<and>
    json_loads last_wins pf limit s = Inr (JObj ps) \<and>
    (\<forall>k. k \<noteq> ''v3'' \<longrightarrow> map_of ps k = map_option json_sort (map_of base k)) \<and>
    nonce = to_hex b \<and> length b = 32 \<and>
    extract_admission_nonce pf limit s =
      (if utf8_size s \<le> EXTRA_FLAGS_MAX_BYTES \<and> nesting (JObj (with_nonce nonce base)) \<le> EXTRA_FLAGS_MAX_DEPTH
       then Some b else None)"
  by (rule merged_flags [OF assms])

lemma utf8_size_le: "utf8_size s \<le> 2 * length s"
  by (induction s) (auto simp: utf8_size_def)

lemma str_text_length: "length (str_text s) \<le> 6 * length s + 2"
proof -
  have "length (esc_char c) \<le> 6" for c
    by (simp add: esc_char_def Let_def)
  then have "length (concat (map esc_char s)) \<le> 6 * length s"
    by (induction s) (simp_all add: add_mono)
  then show ?thesis
    by (simp add: str_text_def)
qed

theorem nonce_carrier_round_trip_witness:
  "\<exists>s. merge_extra_flags_v3 (\<lambda>x. []) (\<lambda>s. NaN) 9 (Dict [(''completion_id'', JStr ''x'')]) (to_hex (replicate 32 7)) = Inr s \<and>
     extract_admission_nonce (\<lambda>s. NaN) 9 s = Some (replicate 32 7)"
proof -
  define h base where "h = to_hex (replicate 32 (7 :: byte))" and "base = [(''completion_id'', JStr ''x'')]"
  have ok: "is_valid_admission_nonce_hex h"
    unfolding valid_nonce_hex_iff h_def by (intro exI [of _ "replicate 32 7"]) simp
  have length_h: "length h = 64"
    by (simp add: h_def)
  have wn: "with_nonce h base = [(''completion_id'', JStr ''x''), (''v3'', JObj [(''admission_nonce'', JStr h)])]"
    by (simp add: with_nonce_def base_def)
  have "''completion_id'' \<le> ''v3''"
    by code_simp
  then have sorted: "json_sort (JObj (with_nonce h base)) = JObj (with_nonce h base)"
    by (simp add: wn)
  have pre: "base_of (\<lambda>s. NaN) 9 (Dict base) = Inr base" "distinct (map fst base)" "membs_ok base"
    "nesting (JObj (with_nonce h base)) \<le> 9"
    by (simp_all add: base_of_def wn) (simp_all add: base_def)
  obtain s b where s: "merge_extra_flags_v3 (\<lambda>x. []) (\<lambda>s. NaN) 9 (Dict base) h = Inr s" "h = to_hex b"
    "extract_admission_nonce (\<lambda>s. NaN) 9 s =
      (if utf8_size s \<le> EXTRA_FLAGS_MAX_BYTES \<and> nesting (JObj (with_nonce h base)) \<le> EXTRA_FLAGS_MAX_DEPTH
       then Some b else None)"
    using nonce_carrier_round_trip [OF ok pre, of "\<lambda>x. []"] by blast
  have "s = json_text (\<lambda>x. []) '','' '':'' (JObj (with_nonce h base))"
  proof -
    have "merge_extra_flags_v3 (\<lambda>x. []) (\<lambda>s. NaN) 9 (Dict base) h = Inr (canonical_json (\<lambda>x. []) (JObj (with_nonce h base)))"
      by (simp only: merge_extra_flags_v3_def ok pre(1) rbind.simps simp_thms if_False)
    then show ?thesis
      using s(1) by (simp only: canonical_json_def sorted sum.inject)
  qed
  then have "length s \<le> 2000"
    using str_text_length [of h] str_text_length [of "''completion_id''"] str_text_length [of "''v3''"]
      str_text_length [of "''admission_nonce''"] str_text_length [of "''x''"]
    by (simp add: wn length_h)
  then have "utf8_size s \<le> EXTRA_FLAGS_MAX_BYTES"
    using utf8_size_le [of s] by (simp add: EXTRA_FLAGS_MAX_BYTES_def)
  moreover have "b = replicate 32 7"
    using arg_cong [OF s(2), of fromhex] unfolding h_def fromhex_to_hex sum.inject by (rule sym)
  ultimately show ?thesis
    using s(1,3) unfolding h_def [symmetric] base_def [symmetric]
    by (intro exI [of _ s]) (simp add: wn EXTRA_FLAGS_MAX_DEPTH_def del: replicate.simps)
qed

end
