(* ===== verification/Egress.thy ===== *)
theory Egress
  imports JsonText
begin

text \<open>
  The egress of proofs, \<^verbatim>\<open>zmq_pow_writer.py\<close>: the configuration of \<^verbatim>\<open>MiningResponseWriter\<close>, its bounded
  queue and its thread, the serialisation of a response, and \<^verbatim>\<open>MiningResponseSubmitter\<close>.  A proof is a
  Python dictionary passed by reference, so dictionaries live in a store and a response holds an
  address.  A serialised response is the record of the values handed to the flatbuffers builder;
  the builder itself is outside.
\<close>

section \<open>Configuration\<close>

datatype egress = LocalMiner | Broker

text \<open>\<^verbatim>\<open>s in t\<close> for strings.\<close>

fun has_substring :: "string \<Rightarrow> string \<Rightarrow> bool" where
  "has_substring p [] = (p = [])"
| "has_substring p (c # s) = (take (length p) (c # s) = p \<or> has_substring p s)"

definition truthy :: "string \<Rightarrow> bool" where
  "truthy s = (s \<in> {''1'', ''true'', ''True''})"

record response =
  rs_req_id :: int
  rs_nonce :: int
  rs_adjusted_bits :: int
  rs_hash :: "byte list"
  rs_difficulty :: int
  rs_proof :: nat
  rs_proxy_only :: bool

text \<open>The proof table of the schema, and the response around it.\<close>

record proof_table =
  pt_version :: int
  pt_tick :: "64 word"
  pt_timestamp :: "64 word"
  pt_is_solution :: bool
  pt_model_identifier :: string
  pt_compute_precision :: string
  pt_ipfs_cid :: string
  pt_extra_flags :: string
  pt_temperature :: f64
  pt_top_p :: f64
  pt_top_k :: "32 word"
  pt_repetition_penalty :: f64
  pt_target :: "byte list"
  pt_vdf :: "byte list"
  pt_block_hash :: "byte list"
  pt_digest :: "byte list"
  pt_header_prefix :: "byte list"
  pt_chosen_tokens :: "32 word list"
  pt_chosen_probs :: "f64 list"
  pt_sampling_u :: "f64 list"
  pt_softmax_normalizers :: "f64 list"
  pt_prompt_tokens :: "32 word list"
  pt_pad_mask :: "bool list"
  pt_topk_logits :: "f64 list list"
  pt_topk_indices :: "32 word list list"
  pt_logsumexp_stats :: "f64 list list"

record message =
  ms_req_id :: int
  ms_nonce :: int
  ms_adjusted_bits :: int
  ms_hash :: "byte list"
  ms_difficulty :: int
  ms_completion_id :: string
  ms_proof :: proof_table

text \<open>
  The writer.  \<open>wr_alive\<close> is whether its thread runs and has opened its sockets; \<open>None\<close> in the queue
  is the sentinel; the last two fields are what was sent to either destination.
\<close>

record writer =
  wr_mode :: egress
  wr_push_host :: string
  wr_push_port :: int
  wr_proxy_enable :: bool
  wr_proxy_host :: string
  wr_proxy_port :: int
  wr_max_queue :: int
  wr_queue :: "response option list"
  wr_running :: bool
  wr_alive :: bool
  wr_has_socket :: bool
  wr_proxy_socket :: bool
  wr_save_to_disk :: bool
  wr_sent :: nat
  wr_failed :: nat
  wr_primary_out :: "(response \<times> message) list"
  wr_proxy_out :: "(response \<times> message) list"

definition env_int :: "(string \<Rightarrow> string option) \<Rightarrow> string \<Rightarrow> int \<Rightarrow> int res" where
  "env_int env k d = (case env k of None \<Rightarrow> Inr d | Some s \<Rightarrow> py_int s)"

definition env_str :: "(string \<Rightarrow> string option) \<Rightarrow> string \<Rightarrow> string \<Rightarrow> string" where
  "env_str env k d = (case env k of None \<Rightarrow> d | Some s \<Rightarrow> s)"

text \<open>\<^verbatim>\<open>MiningResponseWriter.__init__\<close> from the environment.\<close>

definition egress_mode :: "(string \<Rightarrow> string option) \<Rightarrow> egress res" where
  "egress_mode env =
     (let raw = env_str env ''POW_EGRESS_MODE'' ''local_miner''
      in if raw = ''local_miner'' then Inr LocalMiner else if raw = ''broker'' then Inr Broker else Inl ValueError)"

definition proxy_config :: "(string \<Rightarrow> string option) \<Rightarrow> egress \<Rightarrow> string \<Rightarrow> (bool \<times> string \<times> int) res" where
  "proxy_config env mode host =
     (let enable = truthy (env_str env ''POW_PROXY_ENABLE'' ''0'')
      in if mode = Broker then
           if enable then Inl EgressConfigError
           else if has_substring ''core-node'' (py_lower host) then Inl EgressConfigError
           else Inr (False, [], 0)
         else rbind (env_int env ''POW_PROXY_PUSH_PORT'' 7002)
                (\<lambda>port. Inr (enable, env_str env ''POW_PROXY_PUSH_HOST'' ''localhost'', port)))"

definition writer_init :: "(string \<Rightarrow> string option) \<Rightarrow> int \<Rightarrow> writer res" where
  "writer_init env max_queue_size =
     rbind (egress_mode env) (\<lambda>mode.
     let host = env_str env ''ZMQ_PUSH_HOST'' (if mode = Broker then ''127.0.0.1'' else ''localhost'') in
     rbind (env_int env ''ZMQ_PUSH_PORT'' (if mode = Broker then 7002 else 7000)) (\<lambda>port.
     rbind (proxy_config env mode host) (\<lambda>(enable, proxy_host, proxy_port).
     Inr \<lparr>wr_mode = mode, wr_push_host = host, wr_push_port = port, wr_proxy_enable = enable,
          wr_proxy_host = proxy_host, wr_proxy_port = proxy_port, wr_max_queue = max_queue_size,
          wr_queue = [], wr_running = False, wr_alive = False, wr_has_socket = False,
          wr_proxy_socket = False, wr_save_to_disk = truthy (env_str env ''POW_SAVE_TO_DISK'' ''0''),
          wr_sent = 0, wr_failed = 0, wr_primary_out = [], wr_proxy_out = []\<rparr>)))"

definition is_broker_mode :: "writer \<Rightarrow> bool" where
  "is_broker_mode w = (wr_mode w = Broker)"

section \<open>The queue\<close>

definition queue_full :: "writer \<Rightarrow> bool" where
  "queue_full w = (0 < wr_max_queue w \<and> wr_max_queue w \<le> int (length (wr_queue w)))"

definition submit_response :: "response \<Rightarrow> writer \<Rightarrow> writer \<times> bool" where
  "submit_response r w =
     (if queue_full w then (w\<lparr>wr_failed := wr_failed w + 1\<rparr>, False)
      else (w\<lparr>wr_queue := wr_queue w @ [Some r]\<rparr>, True))"

text \<open>
  \<^verbatim>\<open>start\<close> and the head of \<^verbatim>\<open>_run\<close>: \<open>socket_ok\<close> and \<open>proxy_ok\<close> say whether the sockets could be set up.
  Without the primary socket the thread ends at once and \<^verbatim>\<open>running\<close> stays set.
\<close>

definition start :: "bool \<Rightarrow> bool \<Rightarrow> writer \<Rightarrow> writer" where
  "start socket_ok proxy_ok w =
     (if wr_running w then w
      else if socket_ok
           then w\<lparr>wr_running := True, wr_alive := True, wr_has_socket := True,
                  wr_proxy_socket := wr_proxy_enable w \<and> proxy_ok\<rparr>
           else w\<lparr>wr_running := True\<rparr>)"

definition stop :: "writer \<Rightarrow> writer" where
  "stop w = (let w = w\<lparr>wr_running := False\<rparr>
     in if queue_full w then w else w\<lparr>wr_queue := wr_queue w @ [None]\<rparr>)"

record status =
  st_running :: bool
  st_port :: int
  st_queue_size :: nat
  st_max_queue_size :: int
  st_messages_sent :: nat
  st_messages_failed :: nat
  st_has_socket :: bool

definition get_status :: "writer \<Rightarrow> status" where
  "get_status w = \<lparr>st_running = wr_running w, st_port = wr_push_port w, st_queue_size = length (wr_queue w),
     st_max_queue_size = wr_max_queue w, st_messages_sent = wr_sent w, st_messages_failed = wr_failed w,
     st_has_socket = wr_has_socket w\<rparr>"

section \<open>Serialisation\<close>

text \<open>
  What is outside: \<^verbatim>\<open>float(x)\<close> and \<^verbatim>\<open>numpy.float32(x)\<close> of a value, \<^verbatim>\<open>str(x)\<close>, the text of a double and the
  double of a text, \<^verbatim>\<open>pformat\<close>, the decoding of base64, the bytes the flatbuffers builder makes of a
  table, and the recursion limit.
\<close>

record py_env =
  pe_float :: "json \<Rightarrow> f64 res"
  pe_float32 :: "json \<Rightarrow> f64 res"
  pe_str :: "json \<Rightarrow> string"
  pe_float_text :: "f64 \<Rightarrow> string"
  pe_text_float :: "string \<Rightarrow> f64"
  pe_pformat :: "json \<Rightarrow> string"
  pe_b64decode :: "string \<Rightarrow> byte list res"
  pe_encode :: "proof_table \<Rightarrow> byte list"
  pe_limit :: nat

type_synonym dict = "(string \<times> json) list"

definition item :: "dict \<Rightarrow> string \<Rightarrow> json res" where
  "item d k = (case map_of d k of None \<Rightarrow> Inl KeyError | Some v \<Rightarrow> Inr v)"

definition dget :: "dict \<Rightarrow> string \<Rightarrow> json \<Rightarrow> json" where
  "dget d k v = (case map_of d k of None \<Rightarrow> v | Some x \<Rightarrow> x)"

fun create_string :: "json \<Rightarrow> string res" where
  "create_string (JStr s) = Inr s"
| "create_string _ = Inl TypeError"

fun hex_bytes :: "json \<Rightarrow> byte list res" where
  "hex_bytes (JStr s) = (case fromhex s of Inl _ \<Rightarrow> Inl ValueError | Inr b \<Rightarrow> Inr b)"
| "hex_bytes _ = Inl TypeError"

fun elements :: "json \<Rightarrow> json list res" where
  "elements (JArr xs) = Inr xs"
| "elements (JStr s) = Inr (map (\<lambda>c. JStr [c]) s)"
| "elements (JObj ps) = Inr (map (\<lambda>p. JStr (fst p)) ps)"
| "elements _ = Inl TypeError"

text \<open>The vector builders prepend the elements in reverse order.\<close>

definition make_vec :: "(json \<Rightarrow> 'a res) \<Rightarrow> json \<Rightarrow> 'a list res" where
  "make_vec f v = rbind (elements v) (\<lambda>xs. rbind (mapr f (rev xs)) (\<lambda>ys. Inr (rev ys)))"

definition uint32_of :: "json \<Rightarrow> 32 word res" where
  "uint32_of v = rbind (json_int v) (\<lambda>n. Inr (word_of_int n))"

definition uint64_of :: "json \<Rightarrow> 64 word res" where
  "uint64_of v = rbind (json_int v) (\<lambda>n. Inr (word_of_int n))"

definition completion_id_of :: "py_env \<Rightarrow> dict \<Rightarrow> json" where
  "completion_id_of e d =
     (case map_of d ''completion_id'' of
        Some v \<Rightarrow> JStr (pe_str e v)
      | None \<Rightarrow>
          (case map_of d ''model_config_diff'' of
             Some (JObj ps) \<Rightarrow> dget ps ''completion_id'' (JStr [])
           | Some (JStr s) \<Rightarrow>
               (case json_loads last_wins (pe_text_float e) (pe_limit e) s of
                  Inr (JObj ps) \<Rightarrow> dget ps ''completion_id'' (JStr [])
                | _ \<Rightarrow> JStr [])
           | _ \<Rightarrow> JStr []))"

definition to_python_string :: "py_env \<Rightarrow> json \<Rightarrow> string" where
  "to_python_string e v = (case v of
      JStr s \<Rightarrow> s
    | JObj ps \<Rightarrow> json_text (pe_float_text e) '', '' '': '' v
    | _ \<Rightarrow> pe_str e v)"

text \<open>The extra flags: the v3 carrier, or the text of the legacy diff.\<close>

definition V3_VERSION :: int where "V3_VERSION = 3"

definition flags_of :: "json \<Rightarrow> flags" where
  "flags_of v = (case v of JObj ps \<Rightarrow> Dict ps | JStr s \<Rightarrow> Text s | JNull \<Rightarrow> NoFlags | _ \<Rightarrow> Other)"

definition carrier :: "py_env \<Rightarrow> json \<Rightarrow> json" where
  "carrier e mcd = (case mcd of
      JStr s \<Rightarrow> JStr s
    | _ \<Rightarrow> JStr (canonical_json (pe_float_text e) (if json_true mcd then mcd else JObj [])))"

definition extra_flags :: "py_env \<Rightarrow> dict \<Rightarrow> int \<Rightarrow> json res" where
  "extra_flags e d version =
     (let mcd = dget d ''model_config_diff'' (JObj [])
      in if V3_VERSION \<le> version then
           (case dget d ''admission_nonce'' JNull of
              JNull \<Rightarrow> Inr (carrier e mcd)
            | v \<Rightarrow> rbind (merge_extra_flags_v3 (pe_float_text e) (pe_text_float e) (pe_limit e) (flags_of mcd)
                           (case v of JStr s \<Rightarrow> s | _ \<Rightarrow> pe_str e v)) (\<lambda>s. Inr (JStr s)))
         else Inr (JStr (to_python_string e mcd)))"

text \<open>
  The table both serialisers build, in the order they evaluate its fields: \<open>bytes\<close> decodes the byte
  strings, \<open>opt\<close> reads a field that has a default in one of them.
\<close>

definition table_of ::
    "py_env \<Rightarrow> (json \<Rightarrow> byte list res) \<Rightarrow> (string \<Rightarrow> json \<Rightarrow> json res) \<Rightarrow> (int \<Rightarrow> json res) \<Rightarrow> dict \<Rightarrow> proof_table res" where
  "table_of e bytes opt extra_of d =
     rbind (json_int (dget d ''version'' (JInt 2))) (\<lambda>version.
     rbind (rbind (opt ''model_identifier'' (JStr [])) create_string) (\<lambda>model.
     rbind (rbind (opt ''compute_precision'' (JStr [])) create_string) (\<lambda>precision.
     rbind (rbind (opt ''ipfs_cid'' (JStr [])) create_string) (\<lambda>ipfs.
     rbind (rbind (extra_of version) create_string) (\<lambda>extra.
     rbind (rbind (item d ''target'') bytes) (\<lambda>target_b.
     rbind (rbind (item d ''vdf'') bytes) (\<lambda>vdf_b.
     rbind (rbind (item d ''block_hash'') bytes) (\<lambda>block_hash_b.
     rbind (rbind (item d ''hash'') bytes) (\<lambda>hash_b.
     rbind (rbind (opt ''header_prefix'' (JStr [])) bytes) (\<lambda>header_b.
     rbind (rbind (opt ''temperature'' (JFloat (Fin 1 0))) (pe_float e)) (\<lambda>temp.
     rbind (rbind (opt ''top_p'' (JFloat (Fin 1 0))) (pe_float e)) (\<lambda>top_p.
     rbind (rbind (opt ''top_k'' (JInt 50)) uint32_of) (\<lambda>top_k.
     rbind (rbind (opt ''repetition_penalty'' (JFloat (Fin 1 0))) (pe_float e)) (\<lambda>rp.
     rbind (rbind (item d ''chosen_tokens'') (make_vec uint32_of)) (\<lambda>tokens.
     rbind (rbind (item d ''chosen_probs'') (make_vec (pe_float32 e))) (\<lambda>probs.
     rbind (rbind (item d ''sampling_u'') (make_vec (pe_float32 e))) (\<lambda>us.
     rbind (rbind (item d ''softmax_normalizers'') (make_vec (pe_float32 e))) (\<lambda>sn.
     rbind (rbind (item d ''prompt_tokens'') (make_vec uint32_of)) (\<lambda>pt.
     rbind (rbind (item d ''pad_mask'') (make_vec (\<lambda>v. Inr (json_true v)))) (\<lambda>pm.
     rbind (rbind (item d ''topk_logits'') (\<lambda>v. rbind (elements v) (mapr (make_vec (pe_float32 e))))) (\<lambda>logits.
     rbind (rbind (item d ''topk_indices'') (\<lambda>v. rbind (elements v) (mapr (make_vec uint32_of)))) (\<lambda>idx.
     rbind (rbind (item d ''logsumexp_stats'') (\<lambda>v. rbind (elements v) (mapr (make_vec (pe_float32 e))))) (\<lambda>lse.
     rbind (rbind (item d ''tick'') uint64_of) (\<lambda>tick.
     rbind (rbind (item d ''timestamp'') uint64_of) (\<lambda>timestamp.
     rbind (item d ''is_solution'') (\<lambda>is_solution.
     Inr \<lparr>pt_version = version, pt_tick = tick, pt_timestamp = timestamp, pt_is_solution = json_true is_solution,
          pt_model_identifier = model, pt_compute_precision = precision, pt_ipfs_cid = ipfs, pt_extra_flags = extra,
          pt_temperature = temp, pt_top_p = top_p, pt_top_k = top_k, pt_repetition_penalty = rp,
          pt_target = target_b, pt_vdf = vdf_b, pt_block_hash = block_hash_b, pt_digest = hash_b,
          pt_header_prefix = header_b, pt_chosen_tokens = tokens, pt_chosen_probs = probs, pt_sampling_u = us,
          pt_softmax_normalizers = sn, pt_prompt_tokens = pt, pt_pad_mask = pm, pt_topk_logits = logits,
          pt_topk_indices = idx, pt_logsumexp_stats = lse\<rparr>))))))))))))))))))))))))))"

definition serialize_response :: "py_env \<Rightarrow> dict \<Rightarrow> response \<Rightarrow> message res" where
  "serialize_response e d r =
     rbind (table_of e hex_bytes (\<lambda>k v. Inr (dget d k v)) (extra_flags e d) d) (\<lambda>table.
     rbind (create_string (completion_id_of e d)) (\<lambda>completion_id.
     Inr \<lparr>ms_req_id = rs_req_id r, ms_nonce = rs_nonce r, ms_adjusted_bits = rs_adjusted_bits r,
          ms_hash = rs_hash r, ms_difficulty = rs_difficulty r, ms_completion_id = completion_id, ms_proof = table\<rparr>))"

section \<open>The thread\<close>

text \<open>
  Which sends go through, and where a serialised response goes.  A failed primary send counts as a
  failure, a failed dual publication does not.
\<close>

definition route :: "bool \<Rightarrow> bool \<Rightarrow> response \<Rightarrow> message \<Rightarrow> writer \<Rightarrow> writer" where
  "route primary_ok proxy_ok r m w =
     (let sent = w\<lparr>wr_sent := wr_sent w + 1\<rparr>; failed = w\<lparr>wr_failed := wr_failed w + 1\<rparr>
      in if wr_mode w = Broker then
           if primary_ok then sent\<lparr>wr_primary_out := wr_primary_out w @ [(r, m)]\<rparr> else failed
         else if rs_proxy_only r then
           if wr_proxy_socket w then
             if proxy_ok then sent\<lparr>wr_proxy_out := wr_proxy_out w @ [(r, m)]\<rparr> else failed
           else sent
         else if primary_ok then
           sent\<lparr>wr_primary_out := wr_primary_out w @ [(r, m)],
                wr_proxy_out := wr_proxy_out w @ (if wr_proxy_socket w \<and> proxy_ok then [(r, m)] else [])\<rparr>
         else failed)"

text \<open>
  An iteration of the loop of \<^verbatim>\<open>_run\<close>.  It ends the thread when \<^verbatim>\<open>running\<close> is unset or the sentinel comes;
  an empty queue is waited on.
\<close>

definition run_iteration :: "py_env \<Rightarrow> (nat \<Rightarrow> dict) \<Rightarrow> bool \<Rightarrow> bool \<Rightarrow> writer \<Rightarrow> writer" where
  "run_iteration e store primary_ok proxy_ok w =
     (if \<not> wr_alive w then w
      else if \<not> wr_running w then w\<lparr>wr_alive := False\<rparr>
      else case wr_queue w of
        [] \<Rightarrow> w
      | None # q \<Rightarrow> w\<lparr>wr_queue := q, wr_alive := False\<rparr>
      | Some r # q \<Rightarrow>
          (let w = w\<lparr>wr_queue := q\<rparr>
           in case serialize_response e (store (rs_proof r)) r of
                Inl err \<Rightarrow> w\<lparr>wr_failed := wr_failed w + 1\<rparr>
              | Inr m \<Rightarrow> route primary_ok proxy_ok r m w))"

section \<open>The submitter\<close>

text \<open>The store of proof dictionaries and the writer; the last field collects what was submitted as a
  solution.\<close>

record world =
  wd_store :: "nat \<Rightarrow> dict"
  wd_writer :: writer
  wd_solutions :: "response list"

definition submit :: "response \<Rightarrow> world \<Rightarrow> world \<times> bool" where
  "submit r wd = (case submit_response r (wd_writer wd) of (w, ok) \<Rightarrow> (wd\<lparr>wd_writer := w\<rparr>, ok))"

text \<open>The audit marker, written into the dictionary of the proof.\<close>

definition audit_diff :: "py_env \<Rightarrow> json \<Rightarrow> dict" where
  "audit_diff e mcd = (case mcd of
      JObj ps \<Rightarrow> ps
    | JStr s \<Rightarrow>
        if py_strip s = [] then []
        else (case json_loads last_wins (pe_text_float e) (pe_limit e) s of
                Inr (JObj ps) \<Rightarrow> ps
              | Inr _ \<Rightarrow> []
              | Inl _ \<Rightarrow> [(''_diff'', JStr s)])
    | _ \<Rightarrow> [])"

definition stamp_audit :: "py_env \<Rightarrow> dict \<Rightarrow> dict" where
  "stamp_audit e d =
     AList.update ''model_config_diff''
       (JObj (AList.update ''proof_purpose'' (JStr ''audit'') (audit_diff e (dget d ''model_config_diff'' JNull)))) d"

definition audit_response :: "int \<Rightarrow> nat \<Rightarrow> bool \<Rightarrow> response" where
  "audit_response req_id p proxy_only = \<lparr>rs_req_id = req_id, rs_nonce = 0, rs_adjusted_bits = 0, rs_hash = [],
     rs_difficulty = 0, rs_proof = p, rs_proxy_only = proxy_only\<rparr>"

definition submit_proof_for_audit :: "py_env \<Rightarrow> int \<Rightarrow> nat \<Rightarrow> world \<Rightarrow> world \<times> bool" where
  "submit_proof_for_audit e req_id p wd =
     (let wd = wd\<lparr>wd_store := (wd_store wd)(p := stamp_audit e (wd_store wd p))\<rparr>
      in if is_broker_mode (wd_writer wd) then submit (audit_response req_id p False) wd
         else if \<not> wr_proxy_enable (wd_writer wd) then (wd, True)
         else submit (audit_response req_id p True) wd)"

definition submit_solution :: "int \<Rightarrow> int \<Rightarrow> int \<Rightarrow> byte list \<Rightarrow> int \<Rightarrow> nat \<Rightarrow> world \<Rightarrow> world \<times> bool" where
  "submit_solution req_id nonce bits h difficulty p wd =
     (let r = \<lparr>rs_req_id = req_id, rs_nonce = nonce, rs_adjusted_bits = bits, rs_hash = h,
              rs_difficulty = difficulty, rs_proof = p, rs_proxy_only = False\<rparr>
      in submit r (wd\<lparr>wd_solutions := wd_solutions wd @ [r]\<rparr>))"

definition submit_share :: "int \<Rightarrow> int \<Rightarrow> int \<Rightarrow> byte list \<Rightarrow> int \<Rightarrow> nat \<Rightarrow> world \<Rightarrow> world \<times> bool" where
  "submit_share req_id nonce bits h difficulty p wd =
     (if \<not> is_broker_mode (wd_writer wd) then (wd, True)
      else submit \<lparr>rs_req_id = req_id, rs_nonce = nonce, rs_adjusted_bits = bits, rs_hash = h,
                   rs_difficulty = difficulty, rs_proof = p, rs_proxy_only = False\<rparr> wd)"

text \<open>\<^verbatim>\<open>MiningResponseSubmitter()\<close>.\<close>

definition submitter_init :: "(string \<Rightarrow> string option) \<Rightarrow> bool \<Rightarrow> bool \<Rightarrow> (nat \<Rightarrow> dict) \<Rightarrow> world res" where
  "submitter_init env socket_ok proxy_ok store =
     rbind (writer_init env 100) (\<lambda>w. Inr \<lparr>wd_store = store, wd_writer = start socket_ok proxy_ok w, wd_solutions = []\<rparr>)"

text \<open>
  Interleavings of the clients and the thread.  A new proof is a dictionary at an address no queued
  response uses; the counter is the number of responses put into the queue or refused.
\<close>

inductive eg_reach :: "py_env \<Rightarrow> (string \<Rightarrow> string option) \<Rightarrow> nat \<Rightarrow> world \<Rightarrow> bool" for e env where
  init: "submitter_init env socket_ok proxy_ok store = Inr wd \<Longrightarrow> eg_reach e env 0 wd"
| fresh: "eg_reach e env n wd \<Longrightarrow> (\<forall>r. Some r \<in> set (wr_queue (wd_writer wd)) \<longrightarrow> rs_proof r \<noteq> p) \<Longrightarrow>
    eg_reach e env n (wd\<lparr>wd_store := (wd_store wd)(p := d)\<rparr>)"
| audit: "eg_reach e env n wd \<Longrightarrow>
    eg_reach e env (if is_broker_mode (wd_writer wd) \<or> wr_proxy_enable (wd_writer wd) then Suc n else n)
      (fst (submit_proof_for_audit e req_id p wd))"
| solution: "eg_reach e env n wd \<Longrightarrow> eg_reach e env (Suc n) (fst (submit_solution req_id nonce bits h diff p wd))"
| share: "eg_reach e env n wd \<Longrightarrow>
    eg_reach e env (if is_broker_mode (wd_writer wd) then Suc n else n) (fst (submit_share req_id nonce bits h diff p wd))"
| thread: "eg_reach e env n wd \<Longrightarrow>
    eg_reach e env n (wd\<lparr>wd_writer := run_iteration e (wd_store wd) primary_ok proxy_ok (wd_writer wd)\<rparr>)"
| shutdown: "eg_reach e env n wd \<Longrightarrow> eg_reach e env n (wd\<lparr>wd_writer := stop (wd_writer wd)\<rparr>)"

end
