(* ===== verification/EgressFacts.thy ===== *)
theory EgressFacts
  imports Egress JsonFacts
begin

text \<open>
  Facts about the egress of proofs: what a broker configuration guarantees, that no response is lost
  unaccounted, what the Core Node can receive, and what an audit submission does to a solution.
\<close>

section \<open>Configuration\<close>

text \<open>In broker mode the writer starts exactly when the environment enables no proxy, names no Core
  Node host and gives a readable port, and then it has a single destination.\<close>

theorem broker_config_safe:
  assumes "env ''POW_EGRESS_MODE'' = Some ''broker''"
  shows "((\<exists>w. writer_init env n = Inr w) \<longleftrightarrow>
      \<not> truthy (env_str env ''POW_PROXY_ENABLE'' ''0'') \<and>
      \<not> has_substring ''core-node'' (py_lower (env_str env ''ZMQ_PUSH_HOST'' ''127.0.0.1'')) \<and>
      (\<exists>port. env_int env ''ZMQ_PUSH_PORT'' 7002 = Inr port)) \<and>
    (\<forall>w. writer_init env n = Inr w \<longrightarrow> is_broker_mode w \<and> \<not> wr_proxy_enable w \<and>
      \<not> has_substring ''core-node'' (py_lower (wr_push_host w)))"
proof -
  have "egress_mode env = Inr Broker"
    by (simp add: egress_mode_def env_str_def assms)
  then show ?thesis
    unfolding writer_init_def
    by (cases "env_int env ''ZMQ_PUSH_PORT'' 7002") (auto simp: proxy_config_def Let_def is_broker_mode_def split: if_splits)
qed

text \<open>A Core Node host with capitals is refused as well.\<close>

theorem broker_config_safe_witness:
  "\<nexists>w. writer_init [''POW_EGRESS_MODE'' \<mapsto> ''broker'', ''ZMQ_PUSH_HOST'' \<mapsto> ''CORE-NODE.svc''] 100 = Inr w"
proof -
  have "has_substring ''core-node'' (py_lower ''CORE-NODE.svc'')"
    by code_simp
  then show ?thesis
    using broker_config_safe [of "[''POW_EGRESS_MODE'' \<mapsto> ''broker'', ''ZMQ_PUSH_HOST'' \<mapsto> ''CORE-NODE.svc'']" 100]
    by (simp add: env_str_def)
qed

section \<open>Every step\<close>

definition responses :: "writer \<Rightarrow> response list" where
  "responses w = concat (map (\<lambda>x. case x of None \<Rightarrow> [] | Some r \<Rightarrow> [r]) (wr_queue w))"

definition config :: "writer \<Rightarrow> egress \<times> bool \<times> int" where
  "config w = (wr_mode w, wr_proxy_enable w, wr_max_queue w)"

text \<open>The books: every response submitted is queued, sent or counted as failed; the queue is bounded;
  in local mode only solutions wait for the primary destination or went there, in broker mode the
  proxy is unused.\<close>

definition books :: "nat \<Rightarrow> response list \<Rightarrow> writer \<Rightarrow> bool" where
  "books n sols w \<longleftrightarrow> wr_sent w + wr_failed w + length (responses w) = n \<and>
     (0 < wr_max_queue w \<longrightarrow> int (length (wr_queue w)) \<le> wr_max_queue w) \<and>
     (wr_mode w = LocalMiner \<longrightarrow>
        (\<forall>r \<in> set (responses w). rs_proxy_only r \<or> r \<in> set sols) \<and> fst ` set (wr_primary_out w) \<subseteq> set sols) \<and>
     (wr_mode w = Broker \<longrightarrow> wr_proxy_out w = [] \<and> \<not> wr_proxy_enable w) \<and>
     (wr_proxy_socket w \<longrightarrow> wr_proxy_enable w)"

lemma responses_simps [simp]:
  "responses (w\<lparr>wr_failed := k\<rparr>) = responses w" "responses (w\<lparr>wr_running := b\<rparr>) = responses w"
  "responses (w\<lparr>wr_queue := wr_queue w @ [None]\<rparr>) = responses w"
  "responses (w\<lparr>wr_queue := wr_queue w @ [Some r]\<rparr>) = responses w @ [r]"
  by (simp_all add: responses_def)

lemma submit_books:
  assumes "books n sols w" "submit_response r w = (w', ok)"
    and "wr_mode w = LocalMiner \<longrightarrow> rs_proxy_only r \<or> r \<in> set sols"
  shows "books (Suc n) sols w'"
proof (cases "queue_full w")
  case True
  then have "w' = w\<lparr>wr_failed := wr_failed w + 1\<rparr>"
    using assms(2) by (simp add: submit_response_def)
  with assms(1) show ?thesis
    by (simp add: books_def)
next
  case False
  then have "w' = w\<lparr>wr_queue := wr_queue w @ [Some r]\<rparr>"
    using assms(2) by (simp add: submit_response_def)
  with False assms(1,3) show ?thesis
    by (simp add: books_def queue_full_def) linarith
qed

lemma books_more: "books n sols w \<Longrightarrow> set sols \<subseteq> set sols' \<Longrightarrow> books n sols' w"
  by (auto simp: books_def)

lemma stop_books: "books n sols w \<Longrightarrow> books n sols (stop w)"
  by (auto simp: books_def stop_def Let_def queue_full_def responses_def)

lemma route_books:
  assumes "books n sols (w\<lparr>wr_queue := Some r # q\<rparr>)" "wr_queue w = q"
  shows "books n sols (route a b r m w)"
  using assms
  by (cases "wr_mode w") (auto simp: books_def route_def Let_def responses_def)

lemma run_books:
  assumes "books n sols w"
  shows "books n sols (run_iteration e store a b w)"
proof -
  consider "\<not> wr_alive w" | "wr_alive w" "\<not> wr_running w" | "wr_alive w" "wr_running w" "wr_queue w = []"
    | q where "wr_alive w" "wr_running w" "wr_queue w = None # q"
    | r q where "wr_alive w" "wr_running w" "wr_queue w = Some r # q"
    by (metis list.exhaust option.exhaust)
  then show ?thesis
  proof cases
    case (5 r q)
    have "w\<lparr>wr_queue := Some r # q\<rparr> = w"
      using 5 by simp
    then have "books n sols ((w\<lparr>wr_queue := q\<rparr>)\<lparr>wr_queue := Some r # q\<rparr>)"
      using assms by simp
    then have "books n sols (route a b r m (w\<lparr>wr_queue := q\<rparr>))" for m
      by (rule route_books) simp
    moreover have "books n sols (w\<lparr>wr_queue := q, wr_failed := Suc (wr_failed w)\<rparr>)"
      using assms 5 by (auto simp: books_def responses_def)
    ultimately show ?thesis
      using 5 by (simp add: run_iteration_def Let_def split: sum.split)
  qed (use assms in \<open>auto simp: run_iteration_def books_def responses_def\<close>)
qed

lemma init_books:
  assumes "submitter_init env s p store = Inr wd"
  shows "books 0 (wd_solutions wd) (wd_writer wd) \<and> wr_max_queue (wd_writer wd) = 100"
proof -
  obtain w where w: "writer_init env 100 = Inr w" "wd = \<lparr>wd_store = store, wd_writer = start s p w, wd_solutions = []\<rparr>"
    using assms by (auto simp: submitter_init_def rbind_Inr_iff)
  have "wr_queue w = [] \<and> wr_sent w = 0 \<and> wr_failed w = 0 \<and> wr_primary_out w = [] \<and> wr_proxy_out w = [] \<and>
      wr_max_queue w = 100 \<and> \<not> wr_proxy_socket w \<and> (wr_mode w = Broker \<longrightarrow> \<not> wr_proxy_enable w)"
    using w(1) by (auto simp: writer_init_def rbind_Inr_iff proxy_config_def Let_def split: if_splits)
  then show ?thesis
    by (auto simp: w(2) books_def start_def responses_def)
qed

lemma reach_books:
  "eg_reach e env n wd \<Longrightarrow> books n (wd_solutions wd) (wd_writer wd) \<and> wr_max_queue (wd_writer wd) = 100"
proof (induction rule: eg_reach.induct)
  case (init s p store wd)
  then show ?case by (rule init_books)
next
  case (audit n wd req_id p)
  then show ?case
    by (auto simp: submit_proof_for_audit_def submit_def is_broker_mode_def Let_def audit_response_def
        intro!: submit_books split: prod.split) (auto simp: submit_response_def split: if_splits)
next
  case (solution n wd req_id nonce bits h diff p)
  then show ?case
    by (auto simp: submit_solution_def submit_def Let_def
        intro!: submit_books [OF books_more] split: prod.split) (auto simp: submit_response_def split: if_splits)
next
  case (share n wd req_id nonce bits h diff p)
  then show ?case
    by (auto simp: submit_share_def submit_def is_broker_mode_def Let_def
        intro!: submit_books split: prod.split) (auto simp: submit_response_def split: if_splits)
next
  case (thread n wd a b)
  moreover have "wr_max_queue (run_iteration e (wd_store wd) a b (wd_writer wd)) = wr_max_queue (wd_writer wd)"
    by (simp add: run_iteration_def route_def Let_def split: list.split option.split sum.split)
  ultimately show ?case
    by (simp add: run_books)
next
  case (shutdown n wd)
  then show ?case
    by (simp add: stop_books) (simp add: stop_def Let_def)
qed simp_all


section \<open>Claims\<close>

text \<open>C40: under any interleaving of submissions and the thread, every response that was submitted is queued,
  counted as sent or counted as failed, and the queue never holds more than 100 entries; in broker
  mode nothing ever goes to the proxy.\<close>

theorem egress_accounting:
  assumes "eg_reach e env n wd"
  shows "wr_sent (wd_writer wd) + wr_failed (wd_writer wd) + length (responses (wd_writer wd)) = n \<and>
    length (wr_queue (wd_writer wd)) \<le> 100 \<and>
    (wr_mode (wd_writer wd) = Broker \<longrightarrow> wr_proxy_out (wd_writer wd) = [])"
  using reach_books [OF assms] by (auto simp: books_def)

text \<open>C39: in local mode the primary destination, the Core Node, only ever receives responses that were
  submitted as solutions: neither audit proofs nor shares.\<close>

theorem core_node_sees_only_solutions:
  assumes "eg_reach e env n wd" "wr_mode (wd_writer wd) = LocalMiner"
  shows "fst ` set (wr_primary_out (wd_writer wd)) \<subseteq> set (wd_solutions wd)"
  using reach_books [OF assms(1)] assms(2) by (simp add: books_def)

text \<open>A run: a share, an audit proof and a solution for the same dictionary, then the thread.\<close>

definition demo_env :: py_env where
  "demo_env = \<lparr>pe_float = (\<lambda>v. Inr (Fin 1 0)), pe_float32 = (\<lambda>v. Inr (Fin 1 0)), pe_str = (\<lambda>v. []),
     pe_float_text = (\<lambda>x. []), pe_text_float = (\<lambda>s. NaN), pe_pformat = (\<lambda>v. []),
     pe_b64decode = (\<lambda>s. Inr []), pe_encode = (\<lambda>t. []), pe_limit = 9\<rparr>"

definition demo_dict :: dict where
  "demo_dict = [(''version'', JInt 3), (''target'', JStr ''ff''), (''vdf'', JStr []), (''block_hash'', JStr []),
     (''hash'', JStr ''00''), (''chosen_tokens'', JArr [JInt 7]), (''chosen_probs'', JArr []), (''sampling_u'', JArr []),
     (''softmax_normalizers'', JArr []), (''prompt_tokens'', JArr []), (''pad_mask'', JArr []),
     (''topk_logits'', JArr []), (''topk_indices'', JArr []), (''logsumexp_stats'', JArr []), (''tick'', JInt 1),
     (''timestamp'', JInt 2), (''is_solution'', JBool True), (''completion_id'', JStr ''x''), (''model_config_diff'', JStr [])]"

definition demo_egress :: world where
  "demo_egress = \<lparr>wd_store = (\<lambda>p. demo_dict), wd_writer = start True True \<lparr>wr_mode = LocalMiner, wr_push_host = ''localhost'',
     wr_push_port = 7000, wr_proxy_enable = True, wr_proxy_host = ''localhost'', wr_proxy_port = 7002,
     wr_max_queue = 100, wr_queue = [], wr_running = False, wr_alive = False, wr_has_socket = False,
     wr_proxy_socket = False, wr_save_to_disk = False, wr_sent = 0, wr_failed = 0, wr_primary_out = [], wr_proxy_out = []\<rparr>,
     wd_solutions = []\<rparr>"

definition demo_submitted :: world where
  "demo_submitted = fst (submit_solution 1 2 3 [] 4 0 (fst (submit_proof_for_audit demo_env 1 0
     (fst (submit_share 1 2 3 [] 4 0 demo_egress)))))"

lemma reach_demo: "eg_reach demo_env [''POW_PROXY_ENABLE'' \<mapsto> ''1''] 2 demo_submitted"
proof -
  have "submitter_init [''POW_PROXY_ENABLE'' \<mapsto> ''1''] True True (\<lambda>p. demo_dict) = Inr demo_egress"
    by (simp add: submitter_init_def writer_init_def egress_mode_def env_str_def env_int_def proxy_config_def truthy_def
        Let_def demo_egress_def)
  then have "eg_reach demo_env [''POW_PROXY_ENABLE'' \<mapsto> ''1''] 0 demo_egress"
    by (rule eg_reach.init)
  from eg_reach.share [OF this, of 1 2 3 "[]" 4 0]
  have "eg_reach demo_env [''POW_PROXY_ENABLE'' \<mapsto> ''1''] 0 (fst (submit_share 1 2 3 [] 4 0 demo_egress))"
    by (simp add: is_broker_mode_def demo_egress_def start_def)
  from eg_reach.audit [OF this, of 1 0]
  have "eg_reach demo_env [''POW_PROXY_ENABLE'' \<mapsto> ''1''] 1
      (fst (submit_proof_for_audit demo_env 1 0 (fst (submit_share 1 2 3 [] 4 0 demo_egress))))"
    by (simp add: is_broker_mode_def demo_egress_def start_def submit_share_def)
  from eg_reach.solution [OF this, of 1 2 3 "[]" 4 0] show ?thesis
    by (simp add: demo_submitted_def numeral_2_eq_2)
qed

lemma demo_submitted_state:
  "wr_mode (wd_writer demo_submitted) = LocalMiner" "wr_alive (wd_writer demo_submitted)" "wr_running (wd_writer demo_submitted)"
  "wr_queue (wd_writer demo_submitted) = [Some (audit_response 1 0 True), Some \<lparr>rs_req_id = 1, rs_nonce = 2,
     rs_adjusted_bits = 3, rs_hash = [], rs_difficulty = 4, rs_proof = 0, rs_proxy_only = False\<rparr>]"
  "wd_store demo_submitted 0 = stamp_audit demo_env demo_dict"
  by (simp_all add: demo_submitted_def demo_egress_def submit_share_def is_broker_mode_def start_def submit_proof_for_audit_def
      submit_solution_def submit_def submit_response_def queue_full_def Let_def)

lemma demo_serialized:
  "\<exists>m. serialize_response demo_env (stamp_audit demo_env demo_dict) r = Inr m \<and> pt_version (ms_proof m) = 3"
proof -
  have "audit_diff demo_env (JStr []) = []"
    by (simp add: audit_diff_def py_strip_def)
  then have "stamp_audit demo_env demo_dict = butlast demo_dict @ [(''model_config_diff'', JObj [(''proof_purpose'', JStr ''audit'')])]"
    by (simp add: stamp_audit_def demo_dict_def dget_def)
  moreover have "fromhex ''ff'' = Inr [255]" "fromhex ''00'' = Inr [0]"
    by code_simp+
  ultimately show ?thesis
    by (simp add: serialize_response_def table_of_def demo_dict_def dget_def item_def extra_flags_def carrier_def demo_env_def make_vec_def
        uint32_of_def uint64_of_def completion_id_of_def V3_VERSION_def canonical_json_def)
qed

theorem egress_accounting_witness:
  "wr_sent (wd_writer demo_submitted) + wr_failed (wd_writer demo_submitted) + length (responses (wd_writer demo_submitted)) = 2"
  using egress_accounting [OF reach_demo] by simp

theorem core_node_sees_only_solutions_witness:
  "\<exists>wd. eg_reach demo_env [''POW_PROXY_ENABLE'' \<mapsto> ''1''] 2 wd \<and> fst ` set (wr_primary_out (wd_writer wd)) \<subseteq> set (wd_solutions wd)"
  using core_node_sees_only_solutions [OF reach_demo demo_submitted_state(1)] reach_demo by blast

text \<open>When a proof goes to the audit channel before it is submitted as a solution, as happens for
  every solution while the proxy is enabled, the solution is serialised with the audit marker: the
  two submissions share the dictionary that the audit submission marks.\<close>

theorem solution_carries_audit_mark:
  assumes "wd1 = fst (submit_proof_for_audit e req p wd)"
    and "wd2 = fst (submit_solution req nonce bits h diff p wd1)"
    and "serialize_response e (wd_store wd2 p) r = Inr m"
    and "V3_VERSION \<le> pt_version (ms_proof m)" "map_of (wd_store wd p) ''admission_nonce'' = None"
  shows "\<exists>d. pt_extra_flags (ms_proof m) = canonical_json (pe_float_text e) (JObj d) \<and>
    map_of d ''proof_purpose'' = Some (JStr ''audit'')"
proof -
  define d where "d = AList.update ''proof_purpose'' (JStr ''audit'') (audit_diff e (dget (wd_store wd p) ''model_config_diff'' JNull))"
  have "wd_store wd1 p = stamp_audit e (wd_store wd p)"
    by (simp add: assms(1) submit_proof_for_audit_def submit_def Let_def split: prod.split)
  then have store: "wd_store wd2 p = AList.update ''model_config_diff'' (JObj d) (wd_store wd p)"
    by (simp add: assms(2) submit_solution_def submit_def Let_def stamp_audit_def d_def split: prod.split)
  have "dget (wd_store wd2 p) ''model_config_diff'' (JObj []) = JObj d" "dget (wd_store wd2 p) ''admission_nonce'' JNull = JNull"
    by (simp_all add: store dget_def update_conv assms(5))
  moreover have "rbind (extra_flags e (wd_store wd2 p) (pt_version (ms_proof m))) create_string = Inr (pt_extra_flags (ms_proof m))"
    using assms(3) by (auto simp: serialize_response_def table_of_def rbind_Inr_iff)
  moreover have ne: "d \<noteq> []"
    by (simp add: d_def)
  ultimately have "pt_extra_flags (ms_proof m) = canonical_json (pe_float_text e) (JObj d)"
    using assms(4) by (simp add: extra_flags_def Let_def carrier_def)
  then show ?thesis
    by (intro exI [of _ d]) (simp add: d_def update_conv)
qed

theorem solution_carries_audit_mark_witness:
  "\<exists>m d. serialize_response demo_env (wd_store demo_submitted 0) (audit_response 1 0 True) = Inr m \<and>
     pt_extra_flags (ms_proof m) = canonical_json (\<lambda>x. []) (JObj d) \<and> map_of d ''proof_purpose'' = Some (JStr ''audit'')"
proof -
  obtain m where m: "serialize_response demo_env (wd_store demo_submitted 0) (audit_response 1 0 True) = Inr m" "pt_version (ms_proof m) = 3"
    using demo_serialized [of "audit_response 1 0 True"] unfolding demo_submitted_state by blast
  have "map_of (wd_store (fst (submit_share 1 2 3 [] 4 0 demo_egress)) 0) ''admission_nonce'' = None"
    by (simp add: submit_share_def is_broker_mode_def demo_egress_def start_def demo_dict_def)
  from solution_carries_audit_mark [OF refl refl m(1) [unfolded demo_submitted_def] _ this] m show ?thesis
    by (simp add: V3_VERSION_def demo_env_def)
qed

end
