(* ===== verification/Proofs.thy ===== *)
theory Proofs
  imports Egress Sampler
begin

text \<open>
  From a finished window to a proof: \<^verbatim>\<open>ProofWriter\<close> and \<^verbatim>\<open>serialize_proof\<close> (\<^verbatim>\<open>pow_utils.py\<close>) and
  \<^verbatim>\<open>process_solution\<close> (\<^verbatim>\<open>common_sampler_helper.py\<close>) with its Python and its C++ branch.  The C++ processor is
  outside: its branch is modelled up to the call.
\<close>

section \<open>ProofWriter\<close>

record proof_writer =
  pw_model_identifier :: "string option"
  pw_compute_precision :: "string option"
  pw_model_config_diff :: json
  pw_sampling_params_diff :: json
  pw_ipfs_cid :: "string option"
  pw_proof_version :: int

definition proof_writer_init :: proof_writer where
  "proof_writer_init = \<lparr>pw_model_identifier = None, pw_compute_precision = None, pw_model_config_diff = JNull,
     pw_sampling_params_diff = JNull, pw_ipfs_cid = None, pw_proof_version = 2\<rparr>"

text \<open>The setters.\<close>

definition set_model_identifier :: "string option \<Rightarrow> proof_writer \<Rightarrow> proof_writer" where
  "set_model_identifier m pw = pw\<lparr>pw_model_identifier := m\<rparr>"

definition set_ipfs_cid :: "string option \<Rightarrow> proof_writer \<Rightarrow> proof_writer" where
  "set_ipfs_cid c pw = pw\<lparr>pw_ipfs_cid := c\<rparr>"

definition set_model_config_diff :: "json \<Rightarrow> proof_writer \<Rightarrow> proof_writer" where
  "set_model_config_diff v pw = pw\<lparr>pw_model_config_diff := v\<rparr>"

definition set_sampling_params_diff :: "json \<Rightarrow> proof_writer \<Rightarrow> proof_writer" where
  "set_sampling_params_diff v pw = pw\<lparr>pw_sampling_params_diff := v\<rparr>"

definition set_compute_precision :: "string option \<Rightarrow> proof_writer \<Rightarrow> proof_writer" where
  "set_compute_precision c pw = pw\<lparr>pw_compute_precision := c\<rparr>"

definition set_proof_version :: "int \<Rightarrow> proof_writer \<Rightarrow> proof_writer" where
  "set_proof_version n pw = pw\<lparr>pw_proof_version := n\<rparr>"

text \<open>The stamp of the ingress against the version of the writer.\<close>

definition check_stamp :: "dict \<Rightarrow> proof_writer \<Rightarrow> unit res" where
  "check_stamp pow_params pw = (case dget pow_params ''proof_version'' JNull of
      JNull \<Rightarrow> Inr ()
    | v \<Rightarrow> rbind (json_int v) (\<lambda>n. if n \<noteq> pw_proof_version pw then Inl ValueError else Inr ()))"

definition window_fields :: "slot list \<Rightarrow> dict" where
  "window_fields ws =
     [(''chosen_tokens'', JArr (map (\<lambda>w. JInt (chosen_token w)) ws)),
      (''chosen_probs'', JArr (map (\<lambda>w. JFloat (chosen_prob w)) ws)),
      (''topk_logits'', JArr (map (\<lambda>w. JArr (map JFloat (topk_logits w))) ws)),
      (''topk_indices'', JArr (map (\<lambda>w. JArr (map JInt (topk_indices w))) ws)),
      (''attention_mask'', JArr (map (\<lambda>w. JBool (attention_mask w)) ws)),
      (''sampling_u'', JArr (map (\<lambda>w. JFloat (sampling_u w)) ws)),
      (''softmax_normalizers'', JArr (map (\<lambda>w. JFloat (softmax_normalizer w)) ws)),
      (''logsumexp_stats'', JArr (map (\<lambda>w. JArr (map JFloat (logsumexp_stats w))) ws))]"

definition update_all :: "dict \<Rightarrow> dict \<Rightarrow> dict" where
  "update_all d qs = foldl (\<lambda>d (k, v). AList.update k v d) d qs"

definition proof_base ::
    "nat \<Rightarrow> nat \<Rightarrow> slot list \<Rightarrow> byte list \<Rightarrow> bool \<Rightarrow> dict \<Rightarrow> f64 \<Rightarrow> proof_writer \<Rightarrow> dict res" where
  "proof_base seq_id step_num ws digest is_solution pow_params now pw =
     rbind (item pow_params ''ipfs_cid'') (\<lambda>ipfs.
     rbind (item pow_params ''tick'') (\<lambda>tick.
     rbind (item pow_params ''target'') (\<lambda>target_hex.
     rbind (item pow_params ''block_hash'') (\<lambda>block_hash.
     rbind (item pow_params ''vdf'') (\<lambda>vdf.
     Inr ([(''ipfs_cid'', ipfs), (''model_config_diff'', pw_model_config_diff pw),
           (''sampling_params_diff'', pw_sampling_params_diff pw), (''tick'', tick), (''target'', target_hex),
           (''block_hash'', block_hash), (''vdf'', vdf), (''sequence_id'', JInt (int seq_id)),
           (''steps'', JInt (int step_num))] @ window_fields ws @
          [(''hash'', JStr (to_hex digest)), (''is_solution'', JBool is_solution), (''timestamp'', JFloat now)] @
          (case pw_model_identifier pw of None \<Rightarrow> [] | Some m \<Rightarrow> if m = [] then [] else [(''model_identifier'', JStr m)]) @
          (case pw_compute_precision pw of None \<Rightarrow> [] | Some c \<Rightarrow> if c = [] then [] else [(''compute_precision'', JStr c)]) @
          (case map_of pow_params ''header_prefix'' of None \<Rightarrow> [] | Some h \<Rightarrow> [(''header_prefix'', h)])))))))"

text \<open>
  The merge into the writer's own \<^verbatim>\<open>model_config_diff\<close>, which persists to the next proof.  \<open>None\<close> stands
  for the exception branch.  No caller passes a diff in \<^verbatim>\<open>pow_params\<close>, so that branch has no case here.
\<close>

definition diff_base :: "py_env \<Rightarrow> json \<Rightarrow> json" where
  "diff_base e v = (case v of
      JObj ps \<Rightarrow> JObj ps
    | JStr s \<Rightarrow>
        if py_strip s = [] then JObj []
        else (case json_loads last_wins (pe_text_float e) (pe_limit e) s of
                Inr w \<Rightarrow> w
              | Inl _ \<Rightarrow> JObj [(''_diff'', JStr s)])
    | _ \<Rightarrow> JObj [])"

definition merge_completion :: "py_env \<Rightarrow> string \<Rightarrow> json \<Rightarrow> json" where
  "merge_completion e completion_id v =
     (case (diff_base e v, completion_id = []) of
        (w, True) \<Rightarrow> w
      | (JObj ps, False) \<Rightarrow> JObj (AList.update ''completion_id'' (JStr completion_id) ps)
      | (_, False) \<Rightarrow> JObj [(''completion_id'', JStr completion_id)])"

definition v3_carrier :: "py_env \<Rightarrow> byte list option \<Rightarrow> proof_writer \<Rightarrow> dict \<Rightarrow> dict res" where
  "v3_carrier e nonce pw d =
     (if V3_VERSION \<le> pw_proof_version pw then
        (case nonce of
           Some b \<Rightarrow> rbind (merge_extra_flags_v3 (pe_float_text e) (pe_text_float e) (pe_limit e)
                              (flags_of (pw_model_config_diff pw)) (to_hex b))
                       (\<lambda>s. Inr (AList.update ''model_config_diff'' (JStr s) d))
         | None \<Rightarrow> Inr (AList.update ''model_config_diff'' (carrier e (pw_model_config_diff pw)) d))
      else if nonce \<noteq> None then Inl ValueError else Inr d)"

definition write_proof ::
    "py_env \<Rightarrow> nat \<Rightarrow> nat \<Rightarrow> slot list \<Rightarrow> byte list \<Rightarrow> bool \<Rightarrow> dict \<Rightarrow> dict \<Rightarrow> string \<Rightarrow> byte list option \<Rightarrow> f64 \<Rightarrow>
     proof_writer \<Rightarrow> proof_writer \<times> dict res" where
  "write_proof e seq_id step_num ws digest is_solution pow_params seq_info completion_id nonce now pw =
     (case rbind (check_stamp pow_params pw) (\<lambda>_. proof_base seq_id step_num ws digest is_solution pow_params now pw) of
        Inl err \<Rightarrow> (pw, Inl err)
      | Inr base \<Rightarrow>
          (let d = update_all base seq_info;
               pw = pw\<lparr>pw_model_config_diff := merge_completion e completion_id (pw_model_config_diff pw)\<rparr>;
               d = AList.update ''version'' (JInt (pw_proof_version pw)) d
           in (pw, v3_carrier e nonce pw d)))"

section \<open>Serialisation\<close>

fun to_bytes :: "py_env \<Rightarrow> json \<Rightarrow> byte list res" where
  "to_bytes e (JStr x) =
     (let s = py_strip x
      in if s = [] then Inr []
         else (case fromhex s of Inr b \<Rightarrow> Inr b | Inl _ \<Rightarrow> pe_b64decode e s))"
| "to_bytes e _ = Inl TypeError"

text \<open>\<^verbatim>\<open>to_python_string\<close> of \<^verbatim>\<open>pow_utils.py\<close>.\<close>

definition pformat_string :: "py_env \<Rightarrow> json \<Rightarrow> string res" where
  "pformat_string e v = (case v of
      JStr s \<Rightarrow>
        (case json_loads last_wins (pe_text_float e) (pe_limit e) s of
           Inr w \<Rightarrow> Inr (pe_pformat e w)
         | Inl err \<Rightarrow> if err = ValueError then Inr s else Inl err)
    | _ \<Rightarrow> Inr (pe_pformat e v))"

definition proof_extra :: "py_env \<Rightarrow> dict \<Rightarrow> int \<Rightarrow> json res" where
  "proof_extra e d version =
     rbind (item d ''model_config_diff'') (\<lambda>mcd.
       if V3_VERSION \<le> version then Inr (carrier e mcd) else rbind (pformat_string e mcd) (\<lambda>s. Inr (JStr s)))"

definition serialize_proof :: "py_env \<Rightarrow> dict \<Rightarrow> proof_table res" where
  "serialize_proof e d = table_of e (to_bytes e) (\<lambda>k v. item d k) (proof_extra e d) d"

section \<open>Finished windows\<close>

text \<open>The objects a finished window touches; \<open>mn_next\<close> is the address of the next dictionary.\<close>

record miner =
  mn_sampler :: sampler
  mn_hasher :: pow_hasher
  mn_proofs :: proof_writer
  mn_world :: world
  mn_next :: nat
  mn_proxy_audit :: bool

text \<open>
  \<^verbatim>\<open>CommonSamplerHelper.__init__\<close>: whether every proof goes to the audit channel, and whether the C++
  processor is used; \<open>importable\<close> says whether the extension can be imported.
\<close>

definition helper_init :: "(string \<Rightarrow> string option) \<Rightarrow> bool option \<Rightarrow> bool \<Rightarrow> (bool \<times> bool) res" where
  "helper_init env proxy_audit_enabled importable =
     (let proxy_audit = (case proxy_audit_enabled of Some b \<Rightarrow> b | None \<Rightarrow> truthy (env_str env ''POW_PROXY_ENABLE'' ''0''));
          processor_mode = env_str env ''POW_PROCESSOR_MODE'' ''python'';
          allow_fallback = truthy (env_str env ''POW_PROCESSOR_FALLBACK'' ''0'')
      in if processor_mode = ''cpp'' then
           if importable then Inr (proxy_audit, True)
           else if \<not> allow_fallback then Inl ImportError
           else Inr (proxy_audit, False)
         else Inr (proxy_audit, False))"

text \<open>The header of a job: its prefix, or the block hash when the prefix is empty.\<close>

definition final_header :: "job \<Rightarrow> byte list res" where
  "final_header j =
     rbind (if ps_header_prefix j \<noteq> [] then hex_to_bytes_tensor (ps_header_prefix j) else Inr []) (\<lambda>h.
     rbind (hex_to_bytes_tensor (ps_vdf j)) (\<lambda>_.
     rbind (hex_to_bytes_tensor (ps_target j)) (\<lambda>_.
     rbind (hex_to_bytes_tensor (ps_block_hash j)) (\<lambda>bh. Inr (if h = [] then bh else h)))))"

text \<open>The digest of the last step of a window, the same construction as for every draw.\<close>

definition final_digest :: "job \<Rightarrow> rb_row \<Rightarrow> nat \<Rightarrow> slot list \<Rightarrow> string option \<Rightarrow> byte list res" where
  "final_digest j w W ws prec =
     rbind (key (ps_tick j)) (\<lambda>t.
     rbind (final_header j) (\<lambda>header.
     rbind (hex_to_bytes_tensor (ps_vdf j)) (\<lambda>v.
     rbind (tick_bytes t) (\<lambda>T8.
     rbind (case prec of None \<Rightarrow> Inl AttributeError | Some p \<Rightarrow> Inr (utf8 p)) (\<lambda>pb.
       Inr (sha256 (build_msg header v T8 (u32le (int (steps w mod W)))
              (tok_le_bytes (map chosen_token ws)) pb
              (if pow_admission_valid_host w then Some (pow_admission_nonce w) else None))))))))"

text \<open>What either branch computes before it emits anything.\<close>

record finished =
  fw_steps :: nat
  fw_window :: "slot list"
  fw_params :: seq_params
  fw_job :: job
  fw_digest :: "byte list"
  fw_solution :: bool
  fw_share :: bool
  fw_nonce :: "byte list option"

definition finished_window :: "nat \<Rightarrow> nat \<Rightarrow> miner \<Rightarrow> finished option res" where
  "finished_window seq_id row mn =
     (let s = mn_sampler mn
      in rbind (get_window (sm_rb s) row) (\<lambda>ws.
         case map_of (sm_params s) seq_id of
           None \<Rightarrow> Inr None
         | Some ps \<Rightarrow>
             (case sp_snapshot ps of
                None \<Rightarrow> Inr None
              | Some j \<Rightarrow>
                  (let w = rb_rows (sm_rb s) ! row
                   in rbind (final_digest j w (sm_window s) ws (pw_compute_precision (mn_proofs mn))) (\<lambda>digest.
                      rbind (check_solution (mn_hasher mn) [digest] (Some (pow_snapshot.truncate j))) (\<lambda>sol.
                      rbind (check_share_solution (mn_hasher mn) [digest] (Some (pow_snapshot.truncate j))) (\<lambda>shr.
                        Inr (Some \<lparr>fw_steps = steps w, fw_window = ws, fw_params = ps, fw_job = j, fw_digest = digest,
                               fw_solution = list_ex id sol, fw_share = list_ex id shr,
                               fw_nonce = (if pow_admission_valid_host w then Some (pow_admission_nonce w) else None)\<rparr>))))))))"

definition emits :: "finished \<Rightarrow> bool \<Rightarrow> bool" where
  "emits f proxy_audit = (fw_solution f \<or> fw_share f \<or> job_audit_emit (fw_job f) \<or> proxy_audit)"

definition or_null :: "('a \<Rightarrow> json) \<Rightarrow> 'a option \<Rightarrow> json" where
  "or_null f x = (case x of None \<Rightarrow> JNull | Some v \<Rightarrow> f v)"

definition job_json :: "job \<Rightarrow> json" where
  "job_json j = JObj
     [(''tick'', or_null JInt (ps_tick j)), (''request_id'', JInt (ps_request_id j)),
      (''difficulty'', or_null JInt (job_difficulty j)), (''block_hash'', JStr (ps_block_hash j)),
      (''vdf'', JStr (ps_vdf j)), (''target'', JStr (ps_target j)), (''header_prefix'', JStr (ps_header_prefix j)),
      (''ipfs_cid'', or_null JStr (job_ipfs_cid j)), (''share_target'', JStr (ps_share_target j)),
      (''audit_emit'', JBool (job_audit_emit j))]"

text \<open>The prompt is the archive without the window; then the parameters of the sequence.\<close>

definition seq_info :: "nat \<Rightarrow> seq_cache option \<Rightarrow> seq_params \<Rightarrow> dict" where
  "seq_info W cache ps =
     (let archive = (case cache of None \<Rightarrow> [] | Some c \<Rightarrow> archive_list c);
          mask = (case cache of None \<Rightarrow> [] | Some c \<Rightarrow> pad_mask_list c);
          (prompt, pad) = (if W < length archive then (py_front W archive, py_front W mask) else ([], []))
      in [(''prompt_tokens'', JArr (map JInt prompt)), (''pad_mask'', JArr (map JBool pad)),
          (''temperature'', or_null JFloat (sp_temperature ps)), (''top_p'', or_null JFloat (sp_top_p ps)),
          (''top_k'', or_null JInt (sp_top_k ps)), (''repetition_penalty'', or_null JFloat (sp_repetition_penalty ps)),
          (''completion_id'', JStr (sp_completion_id ps)), (''request_item_id'', JStr (sp_request_item_id ps)),
          (''base_completion_id'', JStr (sp_base_completion_id ps)),
          (''pow_snapshot'', or_null job_json (sp_snapshot ps))])"

text \<open>
  The parameters of the proof, decoded and encoded again.  The snapshot of a request has no
  \<^verbatim>\<open>proof_version\<close>, so none is forwarded.
\<close>

definition pow_params_of :: "job \<Rightarrow> dict res" where
  "pow_params_of j =
     rbind (key (ps_tick j)) (\<lambda>t.
     rbind (final_header j) (\<lambda>h.
     rbind (hex_to_bytes_tensor (ps_target j)) (\<lambda>tb.
     rbind (hex_to_bytes_tensor (ps_vdf j)) (\<lambda>v.
     rbind (hex_to_bytes_tensor (ps_block_hash j)) (\<lambda>bh.
       Inr [(''tick'', JInt t), (''target'', JStr (to_hex tb)), (''vdf'', JStr (to_hex v)),
            (''block_hash'', JStr (to_hex bh)), (''header_prefix'', JStr (to_hex h)),
            (''ipfs_cid'', JStr (case job_ipfs_cid j of None \<Rightarrow> [] | Some c \<Rightarrow> c))])))))"

text \<open>
  The submissions of a written proof: an audit-only sequence stops after the audit channel; with the
  proxy enabled every proof goes there first; then a solution, or else a share.
\<close>

definition submit_written :: "py_env \<Rightarrow> finished \<Rightarrow> bool \<Rightarrow> byte list \<Rightarrow> int \<Rightarrow> nat \<Rightarrow> world \<Rightarrow> world" where
  "submit_written e f proxy_audit blob bits p wd =
     (let j = fw_job f; req = ps_request_id j; nonce = from_le (take 4 (fw_digest f));
          difficulty = (case job_difficulty j of None \<Rightarrow> 0 | Some d \<Rightarrow> d)
      in if job_audit_emit j then fst (submit_proof_for_audit e req p wd)
         else
           (let wd = (if proxy_audit then fst (submit_proof_for_audit e req p wd) else wd)
            in if fw_solution f then fst (submit_solution req nonce bits (sha256 blob) difficulty p wd)
               else if fw_share f then fst (submit_share req nonce bits (sha256 blob) difficulty p wd)
               else wd))"

definition target_bytes :: "job \<Rightarrow> byte list" where
  "target_bytes j = (case hex_to_bytes_tensor (ps_target j) of Inl _ \<Rightarrow> [] | Inr b \<Rightarrow> b)"

definition process_solution_python :: "py_env \<Rightarrow> f64 \<Rightarrow> nat \<Rightarrow> nat \<Rightarrow> miner \<Rightarrow> miner \<times> py_error option" where
  "process_solution_python e now seq_id row mn = (case finished_window seq_id row mn of
      Inl err \<Rightarrow> (mn, Some err)
    | Inr None \<Rightarrow> (mn, None)
    | Inr (Some f) \<Rightarrow>
        if \<not> emits f (mn_proxy_audit mn) then (mn, None)
        else (case pow_params_of (fw_job f) of
            Inl err \<Rightarrow> (mn, Some err)
          | Inr params \<Rightarrow>
              (let info = seq_info (sm_window (mn_sampler mn)) (map_of (sm_caches (mn_sampler mn)) seq_id) (fw_params f)
               in case write_proof e seq_id (fw_steps f) (fw_window f) (fw_digest f) (fw_solution f) params info
                         (sp_completion_id (fw_params f)) (fw_nonce f) now (mn_proofs mn) of
                  (pw, Inl err) \<Rightarrow> (mn\<lparr>mn_proofs := pw\<rparr>, Some err)
                | (pw, Inr d) \<Rightarrow>
                    (case serialize_proof e d of
                       Inl err \<Rightarrow> (mn\<lparr>mn_proofs := pw\<rparr>, Some err)
                     | Inr table \<Rightarrow>
                         (let bits = get_compact_bytes (target_bytes (fw_job f)) False;
                              p = mn_next mn;
                              wd = (mn_world mn)\<lparr>wd_store := (wd_store (mn_world mn))(p := d)\<rparr>
                          in (mn\<lparr>mn_proofs := pw, mn_next := p + 1,
                                 mn_world := submit_written e f (mn_proxy_audit mn) (pe_encode e table) bits p wd\<rparr>, None))))))"

text \<open>The arguments of the call of the C++ processor.\<close>

record cpp_call =
  cc_seq_id :: nat
  cc_step_num :: nat
  cc_window :: "slot list"
  cc_digest :: "byte list"
  cc_is_solution :: bool
  cc_is_share :: bool
  cc_audit_emit :: bool
  cc_archive :: "int list"
  cc_pad_mask :: "bool list"
  cc_params :: dict
  cc_nonce :: "byte list option"
  cc_completion_id :: string

definition process_solution_cpp :: "nat \<Rightarrow> nat \<Rightarrow> miner \<Rightarrow> cpp_call option res" where
  "process_solution_cpp seq_id row mn =
     rbind (finished_window seq_id row mn) (\<lambda>r. case r of
       None \<Rightarrow> Inr None
     | Some f \<Rightarrow>
         if \<not> emits f (mn_proxy_audit mn) then Inr None
         else rbind (pow_params_of (fw_job f)) (\<lambda>params.
           let cache = map_of (sm_caches (mn_sampler mn)) seq_id; audit = job_audit_emit (fw_job f)
           in Inr (Some \<lparr>cc_seq_id = seq_id, cc_step_num = fw_steps f, cc_window = fw_window f,
                cc_digest = fw_digest f, cc_is_solution = (fw_solution f \<and> \<not> audit),
                cc_is_share = (fw_share f \<and> \<not> audit), cc_audit_emit = audit,
                cc_archive = (case cache of None \<Rightarrow> [] | Some c \<Rightarrow> archive_list c),
                cc_pad_mask = (case cache of None \<Rightarrow> [] | Some c \<Rightarrow> pad_mask_list c),
                cc_params = params @ [(''request_id'', JInt (ps_request_id (fw_job f))),
                  (''difficulty'', or_null JInt (job_difficulty (fw_job f))),
                  (''window_size'', JInt (int (sm_window (mn_sampler mn))))],
                cc_nonce = fw_nonce f, cc_completion_id = sp_completion_id (fw_params f)\<rparr>)))"

text \<open>The branch is chosen by whether the C++ processor was loaded; the last component is its call.\<close>

definition process_solution ::
    "bool \<Rightarrow> py_env \<Rightarrow> f64 \<Rightarrow> nat \<Rightarrow> nat \<Rightarrow> miner \<Rightarrow> miner \<times> py_error option \<times> cpp_call option" where
  "process_solution use_cpp_processor e now seq_id row mn =
     (if use_cpp_processor then
        (case process_solution_cpp seq_id row mn of
           Inl err \<Rightarrow> (mn, Some err, None)
         | Inr c \<Rightarrow> (mn, None, c))
      else (case process_solution_python e now seq_id row mn of (mn, err) \<Rightarrow> (mn, err, None)))"

end
