(* ===== verification/ProofsFacts.thy ===== *)
theory ProofsFacts
  imports Proofs EgressFacts
begin

text \<open>
  Facts about finished windows and their proofs: what is submitted as a solution, whether the hash a
  solution is submitted with is the hash of the proof that is sent, what a v3 proof carries and what a
  legacy proof carries instead, and where the two branches of \<^verbatim>\<open>process_solution\<close> differ.
\<close>

section \<open>The two serialisers\<close>

definition agree :: "'a res \<Rightarrow> 'a res \<Rightarrow> bool" where
  "agree x y \<longleftrightarrow> (\<forall>a b. x = Inr a \<longrightarrow> y = Inr b \<longrightarrow> a = b)"

lemma agree_refl: "agree x x"
  by (simp add: agree_def)

lemma agree_bind: "agree x y \<Longrightarrow> (\<And>a. agree (f a) (g a)) \<Longrightarrow> agree (rbind x f) (rbind y g)"
  by (cases x; cases y) (simp_all add: agree_def)

lemma fromhex_lstrip: "fromhex s = Inr b \<Longrightarrow> fromhex (dropWhile py_space s) = Inr b"
proof (induction s)
  case (Cons c s)
  show ?case
  proof (cases "ascii_space c")
    case False
    then have "hexval c \<noteq> None"
      using Cons.prems by (auto split: list.splits option.splits)
    then have "\<not> py_space c"
      by (auto simp: hexval_def py_space_def Let_def split: if_splits)
    then show ?thesis
      using Cons.prems by simp
  qed (use Cons in simp)
qed simp

lemma fromhex_snoc: "fromhex (s @ [c]) = Inr b \<Longrightarrow> py_space c \<Longrightarrow> fromhex s = Inr b"
proof (induction s arbitrary: b rule: fromhex.induct)
  case 1
  then show ?case by (auto split: if_splits)
next
  case (2 d s)
  show ?case
  proof (cases s)
    case Nil
    have "hexval c = None"
      using 2(4) by (auto simp: hexval_def py_space_def Let_def)
    then show ?thesis
      using 2 by (auto simp: Nil split: if_splits option.splits)
  next
    case (Cons e t)
    then show ?thesis
      using 2 by (auto simp: rbind_Inr_iff split: if_splits option.splits)
  qed
qed

lemma fromhex_strip: "fromhex s = Inr b \<Longrightarrow> fromhex (py_strip s) = Inr b"
proof -
  have "fromhex (rev (dropWhile py_space (rev t))) = Inr b" if "fromhex t = Inr b" for t
    using that by (induction t rule: rev_induct) (auto dest: fromhex_snoc)
  then show "fromhex s = Inr b \<Longrightarrow> ?thesis"
    by (simp add: py_strip_def fromhex_lstrip)
qed

lemma bytes_agree: "agree (hex_bytes v) (to_bytes e v)"
proof (cases v)
  case (JStr s)
  then show ?thesis
    by (cases "fromhex s") (use fromhex_strip [of s] in \<open>auto simp: agree_def Let_def\<close>)
qed (simp_all add: agree_def)

lemma item_agree: "agree (Inr (dget d k v)) (item d k)"
  by (simp add: agree_def dget_def item_def split: option.split)

lemma extra_agree:
  assumes "V3_VERSION \<le> n" "map_of d ''admission_nonce'' = None"
  shows "agree (extra_flags e d n) (proof_extra e d n)"
  using assms by (auto simp: agree_def extra_flags_def proof_extra_def dget_def item_def Let_def split: option.splits)

lemma table_agree:
  assumes "\<And>v. agree (b v) (b' v)" "\<And>k v. agree (opt k v) (opt' k v)" "\<And>n. json_int (dget d ''version'' (JInt 2)) = Inr n \<Longrightarrow> agree (x n) (x' n)"
  shows "agree (table_of e b opt x d) (table_of e b' opt' x' d)"
proof (cases "json_int (dget d ''version'' (JInt 2))")
  case (Inr n)
  have "agree (x n) (x' n)"
    by (rule assms(3)) (rule Inr)
  note steps = assms(1,2) this agree_refl
  show ?thesis
    unfolding table_of_def Inr rbind.simps
    by ((rule agree_bind, (rule agree_bind, (rule steps)+ | rule steps)+)+)
qed (simp add: table_of_def agree_refl)

lemma serializers_agree:
  assumes "serialize_proof e d = Inr t" "serialize_response e d r = Inr m"
    and "dget d ''version'' (JInt 2) = JInt n" "V3_VERSION \<le> n" "map_of d ''admission_nonce'' = None"
  shows "ms_proof m = t"
proof -
  have "agree (table_of e hex_bytes (\<lambda>k v. Inr (dget d k v)) (extra_flags e d) d) (serialize_proof e d)"
    unfolding serialize_proof_def
    by (rule table_agree) (use assms(3-5) in \<open>simp_all add: bytes_agree item_agree extra_agree\<close>)
  then show ?thesis
    using assms(1,2) by (auto simp: agree_def serialize_response_def rbind_Inr_iff)
qed

section \<open>Proofs\<close>

lemma update_all_lookup: "k \<notin> fst ` set qs \<Longrightarrow> map_of (update_all d qs) k = map_of d k"
  unfolding update_all_def by (induction qs arbitrary: d) (auto simp: update_conv)

text \<open>The proof of a successful call, before its version and its v3 carrier are put in.\<close>

lemma write_proof_Inr:
  assumes "write_proof e q n ws dig sol params info cid nonce now pw = (pw', Inr d)"
  obtains base where "proof_base q n ws dig sol params now pw = Inr base" "check_stamp params pw = Inr ()"
    "pw' = pw\<lparr>pw_model_config_diff := merge_completion e cid (pw_model_config_diff pw)\<rparr>"
    "v3_carrier e nonce pw' (AList.update ''version'' (JInt (pw_proof_version pw)) (update_all base info)) = Inr d"
proof -
  obtain base where base: "check_stamp params pw = Inr ()" "proof_base q n ws dig sol params now pw = Inr base"
    using assms unfolding write_proof_def by (cases "check_stamp params pw"; cases "proof_base q n ws dig sol params now pw") simp_all
  show thesis
    by (rule that [OF base(2,1)]) (use assms base in \<open>auto simp: write_proof_def Let_def\<close>)
qed

lemma base_diff: "proof_base q n ws dig sol params now pw = Inr base \<Longrightarrow>
    map_of base ''model_config_diff'' = Some (pw_model_config_diff pw)"
  by (auto simp: proof_base_def rbind_Inr_iff)

lemma carrier_keys: "v3_carrier e nonce pw d = Inr d' \<Longrightarrow> k \<noteq> ''model_config_diff'' \<Longrightarrow> map_of d' k = map_of d k"
  by (auto simp: v3_carrier_def rbind_Inr_iff update_conv split: if_splits option.splits)

lemma merged_completion:
  "diff_base e v = JObj base \<Longrightarrow> cid \<noteq> [] \<Longrightarrow>
   merge_completion e cid v = JObj (AList.update ''completion_id'' (JStr cid) base)"
  by (simp add: merge_completion_def)

lemma merge_completion_has_id:
  assumes "cid \<noteq> []"
  shows "\<exists>ps. merge_completion e cid v = JObj ps \<and> map_of ps ''completion_id'' = Some (JStr cid)"
  using assms by (cases "diff_base e v") (simp_all add: merge_completion_def update_conv)

text \<open>C13: a v3 proof written with an admission nonce carries its own completion identifier and its own
  nonce: from its flags the consensus rule extracts exactly the bytes that were passed, unless the
  flags exceed the bounds of the rule.\<close>

theorem v3_proof_carries_nonce_and_id:
  assumes "write_proof e q n ws dig sol params info cid (Some nonce) now pw = (pw', Inr d)"
    and "V3_VERSION \<le> pw_proof_version pw" "cid \<noteq> []"
    and "diff_base e (pw_model_config_diff pw) = JObj base" "distinct (map fst base)" "membs_ok base"
    and "nesting (JObj (with_nonce (to_hex nonce) (AList.update ''completion_id'' (JStr cid) base))) \<le> pe_limit e"
  shows "\<exists>s ps. map_of d ''model_config_diff'' = Some (JStr s) \<and>
    json_loads last_wins (pe_text_float e) (pe_limit e) s = Inr (JObj ps) \<and>
    map_of ps ''completion_id'' = Some (JStr cid) \<and>
    extract_admission_nonce (pe_text_float e) (pe_limit e) s =
      (if utf8_size s \<le> EXTRA_FLAGS_MAX_BYTES \<and>
          nesting (JObj (with_nonce (to_hex nonce) (AList.update ''completion_id'' (JStr cid) base))) \<le> EXTRA_FLAGS_MAX_DEPTH
       then Some nonce else None)"
proof -
  define own where "own = AList.update ''completion_id'' (JStr cid) base"
  obtain d0 where "v3_carrier e (Some nonce) pw' d0 = Inr d"
    and pw': "pw' = pw\<lparr>pw_model_config_diff := merge_completion e cid (pw_model_config_diff pw)\<rparr>"
    using assms(1) by (rule write_proof_Inr)
  moreover have diff: "pw_model_config_diff pw' = JObj own" "pw_proof_version pw' = pw_proof_version pw"
    using assms(3,4) by (simp_all add: pw' own_def merged_completion)
  ultimately obtain s where s: "merge_extra_flags_v3 (pe_float_text e) (pe_text_float e) (pe_limit e) (Dict own) (to_hex nonce) = Inr s"
    and d: "d = AList.update ''model_config_diff'' (JStr s) d0"
    using assms(2) by (auto simp: v3_carrier_def rbind_Inr_iff flags_of_def)
  have valid: "is_valid_admission_nonce_hex (to_hex nonce)"
    using s by (auto simp: merge_extra_flags_v3_def split: if_splits)
  have ok: "distinct (map fst own)" "membs_ok own"
    unfolding own_def by (rule update_ok [OF assms(5,6)], simp)+
  have base: "base_of (pe_text_float e) (pe_limit e) (Dict own) = Inr own"
    by (simp add: base_of_def)
  have limit: "nesting (JObj (with_nonce (to_hex nonce) own)) \<le> pe_limit e"
    using assms(7) by (simp add: own_def)
  obtain ps b where ps: "json_loads last_wins (pe_text_float e) (pe_limit e) s = Inr (JObj ps)"
      "\<forall>k. k \<noteq> ''v3'' \<longrightarrow> map_of ps k = map_option json_sort (map_of own k)"
    and b: "to_hex nonce = to_hex b" "extract_admission_nonce (pe_text_float e) (pe_limit e) s =
      (if utf8_size s \<le> EXTRA_FLAGS_MAX_BYTES \<and> nesting (JObj (with_nonce (to_hex nonce) own)) \<le> EXTRA_FLAGS_MAX_DEPTH
       then Some b else None)"
    using merged_flags [OF valid base ok limit, of "pe_float_text e"] s by auto
  have "b = nonce"
    using fromhex_to_hex [of b] fromhex_to_hex [of nonce] b(1) by simp
  moreover have "map_of ps ''completion_id'' = Some (JStr cid)"
    using ps(2) by (simp add: own_def update_conv)
  moreover have "map_of d ''model_config_diff'' = Some (JStr s)"
    by (simp add: d update_conv)
  ultimately show ?thesis
    using ps(1) b(2) by (auto simp: own_def)
qed

text \<open>A legacy proof carries the completion identifier of the previous proof of the process instead
  of its own: its flags were captured before its identifier was merged.\<close>

theorem legacy_proof_carries_previous_id:
  assumes "write_proof e q n ws dig sol params info cid None now pw = (pw1, Inr d)"
    and "write_proof e q' n' ws' dig' sol' params' info' cid' None now' pw1 = (pw2, Inr d')"
    and "pw_proof_version pw < V3_VERSION" "cid \<noteq> []" "''model_config_diff'' \<notin> fst ` set info'"
  shows "\<exists>ps. map_of d' ''model_config_diff'' = Some (JObj ps) \<and> map_of ps ''completion_id'' = Some (JStr cid)"
proof -
  have pw1: "pw1 = pw\<lparr>pw_model_config_diff := merge_completion e cid (pw_model_config_diff pw)\<rparr>"
    using assms(1) by (rule write_proof_Inr)
  obtain base where base: "proof_base q' n' ws' dig' sol' params' now' pw1 = Inr base"
    and pw2: "pw2 = pw1\<lparr>pw_model_config_diff := merge_completion e cid' (pw_model_config_diff pw1)\<rparr>"
    and d': "v3_carrier e None pw2 (AList.update ''version'' (JInt (pw_proof_version pw1)) (update_all base info')) = Inr d'"
    using assms(2) by (rule write_proof_Inr)
  have "d' = AList.update ''version'' (JInt (pw_proof_version pw1)) (update_all base info')"
    using d' assms(3) by (simp add: v3_carrier_def pw2 pw1)
  then have "map_of d' ''model_config_diff'' = Some (pw_model_config_diff pw1)"
    using base_diff [OF base] by (simp add: update_conv update_all_lookup [OF assms(5)])
  then show ?thesis
    using merge_completion_has_id [OF assms(4)] by (simp add: pw1)
qed

section \<open>Finished windows\<close>

lemma final_header_snapshot:
  "final_header j = Inr h \<Longrightarrow> snapshot_header (pow_snapshot.truncate j) = Inr h \<and> hex_to_bytes_tensor (ps_target j) = Inr (target_bytes j)"
  by (auto simp: final_header_def snapshot_header_def pow_snapshot.truncate_def target_bytes_def rbind_Inr_iff split: if_splits)

lemma finished_window_Inr:
  assumes "finished_window q row mn = Inr (Some f)"
  obtains sol shr where "get_window (sm_rb (mn_sampler mn)) row = Inr (fw_window f)"
    "map_of (sm_params (mn_sampler mn)) q = Some (fw_params f)" "sp_snapshot (fw_params f) = Some (fw_job f)"
    "final_digest (fw_job f) (rb_rows (sm_rb (mn_sampler mn)) ! row) (sm_window (mn_sampler mn)) (fw_window f)
       (pw_compute_precision (mn_proofs mn)) = Inr (fw_digest f)"
    "check_solution (mn_hasher mn) [fw_digest f] (Some (pow_snapshot.truncate (fw_job f))) = Inr sol"
    "check_share_solution (mn_hasher mn) [fw_digest f] (Some (pow_snapshot.truncate (fw_job f))) = Inr shr"
    "fw_solution f = list_ex id sol" "fw_share f = list_ex id shr"
    "fw_nonce f = (if pow_admission_valid_host (rb_rows (sm_rb (mn_sampler mn)) ! row)
       then Some (pow_admission_nonce (rb_rows (sm_rb (mn_sampler mn)) ! row)) else None)"
proof -
  obtain ws where ws: "get_window (sm_rb (mn_sampler mn)) row = Inr ws"
    using assms by (cases "get_window (sm_rb (mn_sampler mn)) row") (simp_all add: finished_window_def)
  obtain ps where ps: "map_of (sm_params (mn_sampler mn)) q = Some ps"
    using assms ws by (cases "map_of (sm_params (mn_sampler mn)) q") (simp_all add: finished_window_def)
  obtain j where j: "sp_snapshot ps = Some j"
    using assms ws ps by (cases "sp_snapshot ps") (simp_all add: finished_window_def)
  show thesis
    using assms ws ps j that by (auto simp: finished_window_def Let_def rbind_Inr_iff)
qed

lemma finished_window_nonce:
  assumes "finished_window q row mn = Inr (Some f)" "pow_admission_valid_host (rb_rows (sm_rb (mn_sampler mn)) ! row)"
  obtains nonce where "fw_nonce f = Some nonce"
  using assms(1) by (rule finished_window_Inr) (use assms(2) that in simp)

lemma finished_solution:
  assumes "finished_window q row mn = Inr (Some f)" "final_header (fw_job f) = Inr h" "length (target_bytes (fw_job f)) = 32"
  shows "fw_solution f \<longleftrightarrow> from_le (sha256 (sha256 (h @ take 4 (fw_digest f)))) \<le> from_be (target_bytes (fw_job f))"
proof -
  obtain bs where bs: "check_solution (mn_hasher mn) [fw_digest f] (Some (pow_snapshot.truncate (fw_job f))) = Inr bs"
    and f: "fw_solution f = list_ex id bs"
    using assms(1) by (rule finished_window_Inr)
  obtain h' t where "snapshot_header (pow_snapshot.truncate (fw_job f)) = Inr h'"
      "hex_to_bytes_tensor (ps_target (pow_snapshot.truncate (fw_job f))) = Inr t" "against_target (header_hashes h' [fw_digest f]) t = Inr bs"
    using bs by (rule check_solution_eq)
  moreover have "ps_target (pow_snapshot.truncate (fw_job f)) = ps_target (fw_job f)"
    by (simp add: pow_snapshot.truncate_def)
  ultimately have "against_target (header_hashes h [fw_digest f]) (target_bytes (fw_job f)) = Inr bs"
    using final_header_snapshot [OF assms(2)] by auto
  from against_target_order [OF this assms(3)] show ?thesis
    by (simp add: f)
qed

text \<open>A successful pass of the Python branch.\<close>

lemma python_emits:
  assumes "process_solution_python e now q row mn = (mn', None)" "finished_window q row mn = Inr (Some f)"
    "emits f (mn_proxy_audit mn)"
  obtains params pw d table where "pow_params_of (fw_job f) = Inr params"
    "write_proof e q (fw_steps f) (fw_window f) (fw_digest f) (fw_solution f) params
       (seq_info (sm_window (mn_sampler mn)) (map_of (sm_caches (mn_sampler mn)) q) (fw_params f))
       (sp_completion_id (fw_params f)) (fw_nonce f) now (mn_proofs mn) = (pw, Inr d)"
    "serialize_proof e d = Inr table"
    "mn' = mn\<lparr>mn_proofs := pw, mn_next := mn_next mn + 1,
       mn_world := submit_written e f (mn_proxy_audit mn) (pe_encode e table)
         (get_compact_bytes (target_bytes (fw_job f)) False) (mn_next mn)
         ((mn_world mn)\<lparr>wd_store := (wd_store (mn_world mn))(mn_next mn := d)\<rparr>)\<rparr>"
proof -
  obtain params where params: "pow_params_of (fw_job f) = Inr params"
    using assms by (cases "pow_params_of (fw_job f)") (simp_all add: process_solution_python_def)
  obtain pw r where w: "write_proof e q (fw_steps f) (fw_window f) (fw_digest f) (fw_solution f) params
       (seq_info (sm_window (mn_sampler mn)) (map_of (sm_caches (mn_sampler mn)) q) (fw_params f))
       (sp_completion_id (fw_params f)) (fw_nonce f) now (mn_proofs mn) = (pw, r)"
    by fastforce
  obtain d where d: "r = Inr d"
    using assms params w by (cases r) (simp_all add: process_solution_python_def)
  obtain table where table: "serialize_proof e d = Inr table"
    using assms params w d by (cases "serialize_proof e d") (simp_all add: process_solution_python_def)
  show thesis
    by (rule that [OF params w [unfolded d] table])
       (use assms params w d table in \<open>auto simp: process_solution_python_def Let_def\<close>)
qed

lemma submit_frame:
  "wd_solutions (fst (submit r wd)) = wd_solutions wd" "wd_store (fst (submit r wd)) = wd_store wd"
  by (simp_all add: submit_def split: prod.split)

lemma audit_frame:
  "wd_solutions (fst (submit_proof_for_audit e req p wd)) = wd_solutions wd"
  "wd_store (fst (submit_proof_for_audit e req p wd)) = (wd_store wd)(p := stamp_audit e (wd_store wd p))"
  by (simp_all add: submit_proof_for_audit_def submit_frame Let_def)

lemma submit_written_solutions:
  "wd_solutions (submit_written e f audit blob bits p wd) = wd_solutions wd @
     (if fw_solution f \<and> \<not> job_audit_emit (fw_job f)
      then [\<lparr>rs_req_id = ps_request_id (fw_job f), rs_nonce = from_le (take 4 (fw_digest f)), rs_adjusted_bits = bits,
              rs_hash = sha256 blob, rs_difficulty = (case job_difficulty (fw_job f) of None \<Rightarrow> 0 | Some n \<Rightarrow> n),
              rs_proof = p, rs_proxy_only = False\<rparr>] else [])"
  by (simp add: submit_written_def Let_def submit_solution_def submit_share_def submit_frame audit_frame)

lemma submit_written_store:
  "wd_store (submit_written e f audit blob bits p wd) =
     (if job_audit_emit (fw_job f) \<or> audit then (wd_store wd)(p := stamp_audit e (wd_store wd p)) else wd_store wd)"
  by (simp add: submit_written_def Let_def submit_solution_def submit_share_def submit_frame audit_frame)

text \<open>C9: a finished window that is processed without an error is submitted as a solution exactly when the
  double SHA-256 of its header and the first four bytes of its digest is at most the target and the
  sequence is not audit-only; the nonce submitted is the little-endian number of those bytes.\<close>

theorem window_is_submitted_iff_it_meets_the_target:
  assumes "process_solution_python e now q row mn = (mn', None)" "finished_window q row mn = Inr (Some f)"
    and "final_header (fw_job f) = Inr h" "length (target_bytes (fw_job f)) = 32"
  shows "if from_le (sha256 (sha256 (h @ take 4 (fw_digest f)))) \<le> from_be (target_bytes (fw_job f)) \<and> \<not> job_audit_emit (fw_job f)
    then \<exists>blob_hash. wd_solutions (mn_world mn') = wd_solutions (mn_world mn) @
        [\<lparr>rs_req_id = ps_request_id (fw_job f), rs_nonce = from_le (take 4 (fw_digest f)),
          rs_adjusted_bits = get_compact_bytes (target_bytes (fw_job f)) False, rs_hash = blob_hash,
          rs_difficulty = (case job_difficulty (fw_job f) of None \<Rightarrow> 0 | Some n \<Rightarrow> n),
          rs_proof = mn_next mn, rs_proxy_only = False\<rparr>]
    else wd_solutions (mn_world mn') = wd_solutions (mn_world mn)"
proof (cases "emits f (mn_proxy_audit mn)")
  case True
  obtain params pw d table where
    "mn' = mn\<lparr>mn_proofs := pw, mn_next := mn_next mn + 1,
       mn_world := submit_written e f (mn_proxy_audit mn) (pe_encode e table)
         (get_compact_bytes (target_bytes (fw_job f)) False) (mn_next mn)
         ((mn_world mn)\<lparr>wd_store := (wd_store (mn_world mn))(mn_next mn := d)\<rparr>)\<rparr>"
    using assms(1,2) True by (rule python_emits)
  then show ?thesis
    using finished_solution [OF assms(2-4)] by (simp add: submit_written_solutions)
next
  case False
  then have "mn' = mn" "\<not> fw_solution f"
    using assms(1,2) by (simp_all add: process_solution_python_def emits_def)
  then show ?thesis
    using finished_solution [OF assms(2-4)] by simp
qed

text \<open>The job of a sequence has no version stamp, so the agreement check never fires for it.\<close>

lemma stamp_never_checked: "pow_params_of j = Inr params \<Longrightarrow> check_stamp params pw = Inr ()"
  by (auto simp: pow_params_of_def rbind_Inr_iff check_stamp_def dget_def)

section \<open>The hash of a submitted proof\<close>

lemma base_has_no_nonce: "proof_base q n ws dig sol params now pw = Inr base \<Longrightarrow> map_of base ''admission_nonce'' = None"
  by (auto simp: proof_base_def rbind_Inr_iff window_fields_def map_add_def split: option.splits)

lemma info_keys: "k \<in> fst ` set (seq_info W c ps) \<Longrightarrow> k \<in> {''prompt_tokens'', ''pad_mask'', ''temperature'', ''top_p'',
    ''top_k'', ''repetition_penalty'', ''completion_id'', ''request_item_id'', ''base_completion_id'', ''pow_snapshot''}"
  by (auto simp: seq_info_def Let_def split: prod.splits)

lemma written_keys:
  assumes "write_proof e q n ws dig sol params (seq_info W c ps) cid nonce now pw = (pw', Inr d)"
  shows "dget d ''version'' (JInt 2) = JInt (pw_proof_version pw)" "map_of d ''admission_nonce'' = None"
proof -
  obtain base where base: "proof_base q n ws dig sol params now pw = Inr base"
    and d: "v3_carrier e nonce pw' (AList.update ''version'' (JInt (pw_proof_version pw)) (update_all base (seq_info W c ps))) = Inr d"
    using assms by (rule write_proof_Inr)
  show "dget d ''version'' (JInt 2) = JInt (pw_proof_version pw)"
    using carrier_keys [OF d, of "''version''"] by (simp add: dget_def update_conv)
  have "''admission_nonce'' \<notin> fst ` set (seq_info W c ps)"
    using info_keys [of "''admission_nonce''" W c ps] by auto
  then show "map_of d ''admission_nonce'' = None"
    using carrier_keys [OF d, of "''admission_nonce''"] base_has_no_nonce [OF base] by (simp add: update_conv update_all_lookup)
qed

text \<open>The solution a pass of the Python branch submits: the hash is that of the table made when the proof
  was written.\<close>

lemma submitted_solution:
  assumes "process_solution_python e now q row mn = (mn', None)" "wd_solutions (mn_world mn') = wd_solutions (mn_world mn) @ [r]"
  obtains f params pw d table where "finished_window q row mn = Inr (Some f)" "fw_solution f" "\<not> job_audit_emit (fw_job f)"
    "write_proof e q (fw_steps f) (fw_window f) (fw_digest f) (fw_solution f) params
       (seq_info (sm_window (mn_sampler mn)) (map_of (sm_caches (mn_sampler mn)) q) (fw_params f))
       (sp_completion_id (fw_params f)) (fw_nonce f) now (mn_proofs mn) = (pw, Inr d)"
    "serialize_proof e d = Inr table" "rs_hash r = sha256 (pe_encode e table)"
    "wd_store (mn_world mn') (rs_proof r) = (if mn_proxy_audit mn then stamp_audit e d else d)"
proof -
  obtain f where f: "finished_window q row mn = Inr (Some f)" "emits f (mn_proxy_audit mn)"
    using assms by (auto simp: process_solution_python_def split: sum.splits option.splits if_splits)
  obtain params pw d table where w: "write_proof e q (fw_steps f) (fw_window f) (fw_digest f) (fw_solution f) params
       (seq_info (sm_window (mn_sampler mn)) (map_of (sm_caches (mn_sampler mn)) q) (fw_params f))
       (sp_completion_id (fw_params f)) (fw_nonce f) now (mn_proofs mn) = (pw, Inr d)"
    and table: "serialize_proof e d = Inr table"
    and mn': "mn' = mn\<lparr>mn_proofs := pw, mn_next := mn_next mn + 1,
       mn_world := submit_written e f (mn_proxy_audit mn) (pe_encode e table)
         (get_compact_bytes (target_bytes (fw_job f)) False) (mn_next mn)
         ((mn_world mn)\<lparr>wd_store := (wd_store (mn_world mn))(mn_next mn := d)\<rparr>)\<rparr>"
    using assms(1) f by (rule python_emits)
  have "fw_solution f" "\<not> job_audit_emit (fw_job f)" and r: "rs_hash r = sha256 (pe_encode e table)" "rs_proof r = mn_next mn"
    using assms(2) by (auto simp: mn' submit_written_solutions split: if_splits)
  then show thesis
    by (intro that [OF f(1) _ _ w table]) (simp_all add: mn' submit_written_store)
qed

text \<open>C10: without the audit proxy a v3 solution is submitted with the hash of the very proof that is sent:
  the table serialised later from the submitted dictionary is the table that was hashed.\<close>

theorem submitted_hash_is_of_sent_proof:
  assumes "process_solution_python e now q row mn = (mn', None)" "wd_solutions (mn_world mn') = wd_solutions (mn_world mn) @ [r]"
    and "V3_VERSION \<le> pw_proof_version (mn_proofs mn)" "\<not> mn_proxy_audit mn"
    and "serialize_response e (wd_store (mn_world mn') (rs_proof r)) r = Inr m"
  shows "rs_hash r = sha256 (pe_encode e (ms_proof m))"
proof -
  obtain f params pw d table where "finished_window q row mn = Inr (Some f)" "fw_solution f" "\<not> job_audit_emit (fw_job f)"
    and w: "write_proof e q (fw_steps f) (fw_window f) (fw_digest f) (fw_solution f) params
       (seq_info (sm_window (mn_sampler mn)) (map_of (sm_caches (mn_sampler mn)) q) (fw_params f))
       (sp_completion_id (fw_params f)) (fw_nonce f) now (mn_proofs mn) = (pw, Inr d)"
    and table: "serialize_proof e d = Inr table" "rs_hash r = sha256 (pe_encode e table)"
    and store: "wd_store (mn_world mn') (rs_proof r) = (if mn_proxy_audit mn then stamp_audit e d else d)"
    using assms(1,2) by (rule submitted_solution)
  have "serialize_response e d r = Inr m"
    using assms(4,5) store by simp
  then have "ms_proof m = table"
    by (rule serializers_agree [OF table(1) _ written_keys(1) [OF w] assms(3) written_keys(2) [OF w]])
  then show ?thesis
    by (simp add: table(2))
qed

lemma nesting_update:
  assumes "nesting (JObj ps) \<le> n" "nesting v < n"
  shows "nesting (JObj (AList.update k v ps)) \<le> n"
proof -
  have "set (AList.update k v ps) \<subseteq> insert (k, v) (set ps)"
    by (induction ps) auto
  then show ?thesis
    using assms by (cases n) (auto simp: membs_nesting_iff)
qed

lemma nesting_with_nonce:
  assumes "nesting (JObj base) \<le> n" "3 \<le> n"
  shows "nesting (JObj (with_nonce nonce base)) \<le> n"
proof -
  define v3 where "v3 = (case map_of base ''v3'' of Some (JObj ps) \<Rightarrow> ps | _ \<Rightarrow> [])"
  obtain k where k: "n = Suc k" "2 \<le> k"
    using assms(2) by (cases n) simp_all
  have "nesting (JObj v3) \<le> k"
  proof (cases "map_of base ''v3''")
    case (Some u)
    then have "nesting u \<le> k"
      using assms(1) by (auto simp: k membs_nesting_iff dest!: map_of_SomeD)
    with Some k show ?thesis
      by (cases u) (simp_all add: v3_def)
  qed (use k in \<open>simp add: v3_def\<close>)
  then have "nesting (JObj (AList.update ''admission_nonce'' (JStr nonce) v3)) \<le> k"
    by (rule nesting_update) (use k in simp)
  then have "nesting (JObj (AList.update ''admission_nonce'' (JStr nonce) v3)) < n"
    by (simp add: k)
  from nesting_update [OF assms(1) this, of "''v3''"] show ?thesis
    by (simp add: with_nonce_def Let_def flip: v3_def)
qed

lemma v3_flags:
  assumes "v3_carrier e (Some nonce) pw d0 = Inr d" "V3_VERSION \<le> pw_proof_version pw"
    and "pw_model_config_diff pw = JObj own"
  shows "map_of d ''model_config_diff'' = Some (JStr (canonical_json (pe_float_text e) (JObj (with_nonce (to_hex nonce) own))))"
  using assms by (auto simp: v3_carrier_def rbind_Inr_iff flags_of_def base_of_def merge_extra_flags_v3_def update_conv split: if_splits)

text \<open>Marking the dictionary of a v3 proof changes the flags that are sent.\<close>

lemma marked_flags_differ:
  assumes mcd: "map_of d ''model_config_diff'' = Some (JStr (canonical_json (pe_float_text e) (JObj wn)))"
    and ok: "json_ok (JObj wn)" "nesting (JObj wn) \<le> pe_limit e" "2 \<le> pe_limit e" "map_of wn ''proof_purpose'' = None"
    and version: "dget d ''version'' (JInt 2) = JInt n" "V3_VERSION \<le> n" "map_of d ''admission_nonce'' = None"
    and t: "serialize_proof e d = Inr table" and m: "serialize_response e (stamp_audit e d) r = Inr m"
  shows "pt_extra_flags (ms_proof m) \<noteq> pt_extra_flags table"
proof -
  define s where "s = canonical_json (pe_float_text e) (JObj wn)"
  define ps where "ps = sort_key fst (memb_sorts wn)"
  define d2 where "d2 = AList.update ''proof_purpose'' (JStr ''audit'') ps"
  have sort: "json_sort (JObj wn) = JObj ps"
    by (simp add: ps_def)
  have loads: "json_loads last_wins (pe_text_float e) (pe_limit e) s = Inr (JObj ps)"
    using loads_canonical [OF last_wins_distinct ok(1,2)] by (simp add: s_def ps_def)
  have strip: "py_strip s \<noteq> []"
    using canonical_object_starts [of "pe_float_text e" wn] strip_object by (auto simp: s_def)
  have ok_ps: "json_ok (JObj ps)" "nesting (JObj ps) \<le> pe_limit e"
    using sort_ok(1) [OF ok(1)] sort_nesting(1) [of "JObj wn" "pe_limit e"] ok(2) unfolding sort by simp_all
  have ok_d2: "json_ok (JObj d2)" "nesting (JObj d2) \<le> pe_limit e"
    using update_ok [of ps "JStr ''audit''" "''proof_purpose''"] ok_ps nesting_update [OF ok_ps(2), of "JStr ''audit''"] ok(3)
    by (simp_all add: d2_def)
  have "stamp_audit e d = AList.update ''model_config_diff'' (JObj d2) d"
    using mcd strip by (simp add: stamp_audit_def dget_def audit_diff_def loads d2_def flip: s_def)
  then have "extra_flags e (stamp_audit e d) n = Inr (JStr (canonical_json (pe_float_text e) (JObj d2)))"
      "dget (stamp_audit e d) ''version'' (JInt 2) = JInt n"
    using version by (simp_all add: extra_flags_def dget_def update_conv carrier_def d2_def)
  then have sent: "pt_extra_flags (ms_proof m) = canonical_json (pe_float_text e) (JObj d2)"
    using m by (auto simp: serialize_response_def table_of_def rbind_Inr_iff)
  have hashed: "pt_extra_flags table = s"
    using t version mcd by (auto simp: serialize_proof_def table_of_def rbind_Inr_iff proof_extra_def item_def carrier_def s_def)
  have "json_sort (JObj d2) \<noteq> JObj ps"
  proof
    assume "json_sort (JObj d2) = JObj ps"
    then have "map_of ps ''proof_purpose'' = map_option json_sort (map_of d2 ''proof_purpose'')"
      using ok_d2(1) map_of_sorted [of d2 "''proof_purpose''"] by simp
    moreover have "map_of ps ''proof_purpose'' = None"
      using ok(1,4) by (simp add: ps_def map_of_sorted)
    ultimately show False
      by (simp add: d2_def update_conv)
  qed
  moreover have "json_loads last_wins (pe_text_float e) (pe_limit e) (canonical_json (pe_float_text e) (JObj d2)) = Inr (json_sort (JObj d2))"
    by (rule loads_canonical [OF last_wins_distinct ok_d2])
  ultimately show ?thesis
    using loads unfolding hashed sent by auto
qed

text \<open>C11: with the audit proxy every v3 solution that carries a nonce is submitted with the hash of a proof
  that differs from the proof that is sent: the audit mark is put into the shared dictionary after
  the hash was taken.\<close>

theorem audit_proxy_breaks_submitted_hash:
  assumes "process_solution_python e now q row mn = (mn', None)" "wd_solutions (mn_world mn') = wd_solutions (mn_world mn) @ [r]"
    and "V3_VERSION \<le> pw_proof_version (mn_proofs mn)" "mn_proxy_audit mn"
    and "pow_admission_valid_host (rb_rows (sm_rb (mn_sampler mn)) ! row)"
    and "diff_base e (pw_model_config_diff (mn_proofs mn)) = JObj base" "distinct (map fst base)" "membs_ok base"
    and "map_of base ''proof_purpose'' = None" "nesting (JObj base) \<le> pe_limit e" "3 \<le> pe_limit e"
    and "serialize_response e (wd_store (mn_world mn') (rs_proof r)) r = Inr m"
  shows "\<exists>table. rs_hash r = sha256 (pe_encode e table) \<and> pt_extra_flags table \<noteq> pt_extra_flags (ms_proof m)"
proof -
  obtain f params pw d table where f: "finished_window q row mn = Inr (Some f)" and "fw_solution f" "\<not> job_audit_emit (fw_job f)"
    and w: "write_proof e q (fw_steps f) (fw_window f) (fw_digest f) (fw_solution f) params
       (seq_info (sm_window (mn_sampler mn)) (map_of (sm_caches (mn_sampler mn)) q) (fw_params f))
       (sp_completion_id (fw_params f)) (fw_nonce f) now (mn_proofs mn) = (pw, Inr d)"
    and table: "serialize_proof e d = Inr table" "rs_hash r = sha256 (pe_encode e table)"
    and store: "wd_store (mn_world mn') (rs_proof r) = (if mn_proxy_audit mn then stamp_audit e d else d)"
    using assms(1,2) by (rule submitted_solution)
  define cid own where "cid = sp_completion_id (fw_params f)"
    and "own = (if cid = [] then base else AList.update ''completion_id'' (JStr cid) base)"
  obtain nonce where nonce: "fw_nonce f = Some nonce"
    using f assms(5) by (rule finished_window_nonce)
  obtain d0 where pw: "pw = (mn_proofs mn)\<lparr>pw_model_config_diff := merge_completion e cid (pw_model_config_diff (mn_proofs mn))\<rparr>"
    and c: "v3_carrier e (Some nonce) pw d0 = Inr d"
    using w unfolding nonce cid_def by (rule write_proof_Inr)
  have "merge_completion e cid (pw_model_config_diff (mn_proofs mn)) = JObj own"
    using assms(6) by (simp add: merge_completion_def own_def)
  then have mcd: "map_of d ''model_config_diff'' =
      Some (JStr (canonical_json (pe_float_text e) (JObj (with_nonce (to_hex nonce) own))))"
    by (intro v3_flags [OF c]) (simp_all add: pw assms(3))
  have own: "distinct (map fst own)" "membs_ok own" "nesting (JObj own) \<le> pe_limit e" "map_of own ''proof_purpose'' = None"
    using update_ok [OF assms(7,8), of "JStr cid"] nesting_update [OF assms(10), of "JStr cid"] assms(7-11)
    by (simp_all add: own_def update_conv)
  have "pt_extra_flags (ms_proof m) \<noteq> pt_extra_flags table"
  proof (rule marked_flags_differ [OF mcd with_nonce_ok [OF own(1,2)] nesting_with_nonce [OF own(3) assms(11)]])
    show "map_of (with_nonce (to_hex nonce) own) ''proof_purpose'' = None"
      by (simp add: with_nonce_lookup own(4))
    show "serialize_response e (stamp_audit e d) r = Inr m"
      using assms(4,12) store by simp
  qed (use assms(3,11) in \<open>simp_all add: written_keys [OF w] table\<close>)
  with table(2) show ?thesis
    by metis
qed

section \<open>The two branches\<close>

lemma update_all_distinct: "distinct (map fst qs) \<Longrightarrow>
    map_of (update_all d qs) k = (case map_of qs k of None \<Rightarrow> map_of d k | Some v \<Rightarrow> Some v)"
proof (induction qs arbitrary: d)
  case (Cons p qs)
  then have "map_of qs (fst p) = None"
    by (simp add: map_of_eq_None_iff)
  moreover have "update_all d (p # qs) = update_all (AList.update (fst p) (snd p) d) qs"
    by (simp add: update_all_def split: prod.split)
  ultimately show ?case
    using Cons by (cases p) (simp add: update_conv split: option.split)
qed (simp add: update_all_def)

lemma info_distinct: "distinct (map fst (seq_info W c ps))"
  by (simp add: seq_info_def Let_def split: prod.split)

lemma item_Inr: "item d k = Inr v \<longleftrightarrow> map_of d k = Some v"
  by (simp add: item_def split: option.split)

lemma base_fields:
  assumes "proof_base q n ws dig sol params now pw = Inr base"
  shows "k \<in> {''tick'', ''target'', ''vdf'', ''block_hash'', ''header_prefix'', ''ipfs_cid''} \<Longrightarrow> map_of base k = map_of params k"
    "map_of base ''hash'' = Some (JStr (to_hex dig))" "map_of base ''is_solution'' = Some (JBool sol)"
    "map_of base ''steps'' = Some (JInt (int n))" "k \<in> fst ` set (window_fields ws) \<Longrightarrow> map_of base k = map_of (window_fields ws) k"
    "map_of base ''timestamp'' = Some (JFloat now)"
    "pw_model_identifier pw = Some m \<Longrightarrow> m \<noteq> [] \<Longrightarrow> map_of base ''model_identifier'' = Some (JStr m)"
    "pw_compute_precision pw = Some m \<Longrightarrow> m \<noteq> [] \<Longrightarrow> map_of base ''compute_precision'' = Some (JStr m)"
proof -
  obtain ipfs tick target bh vdf where params: "map_of params ''ipfs_cid'' = Some ipfs" "map_of params ''tick'' = Some tick"
      "map_of params ''target'' = Some target" "map_of params ''block_hash'' = Some bh" "map_of params ''vdf'' = Some vdf"
    and base: "[(''ipfs_cid'', ipfs), (''model_config_diff'', pw_model_config_diff pw),
           (''sampling_params_diff'', pw_sampling_params_diff pw), (''tick'', tick), (''target'', target),
           (''block_hash'', bh), (''vdf'', vdf), (''sequence_id'', JInt (int q)),
           (''steps'', JInt (int n))] @ window_fields ws @
          [(''hash'', JStr (to_hex dig)), (''is_solution'', JBool sol), (''timestamp'', JFloat now)] @
          (case pw_model_identifier pw of None \<Rightarrow> [] | Some m \<Rightarrow> if m = [] then [] else [(''model_identifier'', JStr m)]) @
          (case pw_compute_precision pw of None \<Rightarrow> [] | Some c \<Rightarrow> if c = [] then [] else [(''compute_precision'', JStr c)]) @
          (case map_of params ''header_prefix'' of None \<Rightarrow> [] | Some h \<Rightarrow> [(''header_prefix'', h)]) = base"
    using assms unfolding proof_base_def rbind_Inr_iff item_Inr sum.inject by blast
  show "k \<in> {''tick'', ''target'', ''vdf'', ''block_hash'', ''header_prefix'', ''ipfs_cid''} \<Longrightarrow> map_of base k = map_of params k"
    unfolding base [symmetric] by (elim insertE emptyE) (simp_all add: params window_fields_def map_add_def split: option.split)
  show "map_of base ''hash'' = Some (JStr (to_hex dig))" "map_of base ''is_solution'' = Some (JBool sol)"
    "map_of base ''steps'' = Some (JInt (int n))"
    unfolding base [symmetric] by (simp_all add: window_fields_def map_add_def split: option.split)
  show "k \<in> fst ` set (window_fields ws) \<Longrightarrow> map_of base k = map_of (window_fields ws) k"
    unfolding base [symmetric] window_fields_def list.set image_insert fst_conv
    by (elim insertE emptyE) (simp_all add: map_add_def split: option.split)
  show "map_of base ''timestamp'' = Some (JFloat now)"
    "pw_model_identifier pw = Some m \<Longrightarrow> m \<noteq> [] \<Longrightarrow> map_of base ''model_identifier'' = Some (JStr m)"
    "pw_compute_precision pw = Some m \<Longrightarrow> m \<noteq> [] \<Longrightarrow> map_of base ''compute_precision'' = Some (JStr m)"
    unfolding base [symmetric] by (simp_all add: window_fields_def map_add_def split: option.split)
qed

lemma written_lookup:
  assumes "write_proof e q n ws dig sol params (seq_info W c ps) cid nonce now pw = (pw', Inr d)"
  obtains base where "proof_base q n ws dig sol params now pw = Inr base"
    "\<forall>k. k \<noteq> ''version'' \<longrightarrow> k \<noteq> ''model_config_diff'' \<longrightarrow>
       map_of d k = (case map_of (seq_info W c ps) k of None \<Rightarrow> map_of base k | Some v \<Rightarrow> Some v)"
proof -
  obtain base where base: "proof_base q n ws dig sol params now pw = Inr base"
    and d: "v3_carrier e nonce pw' (AList.update ''version'' (JInt (pw_proof_version pw)) (update_all base (seq_info W c ps))) = Inr d"
    using assms by (rule write_proof_Inr)
  show thesis
    by (rule that [OF base]) (simp add: carrier_keys [OF d] update_conv update_all_distinct [OF info_distinct])
qed

lemma stamp_lookup: "k \<noteq> ''model_config_diff'' \<Longrightarrow> map_of (stamp_audit e d) k = map_of d k"
  by (simp add: stamp_audit_def update_conv)

definition job_fields :: "string set" where
  "job_fields = {''tick'', ''target'', ''vdf'', ''block_hash'', ''header_prefix'', ''ipfs_cid''}"

lemma window_keys: "fst ` set (window_fields ws) = {''chosen_tokens'', ''chosen_probs'', ''topk_logits'', ''topk_indices'',
    ''attention_mask'', ''sampling_u'', ''softmax_normalizers'', ''logsumexp_stats''}"
  by (simp add: window_fields_def)

lemma written_fields:
  assumes "write_proof e q n ws dig sol params (seq_info W c ps) cid nonce now pw = (pw', Inr d)"
    and same: "\<forall>k. k \<noteq> ''model_config_diff'' \<longrightarrow> map_of d' k = map_of d k"
  shows "k \<in> job_fields \<Longrightarrow> map_of d' k = map_of params k"
    "map_of d' ''hash'' = Some (JStr (to_hex dig))" "map_of d' ''is_solution'' = Some (JBool sol)"
    "map_of d' ''steps'' = Some (JInt (int n))" "k \<in> fst ` set (window_fields ws) \<Longrightarrow> map_of d' k = map_of (window_fields ws) k"
    "map_of d' ''prompt_tokens'' = Some (JArr (map JInt (let a = (case c of None \<Rightarrow> [] | Some c \<Rightarrow> archive_list c)
       in if W < length a then py_front W a else [])))"
proof -
  obtain base where base: "proof_base q n ws dig sol params now pw = Inr base"
    and look: "\<forall>k. k \<noteq> ''version'' \<longrightarrow> k \<noteq> ''model_config_diff'' \<longrightarrow>
       map_of d k = (case map_of (seq_info W c ps) k of None \<Rightarrow> map_of base k | Some v \<Rightarrow> Some v)"
    using assms(1) by (rule written_lookup)
  let ?info = "{''version'', ''model_config_diff'', ''prompt_tokens'', ''pad_mask'', ''temperature'', ''top_p'',
    ''top_k'', ''repetition_penalty'', ''completion_id'', ''request_item_id'', ''base_completion_id'', ''pow_snapshot''}"
  have plain: "map_of d' k = map_of base k" if "k \<notin> ?info" for k
  proof -
    have "k \<notin> fst ` set (seq_info W c ps)"
      using that info_keys by blast
    then have "map_of (seq_info W c ps) k = None"
      by (simp only: map_of_eq_None_iff not_False_eq_True)
    moreover have "k \<noteq> ''version''" "k \<noteq> ''model_config_diff''"
      using that by blast+
    ultimately show ?thesis
      by (simp only: same look simp_thms option.case)
  qed
  show "map_of d' k = map_of params k" if "k \<in> job_fields"
  proof -
    have "k \<notin> ?info"
      using that unfolding job_fields_def by (elim insertE emptyE) simp_all
    from plain [OF this] show ?thesis
      by (simp only: base_fields(1) [OF base that [unfolded job_fields_def]])
  qed
  show "map_of d' k = map_of (window_fields ws) k" if "k \<in> fst ` set (window_fields ws)"
  proof -
    have "k \<notin> ?info"
      using that unfolding window_keys by (elim insertE emptyE) simp_all
    from plain [OF this] show ?thesis
      by (simp only: base_fields(5) [OF base that])
  qed
  show "map_of d' ''hash'' = Some (JStr (to_hex dig))" "map_of d' ''is_solution'' = Some (JBool sol)"
    "map_of d' ''steps'' = Some (JInt (int n))"
    by (simp_all add: plain base_fields(2-4) [OF base])
  show "map_of d' ''prompt_tokens'' = Some (JArr (map JInt (let a = (case c of None \<Rightarrow> [] | Some c \<Rightarrow> archive_list c)
       in if W < length a then py_front W a else [])))"
    by (simp add: same look seq_info_def Let_def)
qed

lemma cpp_call_Inr:
  assumes "process_solution_cpp q row mn = Inr (Some c)" "finished_window q row mn = Inr (Some f)" "pow_params_of (fw_job f) = Inr params"
  shows "cc_digest c = fw_digest f" "cc_step_num c = fw_steps f" "cc_window c = fw_window f"
    "cc_archive c = (case map_of (sm_caches (mn_sampler mn)) q of None \<Rightarrow> [] | Some c \<Rightarrow> archive_list c)"
    "cc_is_solution c = (fw_solution f \<and> \<not> cc_audit_emit c)"
    "cc_params c = params @ [(''request_id'', JInt (ps_request_id (fw_job f))),
       (''difficulty'', or_null JInt (job_difficulty (fw_job f))), (''window_size'', JInt (int (sm_window (mn_sampler mn))))]"
  using assms by (auto simp: process_solution_cpp_def Let_def split: if_splits)

text \<open>What the processor is given is what the dictionary says.\<close>

definition same_proof :: "nat \<Rightarrow> cpp_call \<Rightarrow> dict \<Rightarrow> bool" where
  "same_proof W c d \<longleftrightarrow>
     (\<forall>k \<in> job_fields. map_of d k = map_of (cc_params c) k) \<and>
     map_of d ''hash'' = Some (JStr (to_hex (cc_digest c))) \<and>
     map_of d ''steps'' = Some (JInt (int (cc_step_num c))) \<and>
     (\<forall>k \<in> fst ` set (window_fields (cc_window c)). map_of d k = map_of (window_fields (cc_window c)) k) \<and>
     map_of d ''prompt_tokens'' = Some (JArr (map JInt (if W < length (cc_archive c) then py_front W (cc_archive c) else []))) \<and>
     (\<exists>sol. map_of d ''is_solution'' = Some (JBool sol) \<and> cc_is_solution c = (sol \<and> \<not> cc_audit_emit c))"

lemma job_field_params:
  assumes "k \<in> job_fields"
  shows "map_of (params @ [(''request_id'', a), (''difficulty'', b), (''window_size'', w)]) k = map_of params k"
  using assms unfolding job_fields_def by (elim insertE emptyE) (simp_all add: map_add_def split: option.split)

lemma branches_same_proof:
  assumes "process_solution_cpp q row mn = Inr (Some c)" "finished_window q row mn = Inr (Some f)" "pow_params_of (fw_job f) = Inr params"
    and "write_proof e q (fw_steps f) (fw_window f) (fw_digest f) (fw_solution f) params
       (seq_info (sm_window (mn_sampler mn)) (map_of (sm_caches (mn_sampler mn)) q) (fw_params f)) cid nonce now pw = (pw', Inr d)"
    and "\<forall>k. k \<noteq> ''model_config_diff'' \<longrightarrow> map_of d' k = map_of d k"
  shows "same_proof (sm_window (mn_sampler mn)) c d'"
proof -
  note c = cpp_call_Inr [OF assms(1-3)]
  note d' = written_fields [OF assms(4,5)]
  show ?thesis
    unfolding same_proof_def
  proof (intro conjI ballI exI)
    show "map_of d' k = map_of (cc_params c) k" if "k \<in> job_fields" for k
      by (simp only: d'(1) [OF that] c(6) job_field_params [OF that])
    show "map_of d' k = map_of (window_fields (cc_window c)) k" if "k \<in> fst ` set (window_fields (cc_window c))" for k
      using that unfolding c(3) by (rule d'(5))
    show "map_of d' ''prompt_tokens'' = Some (JArr (map JInt (if sm_window (mn_sampler mn) < length (cc_archive c)
        then py_front (sm_window (mn_sampler mn)) (cc_archive c) else [])))"
      by (simp only: d'(6) c(4) Let_def)
    show "map_of d' ''is_solution'' = Some (JBool (fw_solution f))"
      by (rule d'(3))
  qed (simp_all only: d'(2,4) c(1,2,5))
qed


section \<open>Configuration\<close>

text \<open>A process that starts runs the C++ processor exactly when it was asked for and can be imported;
  asked for but missing, the process does not start unless the fallback was permitted.  In broker
  mode the writer only starts when no proof is sent to the audit proxy.\<close>

theorem processor_never_degrades_silently:
  "(helper_init env override importable = Inl ImportError \<longleftrightarrow>
      env ''POW_PROCESSOR_MODE'' = Some ''cpp'' \<and> \<not> importable \<and> \<not> truthy (env_str env ''POW_PROCESSOR_FALLBACK'' ''0'')) \<and>
   (\<forall>proxy_audit cpp. helper_init env override importable = Inr (proxy_audit, cpp) \<longrightarrow>
      (cpp \<longleftrightarrow> env ''POW_PROCESSOR_MODE'' = Some ''cpp'' \<and> importable) \<and>
      (override = None \<and> egress_mode env = Inr Broker \<and> (\<exists>w. writer_init env n = Inr w) \<longrightarrow> \<not> proxy_audit))"
proof -
  have mode: "env_str env ''POW_PROCESSOR_MODE'' ''python'' = ''cpp'' \<longleftrightarrow> env ''POW_PROCESSOR_MODE'' = Some ''cpp''"
    by (simp add: env_str_def split: option.split)
  have broker: "\<not> truthy (env_str env ''POW_PROXY_ENABLE'' ''0'')" if "egress_mode env = Inr Broker" "writer_init env n = Inr w" for w
    using that by (auto simp: writer_init_def rbind_Inr_iff proxy_config_def Let_def split: if_splits)
  show ?thesis
    using broker by (auto simp: helper_init_def Let_def mode split: option.splits)
qed

theorem processor_never_degrades_silently_witness:
  "helper_init [''POW_PROCESSOR_MODE'' \<mapsto> ''cpp''] None False = Inl ImportError"
proof -
  have "\<not> truthy ''0''"
    by (simp add: truthy_def)
  then show ?thesis
    using processor_never_degrades_silently [of "[''POW_PROCESSOR_MODE'' \<mapsto> ''cpp'']" None False] by (simp add: env_str_def)
qed

section \<open>A finished window\<close>

lemma to_hex_no_space: "c \<in> set (to_hex bs) \<Longrightarrow> \<not> py_space c"
proof -
  have "\<not> py_space (hexdig n)" if "n < 16" for n
    by (rule digits_all [OF _ that]) (simp add: hexdig_def py_space_def codes upt_rec)
  moreover have "unat b div 16 < 16" "unat b mod 16 < 16" for b :: byte
    using unat_byte_less [of b] by (simp_all add: less_mult_imp_div_less)
  ultimately show "c \<in> set (to_hex bs) \<Longrightarrow> ?thesis"
    by (induction bs) auto
qed

lemma strip_no_space:
  assumes "\<And>c. c \<in> set s \<Longrightarrow> \<not> py_space c"
  shows "py_strip s = s"
proof -
  have d: "dropWhile py_space t = t" if "set t = set s" for t
    using that assms by (cases t) auto
  show ?thesis
    by (simp add: py_strip_def d)
qed

lemma to_bytes_hex: "to_bytes e (JStr (to_hex bs)) = Inr bs"
proof -
  have "py_strip (to_hex bs) = to_hex bs"
    by (rule strip_no_space) (rule to_hex_no_space)
  moreover have "to_hex bs = [] \<Longrightarrow> bs = []"
    by (cases bs) simp_all
  ultimately show ?thesis
    by (auto simp: fromhex_to_hex Let_def)
qed

lemma hex_bytes_hex: "hex_bytes (JStr (to_hex bs)) = Inr bs"
  by (simp add: fromhex_to_hex)

lemma mapr_total: "(\<And>x. x \<in> set xs \<Longrightarrow> f (g x) = Inr (h x)) \<Longrightarrow> mapr f (map g xs) = Inr (map h xs)"
  by (induction xs) simp_all

lemma make_vec_total: "(\<And>x. f (g x) = Inr (h x)) \<Longrightarrow> make_vec f (JArr (map g xs)) = Inr (map h xs)"
  using mapr_total [of "rev xs" f g h] by (simp add: make_vec_def rev_map)

text \<open>
  A sequence at row 0 of a sampler with windows of one token, its job with the easiest target, and the
  proof its finished window leads to.  The digest is left as it is.
\<close>

definition demo_target :: "byte list" where
  "demo_target = replicate 32 255"

definition demo_window_job :: "bool \<Rightarrow> job" where
  "demo_window_job audit = pow_snapshot.extend
     \<lparr>ps_tick = Some 7, ps_request_id = 1, ps_header_prefix = ''0a0b'', ps_vdf = ''ff'',
      ps_block_hash = ''00'', ps_target = to_hex demo_target, ps_share_target = []\<rparr>
     \<lparr>job_difficulty = Some 5, job_ipfs_cid = None, job_audit_emit = audit\<rparr>"

definition demo_window_params :: "bool \<Rightarrow> seq_params" where
  "demo_window_params audit = \<lparr>sp_temperature = Some (Fin 1 0), sp_top_p = Some (Fin 1 0), sp_top_k = Some 50,
     sp_repetition_penalty = Some (Fin 1 0), sp_completion_id = ''x'', sp_request_item_id = ''y'',
     sp_base_completion_id = ''x'', sp_snapshot = Some (demo_window_job audit)\<rparr>"

definition demo_miner :: "bool \<Rightarrow> bool \<Rightarrow> int \<Rightarrow> miner" where
  "demo_miner proxy audit version = \<lparr>
     mn_sampler = (sampler_init 1 4 99 True 0)\<lparr>sm_params := [(7, demo_window_params audit)],
       sm_rb := fst (write_admission_nonce 0 (Some (replicate 32 7)) (rb_init 1 4 True))\<rparr>,
     mn_hasher = hasher_init,
     mn_proofs = set_proof_version version (set_compute_precision (Some ''fp16'') (set_model_identifier (Some ''m'') proof_writer_init)),
     mn_world = demo_egress, mn_next = 0, mn_proxy_audit = proxy\<rparr>"

lemma demo_hex: "hex_to_bytes_tensor ''0a0b'' = Inr [10, 11]" "hex_to_bytes_tensor ''ff'' = Inr [255]"
  "hex_to_bytes_tensor ''00'' = Inr [0]" "hex_to_bytes_tensor (to_hex demo_target) = Inr demo_target"
proof -
  have "length (to_hex demo_target) = 64"
    by (simp add: demo_target_def)
  then have "to_hex demo_target \<noteq> []"
    by (metis list.size(3) zero_neq_numeral)
  then show "hex_to_bytes_tensor (to_hex demo_target) = Inr demo_target"
    by (simp add: hex_to_bytes_tensor_def unhexlify_to_hex)
qed (code_simp+)

lemma demo_header: "final_header (demo_window_job audit) = Inr [10, 11]" "target_bytes (demo_window_job audit) = demo_target"
  by (simp_all add: final_header_def target_bytes_def demo_window_job_def pow_snapshot.extend_def demo_hex)

lemma demo_window_finished:
  obtains f where "finished_window 7 0 (demo_miner proxy audit version) = Inr (Some f)" "fw_solution f" "\<not> fw_share f"
    "fw_window f = [blank_slot]" "fw_params f = demo_window_params audit" "fw_job f = demo_window_job audit"
    "fw_nonce f = Some (replicate 32 7)" "final_header (fw_job f) = Inr [10, 11]" "target_bytes (fw_job f) = demo_target" "fw_steps f = 0"
proof -
  let ?mn = "demo_miner proxy audit version" and ?j = "demo_window_job audit"
  let ?w = "rb_rows (sm_rb (mn_sampler ?mn)) ! 0"
  have row: "get_window (sm_rb (mn_sampler ?mn)) 0 = Inr [blank_slot]" "steps ?w = 0" "pow_admission_valid_host ?w"
      "pow_admission_nonce ?w = replicate 32 7"
    by (simp_all add: demo_miner_def get_window_def write_admission_nonce_def rb_init_def on_row_def in_range_def act_pure_def
        blank_row_def eval_nat_numeral)
  have j: "ps_tick ?j = Some 7" "ps_header_prefix ?j = ''0a0b''" "ps_vdf ?j = ''ff''" "ps_block_hash ?j = ''00''"
      "ps_target ?j = to_hex demo_target" "ps_share_target ?j = []"
    by (simp_all add: demo_window_job_def pow_snapshot.extend_def)
  note header = demo_header [of audit]
  obtain dig where dig: "final_digest ?j ?w 1 [blank_slot] (Some ''fp16'') = Inr dig"
    by (simp add: final_digest_def header(1) j demo_hex key_def tick_bytes_def)
  have snap: "snapshot_header (pow_snapshot.truncate ?j) = Inr [10, 11]" "ps_target (pow_snapshot.truncate ?j) = to_hex demo_target"
    using final_header_snapshot [OF header(1)] by (simp_all add: pow_snapshot.truncate_def j)
  obtain sol where sol: "check_solution hasher_init [dig] (Some (pow_snapshot.truncate ?j)) = Inr sol"
      "against_target (header_hashes [10, 11] [dig]) demo_target = Inr sol"
    by (simp add: check_solution_def pow_snapshot.truncate_def j demo_hex against_target_def) (simp add: demo_target_def)
  have "from_be demo_target = 2 ^ 256 - 1"
    by code_simp
  then have "sol = [True]"
    using against_target_order [OF sol(2)] from_le_less [OF length_sha256, of "sha256 ([10, 11] @ take 4 dig)"]
    by (simp add: demo_target_def)
  moreover have "check_share_solution hasher_init [dig] (Some (pow_snapshot.truncate ?j)) = Inr [False]"
    by (simp add: check_share_solution_def snap) (simp add: pow_snapshot.truncate_def j hasher_init_def)
  moreover have "map_of (sm_params (mn_sampler ?mn)) 7 = Some (demo_window_params audit)" "sm_window (mn_sampler ?mn) = 1"
      "pw_compute_precision (mn_proofs ?mn) = Some ''fp16''" "mn_hasher ?mn = hasher_init"
      "sp_snapshot (demo_window_params audit) = Some ?j"
    by (simp_all add: demo_miner_def sampler_init_def set_proof_version_def set_compute_precision_def demo_window_params_def)
  ultimately have "finished_window 7 0 ?mn = Inr (Some \<lparr>fw_steps = 0, fw_window = [blank_slot], fw_params = demo_window_params audit,
      fw_job = ?j, fw_digest = dig, fw_solution = True, fw_share = False, fw_nonce = Some (replicate 32 7)\<rparr>)"
    using row dig sol(1) by (simp add: finished_window_def Let_def)
  then show thesis
    by (rule that) (simp_all add: header)
qed

lemma demo_vectors: "make_vec (pe_float32 demo_env) (JArr (map JFloat xs)) = Inr (map (\<lambda>_. Fin 1 0) xs)"
  "make_vec uint32_of (JArr (map JInt ns)) = Inr (map word_of_int ns)" "make_vec f (JArr []) = Inr []"
  "make_vec (pe_float32 demo_env) (JArr [JFloat x]) = Inr [Fin 1 0]" "make_vec uint32_of (JArr [JInt n]) = Inr [word_of_int n]"
  "pe_float demo_env v = Inr (Fin 1 0)" "uint32_of (JInt n) = Inr (word_of_int n)" "uint64_of (JInt n) = Inr (word_of_int n)"
  "uint64_of (JFloat (Fin 0 0)) = Inr 0"
proof -
  show "make_vec (pe_float32 demo_env) (JArr (map JFloat xs)) = Inr (map (\<lambda>_. Fin 1 0) xs)"
    by (rule make_vec_total) (simp add: demo_env_def)
  show "make_vec uint32_of (JArr (map JInt ns)) = Inr (map word_of_int ns)"
    by (rule make_vec_total) (simp add: uint32_of_def)
qed (simp_all add: demo_env_def uint32_of_def uint64_of_def make_vec_def trunc_dyadic_def)

definition demo_pow_params :: dict where
  "demo_pow_params = [(''tick'', JInt 7), (''target'', JStr (to_hex demo_target)), (''vdf'', JStr (to_hex [255])),
     (''block_hash'', JStr (to_hex [0])), (''header_prefix'', JStr (to_hex [10, 11])), (''ipfs_cid'', JStr [])]"

lemma demo_params: "pow_params_of (demo_window_job audit) = Inr demo_pow_params"
  using demo_header(1) [of audit]
  by (simp add: pow_params_of_def demo_window_job_def pow_snapshot.extend_def demo_hex key_def demo_pow_params_def
      del: to_hex.simps)

definition demo_info :: "bool \<Rightarrow> dict" where
  "demo_info audit = seq_info 1 None (demo_window_params audit)"

definition demo_flags :: dict where
  "demo_flags = with_nonce (to_hex (replicate 32 7)) [(''completion_id'', JStr ''x'')]"

lemma demo_written:
  obtains pw d where "write_proof demo_env 7 0 [blank_slot] dig True demo_pow_params (demo_info audit) ''x'' (Some (replicate 32 7)) (Fin 0 0)
      (mn_proofs (demo_miner proxy audit 3)) = (pw, Inr d)"
    "map_of d ''model_config_diff'' = Some (JStr (canonical_json (\<lambda>x. []) (JObj demo_flags)))"
proof -
  let ?pw = "mn_proofs (demo_miner proxy audit 3)"
  let ?pw' = "?pw\<lparr>pw_model_config_diff := JObj [(''completion_id'', JStr ''x'')]\<rparr>"
  have pw: "pw_model_config_diff ?pw = JNull" "pw_proof_version ?pw = 3"
    by (simp_all add: demo_miner_def set_proof_version_def set_compute_precision_def set_model_identifier_def proof_writer_init_def)
  have stamp: "check_stamp demo_pow_params ?pw = Inr ()"
    by (simp add: check_stamp_def demo_pow_params_def dget_def)
  obtain base where base: "proof_base 7 0 [blank_slot] dig True demo_pow_params (Fin 0 0) ?pw = Inr base"
    by (simp add: proof_base_def demo_pow_params_def item_def)
  have valid: "is_valid_admission_nonce_hex (to_hex (replicate 32 7))"
    unfolding valid_nonce_hex_iff by (intro exI [of _ "replicate 32 7"]) simp
  have merged: "merge_completion demo_env ''x'' JNull = JObj [(''completion_id'', JStr ''x'')]"
    by (simp add: merge_completion_def diff_base_def)
  have "v3_carrier demo_env (Some (replicate 32 7)) ?pw' d0 =
      Inr (AList.update ''model_config_diff'' (JStr (canonical_json (\<lambda>x. []) (JObj demo_flags))) d0)" for d0
    using valid by (simp add: v3_carrier_def pw V3_VERSION_def flags_of_def merge_extra_flags_v3_def base_of_def demo_flags_def demo_env_def)
  then show thesis
    using that stamp base merged by (simp add: write_proof_def Let_def pw update_conv)
qed

lemma demo_serialises:
  assumes "write_proof demo_env 7 0 [blank_slot] dig True demo_pow_params (demo_info audit) ''x'' (Some (replicate 32 7)) (Fin 0 0)
      (mn_proofs (demo_miner proxy audit 3)) = (pw, Inr d)"
    and d: "map_of d ''model_config_diff'' = Some (JStr s)"
    and d': "\<forall>k. k \<noteq> ''model_config_diff'' \<longrightarrow> map_of d' k = map_of d k" "map_of d' ''model_config_diff'' = Some mcd"
  shows "(\<exists>t. serialize_proof demo_env d = Inr t) \<and> (\<exists>m. serialize_response demo_env d' r = Inr m)"
proof -
  obtain base where base: "proof_base 7 0 [blank_slot] dig True demo_pow_params (Fin 0 0) (mn_proofs (demo_miner proxy audit 3)) = Inr base"
    and look: "\<forall>k. k \<noteq> ''version'' \<longrightarrow> k \<noteq> ''model_config_diff'' \<longrightarrow>
       map_of d k = (case map_of (demo_info audit) k of None \<Rightarrow> map_of base k | Some v \<Rightarrow> Some v)"
    using assms(1) unfolding demo_info_def by (rule written_lookup)
  note keys = written_keys [OF assms(1) [unfolded demo_info_def]]
  have v: "pw_proof_version (mn_proofs (demo_miner proxy audit 3)) = 3"
    by (simp add: demo_miner_def set_proof_version_def)
  have version: "map_of d ''version'' = Some (JInt 3)"
    using keys(1) unfolding v by (auto simp: dget_def split: option.splits)
  note fields = written_fields [OF assms(1) [unfolded demo_info_def], of d]
  have job: "map_of d ''tick'' = Some (JInt 7)" "map_of d ''target'' = Some (JStr (to_hex demo_target))"
      "map_of d ''vdf'' = Some (JStr (to_hex [255]))" "map_of d ''block_hash'' = Some (JStr (to_hex [0]))"
      "map_of d ''header_prefix'' = Some (JStr (to_hex [10, 11]))" "map_of d ''ipfs_cid'' = Some (JStr [])"
      "map_of d ''hash'' = Some (JStr (to_hex dig))" "map_of d ''is_solution'' = Some (JBool True)"
    using fields(1-3) by (simp_all add: job_fields_def demo_pow_params_def)
  have win: "map_of d ''chosen_tokens'' = Some (JArr [JInt (chosen_token blank_slot)])"
      "map_of d ''chosen_probs'' = Some (JArr [JFloat (chosen_prob blank_slot)])"
      "map_of d ''sampling_u'' = Some (JArr [JFloat (sampling_u blank_slot)])"
      "map_of d ''softmax_normalizers'' = Some (JArr [JFloat (softmax_normalizer blank_slot)])"
      "map_of d ''topk_logits'' = Some (JArr [JArr (map JFloat (topk_logits blank_slot))])"
      "map_of d ''topk_indices'' = Some (JArr [JArr (map JInt (topk_indices blank_slot))])"
      "map_of d ''logsumexp_stats'' = Some (JArr [JArr (map JFloat (logsumexp_stats blank_slot))])"
    using fields(5) by (simp_all add: window_keys window_fields_def)
  have pw: "pw_model_identifier (mn_proofs (demo_miner proxy audit 3)) = Some ''m''"
      "pw_compute_precision (mn_proofs (demo_miner proxy audit 3)) = Some ''fp16''"
    by (simp_all add: demo_miner_def set_proof_version_def set_compute_precision_def set_model_identifier_def)
  have rest: "map_of d ''model_identifier'' = Some (JStr ''m'')" "map_of d ''compute_precision'' = Some (JStr ''fp16'')"
      "map_of d ''timestamp'' = Some (JFloat (Fin 0 0))" "map_of d ''temperature'' = Some (JFloat (Fin 1 0))"
      "map_of d ''top_p'' = Some (JFloat (Fin 1 0))" "map_of d ''top_k'' = Some (JInt 50)"
      "map_of d ''repetition_penalty'' = Some (JFloat (Fin 1 0))" "map_of d ''prompt_tokens'' = Some (JArr [])"
      "map_of d ''pad_mask'' = Some (JArr [])" "map_of d ''completion_id'' = Some (JStr ''x'')"
    by (simp_all add: look demo_info_def seq_info_def demo_window_params_def or_null_def base_fields [OF base] pw)
  note all = job win rest version keys(2)
  have all': "map_of d' k = map_of d k" if "k \<noteq> ''model_config_diff''" for k
    using d'(1) that by blast
  have "\<exists>t. serialize_proof demo_env d = Inr t"
    unfolding serialize_proof_def table_of_def item_def dget_def
    by (simp add: all d proof_extra_def item_def V3_VERSION_def carrier_def to_bytes_hex demo_vectors del: to_bytes.simps to_hex.simps)
  moreover have "\<exists>m. serialize_response demo_env d' r = Inr m"
    unfolding serialize_response_def table_of_def item_def dget_def
    by (simp add: all all' d'(2) extra_flags_def dget_def V3_VERSION_def carrier_def hex_bytes_hex demo_vectors completion_id_of_def
        del: hex_bytes.simps to_hex.simps split: json.split)
  ultimately show ?thesis
    by blast
qed

lemma demo_info_eq: "seq_info (Suc 0) None (demo_window_params audit) = demo_info audit"
  by (simp add: demo_info_def)

lemma demo_no_solutions: "wd_solutions (mn_world (demo_miner proxy audit version)) = []"
  by (simp add: demo_miner_def demo_egress_def)

lemma demo_runs: "\<exists>mn'. process_solution_python demo_env (Fin 0 0) 7 0 (demo_miner proxy audit 3) = (mn', None)"
proof -
  obtain f where f: "finished_window 7 0 (demo_miner proxy audit 3) = Inr (Some f)" "fw_solution f" "\<not> fw_share f"
    "fw_window f = [blank_slot]" "fw_params f = demo_window_params audit" "fw_job f = demo_window_job audit"
    "fw_nonce f = Some (replicate 32 7)" "final_header (fw_job f) = Inr [10, 11]" "target_bytes (fw_job f) = demo_target" "fw_steps f = 0"
    by (rule demo_window_finished)
  obtain pw d where w: "write_proof demo_env 7 0 [blank_slot] (fw_digest f) True demo_pow_params (demo_info audit) ''x''
      (Some (replicate 32 7)) (Fin 0 0) (mn_proofs (demo_miner proxy audit 3)) = (pw, Inr d)"
    and mcd: "map_of d ''model_config_diff'' = Some (JStr (canonical_json (\<lambda>x. []) (JObj demo_flags)))"
    by (rule demo_written)
  obtain t where t: "serialize_proof demo_env d = Inr t"
    using demo_serialises [OF w mcd _ mcd] by blast
  have "sm_window (mn_sampler (demo_miner proxy audit 3)) = 1" "sm_caches (mn_sampler (demo_miner proxy audit 3)) = []"
      "sp_completion_id (demo_window_params audit) = ''x''"
    by (simp_all add: demo_miner_def sampler_init_def demo_window_params_def)
  then show ?thesis
    using f w t by (simp add: process_solution_python_def emits_def demo_params Let_def demo_info_eq)
qed

lemma demo_submits:
  obtains mn' r m where "process_solution_python demo_env (Fin 0 0) 7 0 (demo_miner proxy False 3) = (mn', None)"
    "wd_solutions (mn_world mn') = wd_solutions (mn_world (demo_miner proxy False 3)) @ [r]"
    "serialize_response demo_env (wd_store (mn_world mn') (rs_proof r)) r = Inr m"
proof -
  let ?mn = "demo_miner proxy False 3"
  obtain mn' where run: "process_solution_python demo_env (Fin 0 0) 7 0 ?mn = (mn', None)"
    using demo_runs by blast
  obtain f where f: "finished_window 7 0 ?mn = Inr (Some f)" "fw_solution f" "\<not> fw_share f"
    "fw_window f = [blank_slot]" "fw_params f = demo_window_params False" "fw_job f = demo_window_job False"
    "fw_nonce f = Some (replicate 32 7)" "final_header (fw_job f) = Inr [10, 11]" "target_bytes (fw_job f) = demo_target" "fw_steps f = 0"
    by (rule demo_window_finished)
  have "emits f (mn_proxy_audit ?mn)"
    using f by (simp add: emits_def)
  with run f(1) obtain params pw d table where params: "pow_params_of (fw_job f) = Inr params"
    and w: "write_proof demo_env 7 (fw_steps f) (fw_window f) (fw_digest f) (fw_solution f) params
       (seq_info (sm_window (mn_sampler ?mn)) (map_of (sm_caches (mn_sampler ?mn)) 7) (fw_params f))
       (sp_completion_id (fw_params f)) (fw_nonce f) (Fin 0 0) (mn_proofs ?mn) = (pw, Inr d)"
    and "serialize_proof demo_env d = Inr table"
    and mn': "mn' = ?mn\<lparr>mn_proofs := pw, mn_next := mn_next ?mn + 1,
       mn_world := submit_written demo_env f (mn_proxy_audit ?mn) (pe_encode demo_env table)
         (get_compact_bytes (target_bytes (fw_job f)) False) (mn_next ?mn)
         ((mn_world ?mn)\<lparr>wd_store := (wd_store (mn_world ?mn))(mn_next ?mn := d)\<rparr>)\<rparr>"
    by (rule python_emits)
  have "\<not> job_audit_emit (fw_job f)"
    by (simp add: f demo_window_job_def pow_snapshot.extend_def)
  then obtain r where r: "wd_solutions (mn_world mn') = wd_solutions (mn_world ?mn) @ [r]" "rs_proof r = mn_next ?mn"
    by (simp add: mn' submit_written_solutions f)
  have "sm_window (mn_sampler ?mn) = 1" "sm_caches (mn_sampler ?mn) = []" "sp_completion_id (demo_window_params False) = ''x''"
    by (simp_all add: demo_miner_def sampler_init_def demo_window_params_def)
  then have w': "write_proof demo_env 7 0 [blank_slot] (fw_digest f) True demo_pow_params (demo_info False) ''x''
      (Some (replicate 32 7)) (Fin 0 0) (mn_proofs ?mn) = (pw, Inr d)"
    using w f params by (simp add: demo_params demo_info_eq)
  then obtain s where mcd: "map_of d ''model_config_diff'' = Some (JStr s)"
    using demo_written [of "fw_digest f" False proxy] by (metis Pair_inject sum.inject(2))
  let ?d = "wd_store (mn_world mn') (rs_proof r)"
  have "?d = (if proxy then stamp_audit demo_env d else d)"
    by (simp add: mn' r(2) submit_written_store f demo_window_job_def pow_snapshot.extend_def) (simp add: demo_miner_def)
  then have same: "\<forall>k. k \<noteq> ''model_config_diff'' \<longrightarrow> map_of ?d k = map_of d k"
    and "\<exists>v. map_of ?d ''model_config_diff'' = Some v"
    by (simp_all add: stamp_lookup mcd) (simp_all add: stamp_audit_def update_conv)
  then obtain m where "serialize_response demo_env ?d r = Inr m"
    using demo_serialises [OF w' mcd same] by blast
  with run r(1) show thesis
    by (rule that)
qed

theorem submitted_hash_is_of_sent_proof_witness:
  "\<exists>mn' r m. process_solution_python demo_env (Fin 0 0) 7 0 (demo_miner False False 3) = (mn', None) \<and>
     wd_solutions (mn_world mn') = [r] \<and> serialize_response demo_env (wd_store (mn_world mn') (rs_proof r)) r = Inr m \<and>
     rs_hash r = sha256 (pe_encode demo_env (ms_proof m))"
proof -
  obtain mn' r m where run: "process_solution_python demo_env (Fin 0 0) 7 0 (demo_miner False False 3) = (mn', None)"
    "wd_solutions (mn_world mn') = wd_solutions (mn_world (demo_miner False False 3)) @ [r]"
    "serialize_response demo_env (wd_store (mn_world mn') (rs_proof r)) r = Inr m"
    by (rule demo_submits)
  have "V3_VERSION \<le> pw_proof_version (mn_proofs (demo_miner False False 3))" "\<not> mn_proxy_audit (demo_miner False False 3)"
    by (simp_all add: demo_miner_def set_proof_version_def V3_VERSION_def)
  from submitted_hash_is_of_sent_proof [OF run(1,2) this run(3)] show ?thesis
    using run unfolding demo_no_solutions append_Nil by blast
qed

theorem audit_proxy_breaks_submitted_hash_witness:
  "\<exists>mn' r m table. process_solution_python demo_env (Fin 0 0) 7 0 (demo_miner True False 3) = (mn', None) \<and>
     wd_solutions (mn_world mn') = [r] \<and> serialize_response demo_env (wd_store (mn_world mn') (rs_proof r)) r = Inr m \<and>
     rs_hash r = sha256 (pe_encode demo_env table) \<and> pt_extra_flags table \<noteq> pt_extra_flags (ms_proof m)"
proof -
  let ?mn = "demo_miner True False 3"
  obtain mn' r m where run: "process_solution_python demo_env (Fin 0 0) 7 0 ?mn = (mn', None)"
    "wd_solutions (mn_world mn') = wd_solutions (mn_world ?mn) @ [r]"
    "serialize_response demo_env (wd_store (mn_world mn') (rs_proof r)) r = Inr m"
    by (rule demo_submits)
  have "V3_VERSION \<le> pw_proof_version (mn_proofs ?mn)" "mn_proxy_audit ?mn"
      "pow_admission_valid_host (rb_rows (sm_rb (mn_sampler ?mn)) ! 0)"
      "diff_base demo_env (pw_model_config_diff (mn_proofs ?mn)) = JObj []"
    by (simp_all add: demo_miner_def set_proof_version_def V3_VERSION_def write_admission_nonce_def rb_init_def on_row_def in_range_def
        act_pure_def eval_nat_numeral diff_base_def set_compute_precision_def set_model_identifier_def proof_writer_init_def)
  moreover have "pe_limit demo_env = 9"
    by (simp add: demo_env_def)
  ultimately have "\<exists>table. rs_hash r = sha256 (pe_encode demo_env table) \<and> pt_extra_flags table \<noteq> pt_extra_flags (ms_proof m)"
    by (intro audit_proxy_breaks_submitted_hash [OF run(1,2) _ _ _ _ _ _ _ _ _ run(3), of "[]"]) simp_all
  with run show ?thesis
    unfolding demo_no_solutions append_Nil by blast
qed

theorem window_is_submitted_iff_it_meets_the_target_witness:
  "\<exists>mn' f blob_hash. process_solution_python demo_env (Fin 0 0) 7 0 (demo_miner False False 3) = (mn', None) \<and>
     finished_window 7 0 (demo_miner False False 3) = Inr (Some f) \<and>
     wd_solutions (mn_world mn') = [\<lparr>rs_req_id = 1, rs_nonce = from_le (take 4 (fw_digest f)),
       rs_adjusted_bits = get_compact_bytes demo_target False, rs_hash = blob_hash, rs_difficulty = 5, rs_proof = 0, rs_proxy_only = False\<rparr>]"
proof -
  let ?mn = "demo_miner False False 3"
  obtain mn' where run: "process_solution_python demo_env (Fin 0 0) 7 0 ?mn = (mn', None)"
    using demo_runs by blast
  obtain f where f: "finished_window 7 0 ?mn = Inr (Some f)" "fw_solution f" "\<not> fw_share f"
    "fw_window f = [blank_slot]" "fw_params f = demo_window_params False" "fw_job f = demo_window_job False"
    "fw_nonce f = Some (replicate 32 7)" "final_header (fw_job f) = Inr [10, 11]" "target_bytes (fw_job f) = demo_target" "fw_steps f = 0"
    by (rule demo_window_finished)
  have "length (target_bytes (fw_job f)) = 32"
    unfolding f(9) by (simp add: demo_target_def)
  moreover have "\<not> job_audit_emit (fw_job f)" "ps_request_id (fw_job f) = 1"
      "job_difficulty (fw_job f) = Some 5" "mn_next ?mn = 0"
    by (simp_all add: f(6) demo_window_job_def pow_snapshot.extend_def demo_miner_def)
  moreover from calculation(1) finished_solution [OF f(1,8)]
  have "from_le (sha256 (sha256 ([10, 11] @ take 4 (fw_digest f)))) \<le> from_be (target_bytes (fw_job f))"
    using f(2) by blast
  ultimately show ?thesis
    using window_is_submitted_iff_it_meets_the_target [OF run f(1,8)] run f(1) unfolding demo_no_solutions append_Nil f(9)
    by auto
qed

text \<open>The flag of a proof of the Python branch, also of an audit-only one.\<close>

lemma python_flag:
  assumes "process_solution_python e now q row mn = (mn', None)" "finished_window q row mn = Inr (Some f)"
    "emits f (mn_proxy_audit mn)"
  shows "map_of (wd_store (mn_world mn') (mn_next mn)) ''is_solution'' = Some (JBool (fw_solution f))"
proof -
  obtain params pw d table where "pow_params_of (fw_job f) = Inr params"
    and w: "write_proof e q (fw_steps f) (fw_window f) (fw_digest f) (fw_solution f) params
       (seq_info (sm_window (mn_sampler mn)) (map_of (sm_caches (mn_sampler mn)) q) (fw_params f))
       (sp_completion_id (fw_params f)) (fw_nonce f) now (mn_proofs mn) = (pw, Inr d)"
    and "serialize_proof e d = Inr table"
    and mn': "mn' = mn\<lparr>mn_proofs := pw, mn_next := mn_next mn + 1,
       mn_world := submit_written e f (mn_proxy_audit mn) (pe_encode e table)
         (get_compact_bytes (target_bytes (fw_job f)) False) (mn_next mn)
         ((mn_world mn)\<lparr>wd_store := (wd_store (mn_world mn))(mn_next mn := d)\<rparr>)\<rparr>"
    using assms by (rule python_emits)
  show ?thesis
    using written_fields(3) [OF w, of d] by (simp add: mn' submit_written_store stamp_lookup)
qed


theorem v3_proof_carries_nonce_and_id_witness:
  "\<exists>pw d s ps. write_proof demo_env 7 0 [blank_slot] [] True demo_pow_params (demo_info False) ''x'' (Some (replicate 32 7)) (Fin 0 0)
       (mn_proofs (demo_miner False False 3)) = (pw, Inr d) \<and> map_of d ''model_config_diff'' = Some (JStr s) \<and>
     json_loads last_wins (\<lambda>s. NaN) 9 s = Inr (JObj ps) \<and> map_of ps ''completion_id'' = Some (JStr ''x'')"
proof -
  let ?pw = "mn_proofs (demo_miner False False 3)"
  obtain pw d where w: "write_proof demo_env 7 0 [blank_slot] [] True demo_pow_params (demo_info False) ''x'' (Some (replicate 32 7)) (Fin 0 0) ?pw
      = (pw, Inr d)"
    by (rule demo_written)
  have "pw_model_config_diff ?pw = JNull" "V3_VERSION \<le> pw_proof_version ?pw"
    by (simp_all add: demo_miner_def set_proof_version_def set_compute_precision_def set_model_identifier_def proof_writer_init_def V3_VERSION_def)
  moreover have "diff_base demo_env JNull = JObj []" "pe_limit demo_env = 9" "pe_text_float demo_env = (\<lambda>s. NaN)"
    by (simp_all add: diff_base_def demo_env_def)
  moreover have "nesting (JObj (with_nonce n [(''completion_id'', JStr ''x'')])) \<le> 9" for n
    by (simp add: with_nonce_def)
  ultimately show ?thesis
    using v3_proof_carries_nonce_and_id [OF w, of "[]"] w by fastforce
qed

theorem legacy_proof_carries_previous_id_witness:
  "\<exists>pw1 d1 pw2 d2 ps.
     write_proof demo_env 7 0 [] [] True demo_pow_params [] ''x'' None (Fin 0 0) (mn_proofs (demo_miner False False 2)) = (pw1, Inr d1) \<and>
     write_proof demo_env 7 0 [] [] True demo_pow_params [] ''y'' None (Fin 0 0) pw1 = (pw2, Inr d2) \<and>
     map_of d2 ''model_config_diff'' = Some (JObj ps) \<and> map_of ps ''completion_id'' = Some (JStr ''x'')"
proof -
  have ok: "\<exists>pw' d. write_proof demo_env 7 0 [] [] True demo_pow_params [] cid None (Fin 0 0) pw = (pw', Inr d) \<and> pw_proof_version pw' = 2"
    if "pw_proof_version pw = 2" for cid pw
    using that by (simp add: write_proof_def check_stamp_def demo_pow_params_def dget_def proof_base_def item_def v3_carrier_def V3_VERSION_def
        Let_def)
  have version: "pw_proof_version (mn_proofs (demo_miner False False 2)) = 2"
    by (simp add: demo_miner_def set_proof_version_def)
  obtain pw1 d1 where w1: "write_proof demo_env 7 0 [] [] True demo_pow_params [] ''x'' None (Fin 0 0) (mn_proofs (demo_miner False False 2))
      = (pw1, Inr d1)" "pw_proof_version pw1 = 2"
    using ok [OF version] by blast
  obtain pw2 d2 where w2: "write_proof demo_env 7 0 [] [] True demo_pow_params [] ''y'' None (Fin 0 0) pw1 = (pw2, Inr d2)"
    using ok [OF w1(2)] by blast
  have "\<exists>ps. map_of d2 ''model_config_diff'' = Some (JObj ps) \<and> map_of ps ''completion_id'' = Some (JStr ''x'')"
    by (rule legacy_proof_carries_previous_id [OF w1(1) w2]) (simp_all add: version V3_VERSION_def)
  with w1(1) w2 show ?thesis
    by blast
qed

end
