(* ===== verification/Masking.thy ===== *)
theory Masking
  imports RingBuffers PowHasher
begin

text \<open>
  The canonical support of a draw: \<^verbatim>\<open>apply_topk_topp_mask\<close> and \<^verbatim>\<open>proof_snapshot\<close> (\<^verbatim>\<open>pow_utils.py\<close>), and
  from \<^verbatim>\<open>topk_topp_sampler.py\<close> the replacement of infinite logits, \<^verbatim>\<open>_compact_topk_cdf\<close>,
  and the snapshot of \<^verbatim>\<open>_pow_forward\<close>.  A tensor of logits is a list of rows.
  Logits are compared, negated and moved; what rounds (softmax, sums, means, logsumexp) is a
  parameter.  NaN is left out.
\<close>

section \<open>Logits\<close>

datatype logit = NegInf | Val rat | PosInf

instantiation logit :: linorder
begin

fun less_eq_logit :: "logit \<Rightarrow> logit \<Rightarrow> bool" where
  "less_eq_logit NegInf y = True"
| "less_eq_logit (Val a) (Val b) = (a \<le> b)"
| "less_eq_logit (Val a) NegInf = False"
| "less_eq_logit x PosInf = True"
| "less_eq_logit PosInf y = False"

definition less_logit :: "logit \<Rightarrow> logit \<Rightarrow> bool" where
  "less_logit x y = (x \<le> y \<and> \<not> y \<le> x)"

instance
proof
  fix x y z :: logit
  show "(x < y) = (x \<le> y \<and> \<not> y \<le> x)"
    by (rule less_logit_def)
  show "x \<le> x"
    by (cases x) simp_all
  show "x \<le> y \<Longrightarrow> y \<le> z \<Longrightarrow> x \<le> z"
    by (cases x; cases y; cases z) simp_all
  show "x \<le> y \<Longrightarrow> y \<le> x \<Longrightarrow> x = y"
    by (cases x; cases y) simp_all
  show "x \<le> y \<or> y \<le> x"
    by (cases x; cases y) auto
qed

end

fun negate :: "logit \<Rightarrow> logit" where
  "negate NegInf = PosInf"
| "negate (Val a) = Val (- a)"
| "negate PosInf = NegInf"

fun finite_logit :: "logit \<Rightarrow> bool" where
  "finite_logit (Val a) = True"
| "finite_logit x = False"

text \<open>
  The replacement of infinite logits by the least finite one of the row.  In a row without a finite
  logit \<^verbatim>\<open>nan_to_num\<close> makes the minimum positive infinity.
\<close>

definition row_min :: "logit list \<Rightarrow> logit" where
  "row_min row = foldr min (filter finite_logit row) PosInf"

definition replace_inf :: "logit list \<Rightarrow> logit list" where
  "replace_inf row = map (\<lambda>x. if finite_logit x then x else row_min row) row"

text \<open>The scaled logits are only touched when one of the logits of the proof is infinite.\<close>

definition fix_logits :: "logit list list \<Rightarrow> logit list list \<Rightarrow> logit list list \<times> logit list list" where
  "fix_logits proof_logits logits =
     (if \<exists>row \<in> set proof_logits. \<exists>x \<in> set row. \<not> finite_logit x
      then (map replace_inf proof_logits, map replace_inf logits)
      else (proof_logits, logits))"

section \<open>Sorting and masks\<close>

text \<open>\<^verbatim>\<open>argsort(descending, stable)\<close>, the first maximum, and \<^verbatim>\<open>gather\<close> with its bound.\<close>

definition stable_desc :: "logit list \<Rightarrow> nat list" where
  "stable_desc row = sort_key (\<lambda>i. negate (row ! i)) [0..<length row]"

definition argmax :: "logit list \<Rightarrow> nat" where
  "argmax row = length (takeWhile (\<lambda>x. \<exists>y \<in> set row. x < y) row)"

definition gather :: "'a list \<Rightarrow> int \<Rightarrow> 'a res" where
  "gather xs i = (if 0 \<le> i \<and> i < int (length xs) then Inr (xs ! nat i) else Inl IndexError)"

definition TOPK_CAP :: nat where "TOPK_CAP = 50"

text \<open>The path over the largest 50 logits.\<close>

definition mask_fast :: "int \<Rightarrow> logit list \<Rightarrow> logit list res" where
  "mask_fast k row =
     (let cap = min TOPK_CAP (length row);
          topk_vals = take cap (map (\<lambda>i. row ! i) (stable_desc row));
          idx = max 0 (k - 1);
          idx = min idx (int cap - 1)
      in rbind (gather topk_vals idx) (\<lambda>threshold. Inr (map (\<lambda>x. if x \<le> threshold then NegInf else x) row)))"

text \<open>The path over the sorted row, scattered back.\<close>

definition scatter :: "nat list \<Rightarrow> 'a list \<Rightarrow> 'a list \<Rightarrow> 'a list" where
  "scatter idx src dst = fold (\<lambda>(i, x) ys. ys[i := x]) (zip idx src) dst"

definition mask_sorted :: "int \<Rightarrow> logit list \<Rightarrow> logit list res" where
  "mask_sorted k row =
     (let logits_idx = sort_key (\<lambda>i. row ! i) [0..<length row];
          logits_sort = map (\<lambda>i. row ! i) logits_idx
      in rbind (gather logits_sort (int (length row) - k)) (\<lambda>kth.
         Inr (scatter logits_idx (map (\<lambda>x. if x \<le> kth then NegInf else x) logits_sort) logits_sort)))"

definition keep_argmax :: "logit list \<Rightarrow> logit list \<Rightarrow> logit list" where
  "keep_argmax row masked =
     (if list_all (\<lambda>x. x = NegInf) masked \<and> row \<noteq> [] then masked[argmax row := row ! argmax row] else masked)"

text \<open>
  The nucleus of one row.  \<open>prev_cum\<close> stands for the softmax of the sorted support, its cumulative sum
  and the subtraction.
\<close>

definition nucleus :: "(logit list \<Rightarrow> rat list) \<Rightarrow> rat \<Rightarrow> logit list \<Rightarrow> logit list res" where
  "nucleus prev_cum p masked =
     (let support = filter (\<lambda>i. finite_logit (masked ! i)) [0..<length masked]
      in if length support \<le> 1 then Inr masked
         else if 50 < length support then Inl ValueError
         else
           (let sorted_support = sort_key (\<lambda>i. negate (masked ! i)) support;
                below = prev_cum (map (\<lambda>i. masked ! i) sorted_support);
                keep = (map (\<lambda>c. c < p) below)[0 := True]
            in Inr (fold (\<lambda>(i, b) m. if b then m else m[i := NegInf]) (zip sorted_support keep) masked)))"

text \<open>The mask of a batch; \<open>k\<close> and \<open>p\<close> have an entry per row, \<open>p\<close> possibly a single one.\<close>

definition apply_topk_topp_mask ::
    "(logit list \<Rightarrow> rat list) \<Rightarrow> int list option \<Rightarrow> rat list option \<Rightarrow> bool option \<Rightarrow> logit list list \<Rightarrow> logit list list res" where
  "apply_topk_topp_mask prev_cum k p fast logits =
     (if k = None \<and> p = None then Inr logits
      else
        (let use_fast = (case fast of Some b \<Rightarrow> b
               | None \<Rightarrow> (case p of None \<Rightarrow> True | Some ps \<Rightarrow> \<not> (\<exists>x \<in> set ps. x < 1)));
             mask = (\<lambda>k row. if use_fast then mask_fast k row else mask_sorted k row)
         in rbind (case k of
                None \<Rightarrow> Inr logits
              | Some ks \<Rightarrow> mapr (\<lambda>(k, row). mask k row) (zip ks logits)) (\<lambda>masked.
            let masked = map2 keep_argmax logits masked
            in case p of
                 None \<Rightarrow> Inr masked
               | Some ps \<Rightarrow>
                   (let p_flat = (if length ps = 1 then replicate (length logits) (hd ps) else ps)
                    in mapr (\<lambda>(p, m). if p < 1 then nucleus prev_cum p m else Inr m) (zip p_flat masked)))))"

section \<open>The compact distribution\<close>

text \<open>
  One row of \<^verbatim>\<open>_compact_topk_cdf\<close> before the softmax: the kept tokens by token id, padded with the
  vocabulary size; their logits; and the token of every slot.
\<close>

record compact =
  cp_keys :: "nat list"
  cp_logits :: "logit list"
  cp_token_ids :: "nat list"

definition compact_row :: "nat list \<Rightarrow> int option \<Rightarrow> logit list \<Rightarrow> compact" where
  "compact_row support_idx k row =
     (let vocab_size = length row;
          support_logits = map (\<lambda>i. row ! i) support_idx;
          support_size = length support_idx;
          k_flat = (case k of None \<Rightarrow> int support_size | Some k \<Rightarrow> k);
          thr_slot = nat (min (max 0 (k_flat - 1)) (int support_size - 1));
          threshold = support_logits ! thr_slot;
          keep = map (\<lambda>x. threshold < x) support_logits;
          keep = (if True \<in> set keep then keep else keep[0 := True]);
          sort_keys = map2 (\<lambda>b i. if b then i else vocab_size) keep support_idx;
          order = sort_key (\<lambda>j. sort_keys ! j) [0..<support_size];
          ordered_keys = map (\<lambda>j. sort_keys ! j) order;
          ordered_logits = map (\<lambda>j. support_logits ! j) order;
          valid = map (\<lambda>x. x \<noteq> vocab_size) ordered_keys;
          ordered_logits = map2 (\<lambda>b x. if b then x else NegInf) valid ordered_logits;
          last_slot = length (filter id valid) - 1;
          last_id = ordered_keys ! last_slot
      in \<lparr>cp_keys = ordered_keys, cp_logits = ordered_logits,
          cp_token_ids = map2 (\<lambda>b x. if b then x else last_id) valid ordered_keys\<rparr>)"

text \<open>The distribution of a row: a softmax, and its cumulative sum with the addition \<open>add\<close>.\<close>

fun cumsum :: "('a \<Rightarrow> 'a \<Rightarrow> 'a) \<Rightarrow> 'a \<Rightarrow> 'a list \<Rightarrow> 'a list" where
  "cumsum add acc [] = []"
| "cumsum add acc (x # xs) = (let s = add acc x in s # cumsum add s xs)"

definition cdf_of :: "(logit list \<Rightarrow> f64 list) \<Rightarrow> (f64 \<Rightarrow> f64 \<Rightarrow> f64) \<Rightarrow> logit list \<Rightarrow> f64 list" where
  "cdf_of softmax add row = cumsum add (Fin 0 0) (softmax row)"

text \<open>The token of a drawn slot: the compact distribution maps it back to the vocabulary.\<close>

definition token_of_slot :: "compact option \<Rightarrow> nat \<Rightarrow> nat" where
  "token_of_slot c slot = (case c of None \<Rightarrow> slot | Some c \<Rightarrow> cp_token_ids c ! slot)"

section \<open>The snapshot of a step\<close>

text \<open>The fixed-stride probes; a stride of zero is refused by \<^verbatim>\<open>torch.arange\<close>.\<close>

definition probes :: "nat \<Rightarrow> nat \<Rightarrow> nat list" where
  "probes stride V = take 20 (filter (\<lambda>i. i mod stride = 0) [0..<V])"

record snapshot =
  sn_logits :: "logit list"
  sn_indices :: "nat list"

definition snapshot_of :: "nat list \<Rightarrow> nat list \<Rightarrow> logit list \<Rightarrow> snapshot" where
  "snapshot_of best pr row = \<lparr>sn_logits = map (\<lambda>i. row ! i) (best @ pr), sn_indices = best @ pr\<rparr>"

definition proof_snapshot :: "logit list \<Rightarrow> snapshot res" where
  "proof_snapshot row =
     (let probe_step = length row div 20
      in if probe_step = 0 then Inl RuntimeError
         else Inr (snapshot_of (take 50 (stable_desc row)) (probes probe_step (length row)) row))"

text \<open>
  The snapshot of \<^verbatim>\<open>_pow_forward\<close>.  \<open>topk\<close> stands for \<^verbatim>\<open>torch.topk\<close>, which orders equal values as it likes:
  the head of its result is sorted by index and then, stably, by value.
\<close>

definition resort_head :: "logit list \<Rightarrow> nat list \<Rightarrow> nat list" where
  "resort_head row head = sort_key (\<lambda>i. negate (row ! i)) (sort_key (\<lambda>i. i) head)"

definition forward_snapshot :: "(nat \<Rightarrow> logit list \<Rightarrow> nat list) \<Rightarrow> logit list \<Rightarrow> snapshot" where
  "forward_snapshot topk row =
     (let V = length row;
          best = (if 2000 < V then take 50 (resort_head row (take 128 (topk 2000 row))) else take 50 (stable_desc row));
          probe_step = max (V div 20) 1
      in snapshot_of best (probes probe_step V) row)"

text \<open>
  The statistics: logsumexp, the means of four buckets of the sorted logits, and the mean of all.
  \<open>tail\<close> and \<open>overall\<close> stand for the two means that \<^verbatim>\<open>_pow_forward\<close> takes from unsorted sums.
\<close>

definition slice :: "nat \<Rightarrow> nat \<Rightarrow> 'a list \<Rightarrow> 'a list" where
  "slice a b xs = drop a (take b xs)"

definition proof_stats :: "(logit list \<Rightarrow> f64) \<Rightarrow> f64 \<Rightarrow> logit list \<Rightarrow> f64 list" where
  "proof_stats mean logsumexp_full row =
     (let V = length row; sl = map (\<lambda>i. row ! i) (stable_desc row)
      in [logsumexp_full,
          if 50 \<le> V then mean (slice 0 50 sl) else Fin 0 0,
          if 500 \<le> V then mean (slice 50 500 sl) else Fin 0 0,
          if 2000 \<le> V then mean (slice 500 2000 sl) else Fin 0 0,
          if 2000 < V then mean (drop 2000 sl) else Fin 0 0,
          mean sl])"

definition forward_stats ::
    "(nat \<Rightarrow> logit list \<Rightarrow> nat list) \<Rightarrow> (logit list \<Rightarrow> f64) \<Rightarrow> (logit list \<Rightarrow> logit list \<Rightarrow> f64) \<Rightarrow> (logit list \<Rightarrow> f64) \<Rightarrow>
     f64 \<Rightarrow> logit list \<Rightarrow> f64 list" where
  "forward_stats topk mean tail overall logsumexp_full row =
     (let V = length row
      in if 2000 < V then
           (let tk_vals = map (\<lambda>i. row ! i) (topk 2000 row)
            in [logsumexp_full, mean (slice 0 50 tk_vals), mean (slice 50 500 tk_vals), mean (slice 500 2000 tk_vals),
                tail row tk_vals, overall row])
         else
           (let sl = map (\<lambda>i. row ! i) (stable_desc row)
            in [logsumexp_full,
                if 50 \<le> V then mean (slice 0 50 sl) else Fin 0 0,
                if 500 \<le> V then mean (slice 50 500 sl) else Fin 0 0,
                Fin 0 0, Fin 0 0, mean sl]))"

end
