(* ===== verification/MaskingFacts.thy ===== *)
theory MaskingFacts
  imports Masking "HOL-Library.Product_Lexorder" "HOL-Library.Multiset"
begin

text \<open>
  Facts about the canonical support: the two masking paths, the bound of the support and that the proof
  holds it, the compact distribution against the masked row, and the snapshot against its reference.
\<close>

section \<open>Infinite logits\<close>

lemma row_min_least: "x \<in> set row \<Longrightarrow> finite_logit x \<Longrightarrow> row_min row \<le> x"
  unfolding row_min_def by (induction row) (auto simp: min_le_iff_disj)

lemma row_min_finite: "x \<in> set row \<Longrightarrow> finite_logit x \<Longrightarrow> finite_logit (row_min row) \<and> row_min row \<in> set row"
proof -
  have "foldr min xs PosInf = PosInf \<or> foldr min xs PosInf \<in> set xs" for xs
    by (induction xs) (auto simp: min_def)
  then have "row_min row = PosInf \<or> row_min row \<in> set (filter finite_logit row)"
    unfolding row_min_def .
  then show "x \<in> set row \<Longrightarrow> finite_logit x \<Longrightarrow> ?thesis"
    using row_min_least [of x row] by (cases x) auto
qed

section \<open>Sorting\<close>

lemma negate_le: "negate x \<le> negate y \<longleftrightarrow> y \<le> x"
  by (cases x; cases y) simp_all

lemma negate_inj: "negate x = negate y \<longleftrightarrow> x = y"
  by (cases x; cases y) simp_all

text \<open>A stable sort of an ascending list is the sort by key and element.\<close>

lemma sort_key_lex:
  assumes "sorted xs" "distinct xs"
  shows "sort_key f xs = sort_key (\<lambda>i. (f i, i)) (xs :: nat list)"
proof (rule properties_for_sort_key)
  let ?ys = "sort_key (\<lambda>i. (f i, i)) xs"
  have lex: "sorted (map (\<lambda>i. (f i, i)) ?ys)"
    by (rule sorted_sort_key)
  show "mset ?ys = mset xs"
    by simp
  show "sorted (map f ?ys)"
    using lex by (auto simp: sorted_wrt_map elim!: sorted_wrt_mono_rel [rotated])
  show "filter (\<lambda>x. f k = f x) ?ys = filter (\<lambda>x. f k = f x) xs" for k
  proof (rule sorted_distinct_set_unique)
    have "sorted (map (\<lambda>i. (f i, i)) (filter (\<lambda>x. f k = f x) ?ys))"
      using lex by (rule sorted_filter)
    then show "sorted (filter (\<lambda>x. f k = f x) ?ys)"
      by (auto simp: sorted_wrt_map elim!: sorted_wrt_mono_rel [rotated])
  qed (use assms in \<open>auto intro: sorted_filter [where f = id, simplified]\<close>)
qed

lemma sorted_first:
  assumes "sorted (map g xs)" "x \<in> set xs"
  shows "g (xs ! 0) \<le> g x"
  using assms by (cases xs) auto

text \<open>The head of a sort by an injective key is the head of the sort of a part that holds it.\<close>

lemma take_sort_key:
  assumes "inj_on kf (set A)" "distinct A" "distinct H" "set H \<subseteq> set A"
    and "\<And>a b. a \<in> set (take n (sort_key kf H)) \<Longrightarrow> b \<in> set A \<Longrightarrow> b \<notin> set H \<Longrightarrow> kf a < kf b"
    and "n \<le> length H"
  shows "take n (sort_key kf A) = take n (sort_key kf (H :: 'a list))"
proof -
  define P where "P = take n (sort_key kf H)"
  define R where "R = filter (\<lambda>x. x \<notin> set P) A"
  have sorted_H: "sorted (map kf (sort_key kf H))"
    by (rule sorted_sort_key)
  have dist_P: "distinct P"
    using assms(3) by (simp add: P_def)
  have sub: "set P \<subseteq> set H"
    using set_take_subset [of n "sort_key kf H"] by (simp add: P_def)
  have "kf a \<le> kf b" if "a \<in> set P" "b \<in> set R" for a b
  proof (cases "b \<in> set H")
    case True
    have split: "sort_key kf H = P @ drop n (sort_key kf H)"
      by (simp add: P_def)
    have "b \<in> set (P @ drop n (sort_key kf H))"
      using True set_sort [of kf H] split by metis
    then have "b \<in> set (drop n (sort_key kf H))"
      using that(2) by (simp add: R_def)
    moreover have "sorted (map kf P @ map kf (drop n (sort_key kf H)))"
      using sorted_H by (subst (asm) split) simp
    ultimately show ?thesis
      using that(1) by (auto simp: sorted_append)
  next
    case False
    then show ?thesis
      using assms(5) that by (auto simp: P_def R_def intro: less_imp_le)
  qed
  moreover have "sorted (map kf P)"
    using sorted_H unfolding P_def take_map [symmetric] by (rule sorted_wrt_take)
  ultimately have "sorted (map kf (P @ sort_key kf R))"
    by (auto simp: sorted_append)
  moreover have "mset A = mset (P @ sort_key kf R)"
  proof -
    have "set A = set (P @ R)" "distinct (P @ R)"
      using assms(2,4) sub dist_P by (auto simp: R_def)
    then show ?thesis
      using assms(2) by (metis mset_append mset_sort set_eq_iff_mset_eq_distinct)
  qed
  ultimately have "sort_key kf A = P @ sort_key kf R"
    using assms(1) by (metis sort_key_inj_key_eq)
  then show ?thesis
    using assms(6) by (simp add: P_def)
qed

lemma lex_inj: "inj_on (\<lambda>i. (f i, i)) S"
  by (simp add: inj_on_def)

lemma stable_desc_lex: "stable_desc row = sort_key (\<lambda>i. (negate (row ! i), i)) [0..<length row]"
  unfolding stable_desc_def by (rule sort_key_lex) simp_all

lemma stable_desc_set: "set (stable_desc row) = {..<length row}" "distinct (stable_desc row)" "length (stable_desc row) = length row"
  by (auto simp: stable_desc_def)

text \<open>The values in descending order are the ascending ones reversed.\<close>

lemma desc_values_of: "map (\<lambda>i. row ! i) (sort_key (\<lambda>i. negate (row ! i)) xs) = rev (sort (map (\<lambda>i. row ! i) xs))"
proof -
  let ?v = "map (\<lambda>i. row ! i) (sort_key (\<lambda>i. negate (row ! i)) xs)"
  have "sorted (map (\<lambda>i. negate (row ! i)) (sort_key (\<lambda>i. negate (row ! i)) xs))"
    by (rule sorted_sort_key)
  then have "sorted (rev ?v)"
    by (simp add: sorted_wrt_rev sorted_wrt_map negate_le)
  moreover have "mset (rev ?v) = mset (map (\<lambda>i. row ! i) xs)"
    by (simp only: mset_rev mset_map mset_sort)
  ultimately have "sort (map (\<lambda>i. row ! i) xs) = rev ?v"
    by (rule properties_for_sort [rotated])
  then show ?thesis
    by simp
qed

lemma desc_values: "map (\<lambda>i. row ! i) (stable_desc row) = rev (sort row)"
  unfolding stable_desc_def desc_values_of by (simp add: map_nth)

lemma sort_map_sort: "sort (map f (sort xs)) = sort (map f xs)"
  by (rule properties_for_sort [symmetric]) simp_all

text \<open>The \<open>k\<close>-th largest logit.\<close>

definition kth :: "nat \<Rightarrow> logit list \<Rightarrow> logit" where
  "kth k row = sort row ! (length row - k)"

lemma kth_desc: "1 \<le> k \<Longrightarrow> k \<le> length row \<Longrightarrow> map (\<lambda>i. row ! i) (stable_desc row) ! (k - 1) = kth k row"
  by (simp add: desc_values kth_def rev_nth)

lemma kth_antimono: "1 \<le> j \<Longrightarrow> j \<le> k \<Longrightarrow> k \<le> length row \<Longrightarrow> kth k row \<le> kth j row"
  unfolding kth_def by (rule sorted_nth_mono) simp_all

section \<open>The two masking paths\<close>

definition mask_at :: "logit \<Rightarrow> logit list \<Rightarrow> logit list" where
  "mask_at threshold row = map (\<lambda>x. if x \<le> threshold then NegInf else x) row"

lemma mask_fast_eq:
  assumes "row \<noteq> []"
  shows "mask_fast k row = Inr (mask_at (kth (nat (max 1 (min k (int (min 50 (length row)))))) row) row)"
proof -
  define c where "c = min 50 (length row)"
  define j where "j = nat (max 1 (min k (int c)))"
  have c: "1 \<le> c" "c \<le> length row"
    using assms by (cases row; simp add: c_def)+
  have j: "1 \<le> j" "j \<le> c"
    using c by (auto simp: j_def)
  have idx: "min (max 0 (k - 1)) (int c - 1) = int (j - 1)"
    using c by (auto simp: j_def)
  have "gather (take c (map (\<lambda>i. row ! i) (stable_desc row))) (int (j - 1)) = Inr (kth j row)"
    using j c kth_desc [of j row] nat_int [of "j - 1"] by (simp add: gather_def stable_desc_set del: of_nat_diff of_nat_diff_if nat_int)
  then show ?thesis
    using idx unfolding mask_fast_def Let_def TOPK_CAP_def c_def [symmetric] j_def [symmetric] by (simp add: mask_at_def)
qed

lemma scatter_nth:
  "distinct idx \<Longrightarrow> set idx \<subseteq> {..<length dst} \<Longrightarrow> j < length dst \<Longrightarrow>
   scatter idx (map g idx) dst ! j = (if j \<in> set idx then g j else dst ! j)"
  unfolding scatter_def by (induction idx arbitrary: dst) (auto simp: nth_list_update)

lemma scatter_length: "length (scatter idx src dst) = length dst"
proof -
  have "length (fold (\<lambda>(i, x) ys. ys[i := x]) ps dst) = length dst" for ps
    by (induction ps arbitrary: dst) auto
  then show ?thesis
    by (simp add: scatter_def)
qed

lemma sorted_values: "map (\<lambda>i. row ! i) (sort_key (\<lambda>i. row ! i) [0..<length row]) = sort (row :: 'a :: linorder list)"
proof -
  have "mset (map (\<lambda>i. row ! i) (sort_key (\<lambda>i. row ! i) [0..<length row])) = mset (map (\<lambda>i. row ! i) [0..<length row])"
    by (simp only: mset_map mset_sort)
  then show ?thesis
    by (intro properties_for_sort [symmetric]) (simp_all add: map_nth)
qed

lemma mask_sorted_eq:
  "mask_sorted k row = (if 1 \<le> k \<and> k \<le> int (length row) then Inr (mask_at (kth (nat k) row) row) else Inl IndexError)"
proof -
  let ?idx = "sort_key (\<lambda>i. row ! i) [0..<length row]"
  have kth: "gather (map (\<lambda>i. row ! i) ?idx) (int (length row) - k) =
      (if 1 \<le> k \<and> k \<le> int (length row) then Inr (kth (nat k) row) else Inl IndexError)"
    unfolding sorted_values gather_def kth_def by (auto simp: nat_diff_distrib)
  have "scatter ?idx (map (\<lambda>x. if x \<le> t then NegInf else x) (map (\<lambda>i. row ! i) ?idx)) (map (\<lambda>i. row ! i) ?idx) = mask_at t row" for t
  proof (rule nth_equalityI)
    show "scatter ?idx (map (\<lambda>x. if x \<le> t then NegInf else x) (map (\<lambda>i. row ! i) ?idx)) (map (\<lambda>i. row ! i) ?idx) ! j = mask_at t row ! j"
      if "j < length (scatter ?idx (map (\<lambda>x. if x \<le> t then NegInf else x) (map (\<lambda>i. row ! i) ?idx)) (map (\<lambda>i. row ! i) ?idx))" for j
      using that scatter_nth [of ?idx "map (\<lambda>i. row ! i) ?idx" j "\<lambda>i. if row ! i \<le> t then NegInf else row ! i"]
      by (auto simp: scatter_length mask_at_def comp_def atLeast0LessThan)
  qed (simp add: scatter_length mask_at_def)
  then show ?thesis
    unfolding mask_sorted_def Let_def kth by simp
qed

lemma mask_at_nth: "i < length row \<Longrightarrow> mask_at t row ! i = (if row ! i \<le> t then NegInf else row ! i)"
  by (simp add: mask_at_def)

lemma above_not_NegInf: "t < x \<Longrightarrow> x \<noteq> NegInf"
  by (auto simp: less_logit_def)

lemma mask_at_survives: "i < length row \<Longrightarrow> mask_at t row ! i \<noteq> NegInf \<longleftrightarrow> t < row ! i"
  using above_not_NegInf [of t "row ! i"] by (auto simp: mask_at_nth not_le)

lemma mask_at_empty: "list_all (\<lambda>x. x = NegInf) (mask_at t row) \<longleftrightarrow> \<not> (\<exists>i < length row. t < row ! i)"
proof -
  have "list_all (\<lambda>x. x = NegInf) (mask_at t row) \<longleftrightarrow> (\<forall>i < length row. mask_at t row ! i = NegInf)"
    by (simp add: list_all_length mask_at_def)
  also have "\<dots> \<longleftrightarrow> \<not> (\<exists>i < length row. t < row ! i)"
    using mask_at_survives [of _ row t] by blast
  finally show ?thesis .
qed

section \<open>The support\<close>

lemma count_above:
  assumes "1 \<le> k" "k \<le> length row"
  shows "length (filter (\<lambda>x. kth k row < x) row) \<le> k - 1"
proof -
  define n where "n = length row - k + 1"
  let ?P = "\<lambda>x. kth k row < x"
  have "x \<le> kth k row" if x: "x \<in> set (take n (sort row))" for x
  proof -
    obtain i where "i < n" "i < length row" "x = sort row ! i"
      using x by (auto simp: in_set_conv_nth)
    then show ?thesis
      unfolding kth_def using assms by (auto simp: n_def intro!: sorted_nth_mono)
  qed
  then have "filter ?P (take n (sort row)) = []"
    by (auto simp: filter_empty_conv not_less)
  then have "length (filter ?P (sort row)) = length (filter ?P (drop n (sort row)))"
    using filter_append [of ?P "take n (sort row)" "drop n (sort row)"] by simp
  also have "\<dots> \<le> length (drop n (sort row))"
    by (rule length_filter_le)
  also have "\<dots> = k - 1"
    using assms by (simp add: n_def)
  finally show ?thesis
    by (metis mset_filter mset_sort size_mset)
qed

lemma stable_desc_first:
  assumes "row \<noteq> []"
  shows "stable_desc row ! 0 = argmax row" "argmax row < length row" "i < length row \<Longrightarrow> row ! i \<le> row ! argmax row"
proof -
  define m where "m = stable_desc row ! 0"
  have m: "m < length row"
    using assms stable_desc_set [of row] nth_mem [of 0 "stable_desc row"] by (simp add: m_def)
  have sorted: "sorted (map (\<lambda>i. (negate (row ! i), i)) (stable_desc row))"
    unfolding stable_desc_lex by (rule sorted_sort_key)
  have first: "(negate (row ! m), m) \<le> (negate (row ! i), i)" if i: "i < length row" for i
    unfolding m_def by (rule sorted_first [OF sorted]) (use i in \<open>simp add: stable_desc_set\<close>)
  have top: "row ! i \<le> row ! m" if "i < length row" for i
    using first [OF that] by (auto simp: less_eq_prod_def negate_le negate_inj simp flip: not_le intro: less_imp_le)
  have before: "row ! i < row ! m" if "i < m" for i
    using first [of i] that m by (auto simp: less_eq_prod_def negate_le negate_inj simp flip: not_le intro: less_imp_le)
  have "takeWhile (\<lambda>x. \<exists>y \<in> set row. x < y) row = take m row"
  proof (rule takeWhile_eq_take_P_nth)
    show "\<exists>y \<in> set row. row ! i < y" if "i < m" for i
      using before [OF that] m by auto
    show "\<not> (\<exists>y \<in> set row. row ! m < y)"
      using top by (auto simp: in_set_conv_nth not_less)
  qed
  then have "argmax row = m"
    using m by (simp add: argmax_def)
  then show "stable_desc row ! 0 = argmax row" "argmax row < length row" "i < length row \<Longrightarrow> row ! i \<le> row ! argmax row"
    using m top by (simp_all add: m_def)
qed

lemma above_in_head:
  assumes "1 \<le> k" "k \<le> length row" "i < length row" "kth k row < row ! i"
  shows "i \<in> set (take k (stable_desc row))"
proof -
  have "i \<in> set (stable_desc row)"
    using assms(3) by (simp add: stable_desc_set)
  then obtain p where p: "p < length row" "stable_desc row ! p = i"
    by (metis in_set_conv_nth stable_desc_set(3))
  have "p < k"
  proof (rule ccontr)
    assume "\<not> p < k"
    then have "kth (p + 1) row \<le> kth k row"
      using p assms by (intro kth_antimono) simp_all
    moreover have "row ! i = kth (p + 1) row"
      using kth_desc [of "p + 1" row] p by (simp add: stable_desc_set)
    ultimately show False
      using assms(4) by simp
  qed
  then show ?thesis
    using p by (auto simp: in_set_conv_nth stable_desc_set intro!: exI [of _ p])
qed

text \<open>What both masks leave, with the first maximum when they leave nothing.\<close>

lemma masked_support:
  assumes "1 \<le> k" "k \<le> length row"
  defines "m \<equiv> keep_argmax row (mask_at (kth k row) row)"
  shows "length m = length row" "i < length row \<Longrightarrow> m ! i \<noteq> NegInf \<Longrightarrow> m ! i = row ! i \<and> i \<in> set (take k (stable_desc row))"
    "m ! argmax row = row ! argmax row" "length (filter (\<lambda>x. x \<noteq> NegInf) m) \<le> max 1 (k - 1)"
proof -
  let ?m = "mask_at (kth k row) row"
  have ne: "row \<noteq> []"
    using assms by auto
  note first = stable_desc_first [OF ne]
  show len: "length m = length row"
    by (simp add: m_def keep_argmax_def mask_at_def)
  have argmax_in: "argmax row \<in> set (take k (stable_desc row))"
    using first(1) assms(1,2) by (auto simp: in_set_conv_nth stable_desc_set intro!: exI [of _ 0])
  show "m ! i = row ! i \<and> i \<in> set (take k (stable_desc row))" if "i < length row" "m ! i \<noteq> NegInf"
  proof (cases "m ! i = ?m ! i")
    case True
    then show ?thesis
      using that mask_at_survives [OF that(1)] above_in_head [OF assms(1,2) that(1)]
      by (auto simp: mask_at_nth split: if_splits)
  next
    case False
    then have "i = argmax row"
      by (cases "i = argmax row") (simp_all add: m_def keep_argmax_def split: if_splits)
    moreover from this False have "m ! i = row ! i"
      using that(1) by (auto simp: m_def keep_argmax_def mask_at_def split: if_splits)
    ultimately show ?thesis
      using argmax_in by simp
  qed
  show "m ! argmax row = row ! argmax row"
  proof (cases "list_all (\<lambda>x. x = NegInf) ?m")
    case True
    then show ?thesis
      using ne first(2) by (simp add: m_def keep_argmax_def mask_at_def)
  next
    case False
    then obtain i where "i < length row" "kth k row < row ! i"
      by (auto simp: mask_at_empty)
    then have "kth k row < row ! argmax row"
      using first(3) by (meson order_less_le_trans)
    then show ?thesis
      using False first(2) by (auto simp: m_def keep_argmax_def mask_at_nth dest: leD)
  qed
  show "length (filter (\<lambda>x. x \<noteq> NegInf) m) \<le> max 1 (k - 1)"
  proof (cases "list_all (\<lambda>x. x = NegInf) ?m")
    case True
    then have "?m = replicate (length row) NegInf"
      by (simp add: list_all_iff mask_at_def map_replicate_const [symmetric])
    then have m: "m = (replicate (length row) NegInf)[argmax row := row ! argmax row]"
      using ne True by (simp add: m_def keep_argmax_def)
    have "filter (\<lambda>x. x \<noteq> NegInf) m = filter (\<lambda>x. x \<noteq> NegInf) [row ! argmax row]"
      unfolding m using first(2) by (simp add: upd_conv_take_nth_drop)
    then show ?thesis
      by simp
  next
    case False
    then have "filter (\<lambda>x. x \<noteq> NegInf) m = filter (\<lambda>x. kth k row < x) row"
      using above_not_NegInf by (auto simp: m_def keep_argmax_def mask_at_def filter_map comp_def not_le intro!: filter_cong map_idI)
    then show ?thesis
      using count_above [OF assms(1,2)] by simp
  qed
qed

text \<open>The nucleus keeps the first maximum and only removes.\<close>

lemma removed_nth: "m[i := x] ! j = m ! j \<or> m[i := x] ! j = x"
  by (cases "i = j"; cases "i < length m") (simp_all add: list_update_beyond)

lemma fold_removed:
  "length (fold (\<lambda>(i, b) m. if b then m else m[i := NegInf]) ps m) = length m"
  "fold (\<lambda>(i, b) m. if b then m else m[i := NegInf]) ps m ! j = m ! j \<or>
   fold (\<lambda>(i, b) m. if b then m else m[i := NegInf]) ps m ! j = NegInf"
proof -
  show "length (fold (\<lambda>(i, b) m. if b then m else m[i := NegInf]) ps m) = length m" for ps
    by (induction ps arbitrary: m) auto
  show "fold (\<lambda>(i, b) m. if b then m else m[i := NegInf]) ps m ! j = m ! j \<or>
      fold (\<lambda>(i, b) m. if b then m else m[i := NegInf]) ps m ! j = NegInf"
  proof (induction ps arbitrary: m)
    case (Cons p ps)
    have "(if snd p then m else m[fst p := NegInf]) ! j = m ! j \<or> (if snd p then m else m[fst p := NegInf]) ! j = NegInf"
      by (simp add: removed_nth)
    then show ?case
      using Cons.IH [of "if snd p then m else m[fst p := NegInf]"] by (auto simp: case_prod_beta)
  qed simp
qed

lemma fold_kept:
  "(\<And>b. (j, b) \<in> set ps \<Longrightarrow> b) \<Longrightarrow> fold (\<lambda>(i, b) m. if b then m else m[i := NegInf]) ps m ! j = m ! j"
proof (induction ps arbitrary: m)
  case (Cons p ps)
  have "(if snd p then m else m[fst p := NegInf]) ! j = m ! j"
  proof -
    have "snd p \<or> fst p \<noteq> j"
      using Cons.prems [of "snd p"] by (cases p) auto
    then show ?thesis
      by auto
  qed
  moreover have "fold (\<lambda>(i, b) m. if b then m else m[i := NegInf]) ps (if snd p then m else m[fst p := NegInf]) ! j =
      (if snd p then m else m[fst p := NegInf]) ! j"
    using Cons.prems by (intro Cons.IH) auto
  ultimately show ?case
    by (cases p; cases "snd p") simp_all
qed simp

lemma before_argmax:
  assumes "h < argmax row"
  shows "\<exists>y \<in> set row. row ! h < y"
proof -
  let ?P = "\<lambda>x. \<exists>y \<in> set row. x < y"
  have "takeWhile ?P row ! h \<in> set (takeWhile ?P row)" "takeWhile ?P row ! h = row ! h"
    using assms nth_mem [of h "takeWhile ?P row"] by (simp_all add: argmax_def takeWhile_nth del: nth_mem)
  then show ?thesis
    using set_takeWhileD [of "row ! h" ?P row] by simp
qed

definition candidates :: "logit list \<Rightarrow> nat list" where
  "candidates m = filter (\<lambda>i. finite_logit (m ! i)) [0..<length m]"

lemma candidates_eq:
  assumes "\<And>i. i < length m \<Longrightarrow> m ! i = PosInf \<Longrightarrow> False"
  shows "candidates m = filter (\<lambda>i. m ! i \<noteq> NegInf) [0..<length m]" "length (candidates m) = length (filter (\<lambda>x. x \<noteq> NegInf) m)"
proof -
  have "finite_logit (m ! i) \<longleftrightarrow> m ! i \<noteq> NegInf" if "i < length m" for i
    using assms [OF that] by (cases "m ! i") auto
  then show eq: "candidates m = filter (\<lambda>i. m ! i \<noteq> NegInf) [0..<length m]"
    unfolding candidates_def by (intro filter_cong) auto
  have "filter (\<lambda>x. x \<noteq> NegInf) (map (\<lambda>i. m ! i) [0..<length m]) = map (\<lambda>i. m ! i) (filter (\<lambda>i. m ! i \<noteq> NegInf) [0..<length m])"
    by (simp add: filter_map comp_def)
  then show "length (candidates m) = length (filter (\<lambda>x. x \<noteq> NegInf) m)"
    unfolding eq by (metis length_map map_nth)
qed

lemma nucleus_head:
  assumes "length m = length row" "row \<noteq> []" "\<forall>x \<in> set row. finite_logit x"
    and "\<And>i. i < length row \<Longrightarrow> m ! i \<noteq> NegInf \<Longrightarrow> m ! i = row ! i"
    and "m ! argmax row = row ! argmax row"
  shows "sort_key (\<lambda>i. negate (m ! i)) (candidates m) ! 0 = argmax row" "argmax row \<in> set (candidates m)"
proof -
  note first = stable_desc_first [OF assms(2)]
  show a: "argmax row \<in> set (candidates m)"
    using first(2) assms(1,3,5) by (simp add: candidates_def)
  let ?o = "sort_key (\<lambda>i. negate (m ! i)) (candidates m)"
  have ne: "?o \<noteq> []" "set ?o = set (candidates m)"
    using a by (metis empty_iff list.set(1) set_sort, simp)
  define h where "h = ?o ! 0"
  have h: "h \<in> set (candidates m)"
  proof -
    have "0 < length ?o"
      using ne(1) by blast
    then show ?thesis
      using nth_mem [of 0 ?o] by (simp only: h_def ne(2))
  qed
  then have h_row: "h < length row" "m ! h = row ! h"
    using assms(1) assms(4) [of h] by (cases "m ! h"; auto simp: candidates_def)+
  have lex: "?o = sort_key (\<lambda>i. (negate (m ! i), i)) (candidates m)"
    by (rule sort_key_lex) (auto simp: candidates_def intro: sorted_filter [where f = id, simplified])
  have sorted: "sorted (map (\<lambda>i. (negate (m ! i), i)) ?o)"
    unfolding lex by (rule sorted_sort_key)
  have le: "(negate (m ! h), h) \<le> (negate (m ! argmax row), argmax row)"
    unfolding h_def by (rule sorted_first [OF sorted]) (use a ne in simp)
  then have "row ! argmax row \<le> row ! h"
    using assms(5) h_row by (auto simp: less_eq_prod_def negate_le negate_inj simp flip: not_le intro: less_imp_le)
  then have eq: "row ! h = row ! argmax row"
    using first(3) [OF h_row(1)] by simp
  then have "h \<le> argmax row"
    using le assms(5) h_row by (simp add: less_eq_prod_def)
  moreover have "\<not> h < argmax row"
  proof
    assume "h < argmax row"
    then have "\<exists>y \<in> set row. row ! h < y"
      by (rule before_argmax)
    then obtain i where "i < length row" "row ! h < row ! i"
      by (auto simp: in_set_conv_nth)
    then show False
      using first(3) [of i] eq by simp
  qed
  ultimately show "?o ! 0 = argmax row"
    by (simp add: h_def)
qed

lemma nucleus_keeps:
  assumes "length m = length row" "row \<noteq> []" "\<forall>x \<in> set row. finite_logit x"
    and "\<And>i. i < length row \<Longrightarrow> m ! i \<noteq> NegInf \<Longrightarrow> m ! i = row ! i"
    and "m ! argmax row = row ! argmax row" "length (filter (\<lambda>x. x \<noteq> NegInf) m) \<le> 50"
  obtains m' where "nucleus pc p m = Inr m'" "length m' = length row" "m' ! argmax row = row ! argmax row"
    "\<And>j. m' ! j = m ! j \<or> m' ! j = NegInf"
proof (cases "length (candidates m) \<le> 1")
  case True
  have "nucleus pc p m = Inr m"
    using True unfolding nucleus_def candidates_def [symmetric] Let_def by simp
  then show thesis
    by (rule that) (use assms(1,5) in simp_all)
next
  case False
  have no_PosInf: "False" if "i < length m" "m ! i = PosInf" for i
  proof -
    have "row ! i = PosInf"
      using that assms(1) assms(4) [of i] by simp
    then show False
      using assms(1,3) that(1) nth_mem [of i row] by (metis finite_logit.simps(3))
  qed
  then have small: "length (candidates m) \<le> 50"
    using candidates_eq(2) [of m, OF no_PosInf] assms(6) by simp
  let ?o = "sort_key (\<lambda>i. negate (m ! i)) (candidates m)"
  let ?keep = "(map (\<lambda>c. c < p) (pc (map (\<lambda>i. m ! i) ?o)))[0 := True]"
  let ?m = "fold (\<lambda>(i, b) m. if b then m else m[i := NegInf]) (zip ?o ?keep) m"
  note head = nucleus_head [OF assms(1-5)]
  show thesis
  proof (rule that [of ?m])
    show "nucleus pc p m = Inr ?m"
      using False small unfolding nucleus_def candidates_def [symmetric] Let_def by simp
    have kept: "b" if b: "(argmax row, b) \<in> set (zip ?o ?keep)" for b
    proof -
      obtain q where q: "q < length ?o" "q < length ?keep" "?o ! q = argmax row" "?keep ! q = b"
        using b by (auto simp only: in_set_zip fst_conv snd_conv)
      have "distinct ?o"
        by (simp add: candidates_def)
      moreover have "0 < length ?o"
        using q(1) by linarith
      ultimately have "q = 0"
        using nth_eq_iff_index_eq [of ?o q 0] q(1,3) head(1) by simp
      then show b
        using q(2,4) by (simp add: nth_list_update_if)
    qed
    show "?m ! argmax row = row ! argmax row"
      unfolding assms(5) [symmetric] by (rule fold_kept) (rule kept)
  qed (use assms(1) in \<open>simp_all only: fold_removed\<close>)
qed

section \<open>Batches\<close>

text \<open>The \<open>k\<close> of every row is between 1, and 50 and the width of the row.\<close>

definition canonical_k :: "int list \<Rightarrow> logit list list \<Rightarrow> bool" where
  "canonical_k ks logits \<longleftrightarrow> list_all2 (\<lambda>k row. 1 \<le> k \<and> k \<le> 50 \<and> k \<le> int (length row)) ks logits"

lemma canonical_k_zip: "canonical_k ks logits \<Longrightarrow> (k, row) \<in> set (zip ks logits) \<Longrightarrow> 1 \<le> k \<and> k \<le> 50 \<and> k \<le> int (length row)"
  by (auto simp: canonical_k_def list_all2_iff)

lemma masks_canonical:
  assumes "1 \<le> k" "k \<le> 50" "k \<le> int (length row)"
  shows "mask_fast k row = Inr (mask_at (kth (nat k) row) row)" "mask_sorted k row = Inr (mask_at (kth (nat k) row) row)"
proof -
  have "row \<noteq> []" "max 1 (min k (int (min 50 (length row)))) = k"
    using assms by auto
  then show "mask_fast k row = Inr (mask_at (kth (nat k) row) row)" "mask_sorted k row = Inr (mask_at (kth (nat k) row) row)"
    using assms by (simp_all add: mask_fast_eq mask_sorted_eq)
qed

text \<open>On the parameters the miner accepts (every \<open>k\<close> between 1 and 50 and at most the vocabulary), the mask taken
  from the 50 largest logits and the one taken from the sorted row and scattered back are the same tensor, whatever \<open>p\<close> is.\<close>

lemma masks_agree:
  assumes "canonical_k ks logits"
  shows "apply_topk_topp_mask pc (Some ks) p (Some True) logits = apply_topk_topp_mask pc (Some ks) p (Some False) logits"
proof -
  have "mapr (\<lambda>(k, row). mask_fast k row) (zip ks logits) = mapr (\<lambda>(k, row). mask_sorted k row) (zip ks logits)"
  proof -
    have "mapr f (zip ks logits) = Inr (map (\<lambda>(k, row). mask_at (kth (nat k) row) row) (zip ks logits))"
      if "f = (\<lambda>(k, row). mask_fast k row) \<or> f = (\<lambda>(k, row). mask_sorted k row)" for f
      using that masks_canonical canonical_k_zip [OF assms] by (intro mapr_Inr) auto
    then show ?thesis
      by simp
  qed
  then show ?thesis
    by (simp add: apply_topk_topp_mask_def Let_def)
qed

lemma masks_agree_witness:
  "apply_topk_topp_mask (\<lambda>xs. map (\<lambda>_. 0) xs) (Some [2, 3]) (Some [1 / 2]) (Some True) [[Val 3, Val 1, Val 2], [Val 5, Val 5, Val 4, Val 9]] =
   apply_topk_topp_mask (\<lambda>xs. map (\<lambda>_. 0) xs) (Some [2, 3]) (Some [1 / 2]) (Some False) [[Val 3, Val 1, Val 2], [Val 5, Val 5, Val 4, Val 9]]"
  by (rule masks_agree) (simp add: canonical_k_def)

lemma apply_topk_support:
  assumes "canonical_k ks logits" "\<forall>row \<in> set logits. \<forall>x \<in> set row. finite_logit x"
    and "p = None \<or> (\<exists>ps. p = Some ps \<and> (length ps = 1 \<or> length ps = length logits))"
  obtains ms where "apply_topk_topp_mask pc (Some ks) p fast logits = Inr ms" "length ms = length logits"
    "\<And>r i. r < length logits \<Longrightarrow> i < length (logits ! r) \<Longrightarrow> ms ! r ! i \<noteq> NegInf \<Longrightarrow>
       ms ! r ! i = logits ! r ! i \<and> i \<in> set (take 50 (stable_desc (logits ! r)))"
    "\<And>r. r < length logits \<Longrightarrow> ms ! r ! argmax (logits ! r) = logits ! r ! argmax (logits ! r)"
    "\<And>r. r < length logits \<Longrightarrow> length (ms ! r) = length (logits ! r)"
proof -
  have len: "length ks = length logits"
    using assms(1) by (simp add: canonical_k_def list_all2_iff)
  have k: "1 \<le> ks ! r \<and> ks ! r \<le> 50 \<and> ks ! r \<le> int (length (logits ! r))" if "r < length logits" for r
    using assms(1) that by (simp add: canonical_k_def list_all2_conv_all_nth)
  define M where "M = map2 (\<lambda>k row. keep_argmax row (mask_at (kth (nat k) row) row)) ks logits"
  have M: "M ! r = keep_argmax (logits ! r) (mask_at (kth (nat (ks ! r)) (logits ! r)) (logits ! r))" "length M = length logits"
    if "r < length logits" for r
    using that len by (simp_all add: M_def)
  have lenM: "length M = length logits"
    using len by (simp add: M_def)
  have sup: "length (M ! r) = length (logits ! r)"
    "i < length (logits ! r) \<Longrightarrow> M ! r ! i \<noteq> NegInf \<Longrightarrow> M ! r ! i = logits ! r ! i \<and> i \<in> set (take (nat (ks ! r)) (stable_desc (logits ! r)))"
    "M ! r ! argmax (logits ! r) = logits ! r ! argmax (logits ! r)"
    "length (filter (\<lambda>x. x \<noteq> NegInf) (M ! r)) \<le> max 1 (nat (ks ! r) - 1)" if "r < length logits" for r i
  proof -
    have "1 \<le> nat (ks ! r)" "nat (ks ! r) \<le> length (logits ! r)"
      using k [OF that] by linarith+
    note masked_support [OF this]
    then show "length (M ! r) = length (logits ! r)"
      "i < length (logits ! r) \<Longrightarrow> M ! r ! i \<noteq> NegInf \<Longrightarrow> M ! r ! i = logits ! r ! i \<and> i \<in> set (take (nat (ks ! r)) (stable_desc (logits ! r)))"
      "M ! r ! argmax (logits ! r) = logits ! r ! argmax (logits ! r)"
      "length (filter (\<lambda>x. x \<noteq> NegInf) (M ! r)) \<le> max 1 (nat (ks ! r) - 1)"
      unfolding M(1) [OF that] by blast+
  qed
  have in50: "i < length (logits ! r) \<Longrightarrow> M ! r ! i \<noteq> NegInf \<Longrightarrow> M ! r ! i = logits ! r ! i \<and> i \<in> set (take 50 (stable_desc (logits ! r)))"
    if "r < length logits" for r i
    using sup(2) [OF that, of i] k [OF that] set_take_subset_set_take [of "nat (ks ! r)" 50 "stable_desc (logits ! r)"]
    by (auto simp: nat_le_iff)
  have masked: "mapr (\<lambda>(k, row). (if b then mask_fast k row else mask_sorted k row)) (zip ks logits) =
      Inr (map (\<lambda>(k, row). mask_at (kth (nat k) row) row) (zip ks logits))" for b
    using masks_canonical canonical_k_zip [OF assms(1)] by (intro mapr_Inr) auto
  have kept: "map2 keep_argmax logits (map (\<lambda>(k, row). mask_at (kth (nat k) row) row) (zip ks logits)) = M"
    using len by (simp add: M_def list_eq_iff_nth_eq)
  define P where "P = (case p of None \<Rightarrow> replicate (length logits) 1
    | Some ps \<Rightarrow> if length ps = 1 then replicate (length logits) (hd ps) else ps)"
  have P: "length P = length logits"
    using assms(3) by (auto simp: P_def)
  have result: "apply_topk_topp_mask pc (Some ks) p fast logits = mapr (\<lambda>(p, m). if p < 1 then nucleus pc p m else Inr m) (zip P M)"
  proof (cases p)
    case None
    have "mapr (\<lambda>(p, m). if p < 1 then nucleus pc p m else Inr m) (zip P M) = Inr (map snd (zip P M))"
      using None by (intro mapr_Inr) (auto simp: P_def dest!: set_zip_leftD)
    then show ?thesis
      using None P lenM unfolding apply_topk_topp_mask_def Let_def by (simp add: masked kept)
  next
    case (Some ps)
    then show ?thesis
      unfolding apply_topk_topp_mask_def Let_def by (simp add: masked kept P_def)
  qed
  have row: "\<exists>m'. (if P ! r < 1 then nucleus pc (P ! r) (M ! r) else Inr (M ! r)) = Inr m' \<and> length m' = length (logits ! r) \<and>
      m' ! argmax (logits ! r) = logits ! r ! argmax (logits ! r) \<and> (\<forall>j. m' ! j = M ! r ! j \<or> m' ! j = NegInf)"
    if r: "r < length logits" for r
  proof -
    have "logits ! r \<noteq> []" "\<forall>x \<in> set (logits ! r). finite_logit x" "length (filter (\<lambda>x. x \<noteq> NegInf) (M ! r)) \<le> 50"
      using k [OF r] assms(2) r sup(4) [OF r] by force+
    then obtain m' where "nucleus pc (P ! r) (M ! r) = Inr m'" "length m' = length (logits ! r)"
      "m' ! argmax (logits ! r) = logits ! r ! argmax (logits ! r)" "\<And>j. m' ! j = M ! r ! j \<or> m' ! j = NegInf"
      using nucleus_keeps [of "M ! r" "logits ! r" pc "P ! r"] sup [OF r] by metis
    then show ?thesis
      using sup [OF r] by auto
  qed
  define g where "g r = (SOME m'. (if P ! r < 1 then nucleus pc (P ! r) (M ! r) else Inr (M ! r)) = Inr m' \<and> length m' = length (logits ! r) \<and>
      m' ! argmax (logits ! r) = logits ! r ! argmax (logits ! r) \<and> (\<forall>j. m' ! j = M ! r ! j \<or> m' ! j = NegInf))" for r
  have g: "(if P ! r < 1 then nucleus pc (P ! r) (M ! r) else Inr (M ! r)) = Inr (g r)" "length (g r) = length (logits ! r)"
    "g r ! argmax (logits ! r) = logits ! r ! argmax (logits ! r)" "g r ! j = M ! r ! j \<or> g r ! j = NegInf"
    if "r < length logits" for r j
    using someI_ex [OF row [OF that]] unfolding g_def by blast+
  have "zip P M = map (\<lambda>r. (P ! r, M ! r)) [0..<length logits]"
    using P lenM by (intro nth_equalityI) simp_all
  moreover have "mapr (\<lambda>(p, m). if p < 1 then nucleus pc p m else Inr m) (map (\<lambda>r. (P ! r, M ! r)) rs) = Inr (map g rs)"
    if "set rs \<subseteq> {..<length logits}" for rs
    using that
  proof (induction rs)
    case (Cons r rs)
    then show ?case
      using g(1) [of r] by simp
  qed simp
  ultimately have "apply_topk_topp_mask pc (Some ks) p fast logits = Inr (map g [0..<length logits])"
    by (simp add: result atLeast0LessThan)
  then show thesis
  proof (rule that)
    show "map g [0..<length logits] ! r ! i = logits ! r ! i \<and> i \<in> set (take 50 (stable_desc (logits ! r)))"
      if "r < length logits" "i < length (logits ! r)" "map g [0..<length logits] ! r ! i \<noteq> NegInf" for r i
      using that g(4) [of r i] in50 [of r i] by auto
  qed (simp_all add: g)
qed

text \<open>C15: The mask of a batch succeeds whatever \<open>top_p\<close> is, the check for more than 50 candidates never fires, and in every row
  every token that can still be drawn has its own logit and is one of the 50 that the snapshot of the unscaled logits records,
  when the scaling keeps their order; the first maximum can always be drawn.\<close>

lemma support_fits_proof:
  assumes "canonical_k ks logits" "\<forall>row \<in> set logits. \<forall>x \<in> set row. finite_logit x"
    and "p = None \<or> (\<exists>ps. p = Some ps \<and> (length ps = 1 \<or> length ps = length logits))"
    and "\<forall>r < length logits. stable_desc (proof_logits ! r) = stable_desc (logits ! r)"
  shows "\<exists>ms. apply_topk_topp_mask pc (Some ks) p fast logits = Inr ms \<and> length ms = length logits \<and>
    (\<forall>r < length logits. \<forall>i < length (logits ! r). ms ! r ! i \<noteq> NegInf \<longrightarrow>
       ms ! r ! i = logits ! r ! i \<and>
       (\<forall>sn. proof_snapshot (proof_logits ! r) = Inr sn \<longrightarrow> i \<in> set (take 50 (sn_indices sn)))) \<and>
    (\<forall>r < length logits. ms ! r ! argmax (logits ! r) = logits ! r ! argmax (logits ! r))"
proof (rule apply_topk_support [OF assms(1-3), of pc fast])
  fix ms
  assume *: "apply_topk_topp_mask pc (Some ks) p fast logits = Inr ms" "length ms = length logits"
    "\<And>r i. r < length logits \<Longrightarrow> i < length (logits ! r) \<Longrightarrow> ms ! r ! i \<noteq> NegInf \<Longrightarrow>
       ms ! r ! i = logits ! r ! i \<and> i \<in> set (take 50 (stable_desc (logits ! r)))"
    "\<And>r. r < length logits \<Longrightarrow> ms ! r ! argmax (logits ! r) = logits ! r ! argmax (logits ! r)"
  have sub: "set (take 50 (stable_desc row)) \<subseteq> set (take 50 (sn_indices sn))" if "proof_snapshot row = Inr sn" for row sn
    using that by (auto simp: proof_snapshot_def snapshot_of_def Let_def split: if_splits)
  have "i \<in> set (take 50 (sn_indices sn))"
    if "r < length logits" "i < length (logits ! r)" "ms ! r ! i \<noteq> NegInf" "proof_snapshot (proof_logits ! r) = Inr sn" for r i sn
  proof -
    have "i \<in> set (take 50 (stable_desc (proof_logits ! r)))"
      using *(3) [OF that(1-3)] assms(4) that(1) by simp
    then show ?thesis
      using sub [OF that(4)] by (rule rev_subsetD)
  qed
  then show ?thesis
    using * by blast
qed

section \<open>The compact distribution\<close>

definition survivors :: "logit list \<Rightarrow> nat list" where
  "survivors m = filter (\<lambda>i. m ! i \<noteq> NegInf) [0..<length m]"

lemma sort_with_sentinel:
  assumes "\<forall>i \<in> set S. i < V"
  shows "sort (map (\<lambda>i. if P i then i else V) S) = sort (filter P S) @ replicate (length S - length (filter P S)) V"
proof (rule properties_for_sort)
  have "mset (map (\<lambda>i. if P i then i else V) S) = mset (filter P S) + replicate_mset (length S - length (filter P S)) V"
  proof (induction S)
    case (Cons i S)
    then show ?case
      using length_filter_le [of P S] by (simp add: Suc_diff_le)
  qed simp
  then show "mset (sort (filter P S) @ replicate (length S - length (filter P S)) V) = mset (map (\<lambda>i. if P i then i else V) S)"
    by simp
  show "sorted (sort (filter P S) @ replicate (length S - length (filter P S)) V)"
    using assms by (auto simp: sorted_append intro: less_imp_le)
qed

lemma kept_survivors:
  assumes "1 \<le> k" "k \<le> n" "n \<le> length row" "\<forall>x \<in> set row. finite_logit x"
  defines "S \<equiv> take n (stable_desc row)" and "t \<equiv> kth k row"
  defines "m \<equiv> keep_argmax row (mask_at t row)"
  shows "(let keep = map (\<lambda>i. t < row ! i) S in if True \<in> set keep then keep else keep[0 := True]) = map (\<lambda>i. m ! i \<noteq> NegInf) S"
    "survivors m = sort (filter (\<lambda>i. m ! i \<noteq> NegInf) S)" "survivors m \<noteq> []"
proof -
  have ne: "row \<noteq> []"
    using assms(1-3) by auto
  note first = stable_desc_first [OF ne]
  have k: "k \<le> length row"
    using assms(2,3) by simp
  note sup = masked_support [OF assms(1) k, folded t_def, folded m_def]
  have S: "set S \<subseteq> {..<length row}" "distinct S" "length S = n" "S ! 0 = argmax row"
    using assms(1-3) first(1) set_take_subset [of n "stable_desc row"] by (auto simp: S_def stable_desc_set)
  have in_S: "i \<in> set S" if "i < length row" "m ! i \<noteq> NegInf" for i
    using sup(2) [OF that] set_take_subset_set_take [of k n "stable_desc row"] assms(2) by (auto simp: S_def)
  show "(let keep = map (\<lambda>i. t < row ! i) S in if True \<in> set keep then keep else keep[0 := True]) = map (\<lambda>i. m ! i \<noteq> NegInf) S"
  proof (cases "\<exists>i < length row. t < row ! i")
    case True
    then obtain i where i: "i < length row" "t < row ! i"
      by blast
    have "\<not> list_all (\<lambda>x. x = NegInf) (mask_at t row)"
      using True by (simp add: mask_at_empty)
    then have m: "m = mask_at t row"
      by (simp add: m_def keep_argmax_def)
    then have "i \<in> set S"
      using in_S [OF i(1)] mask_at_survives [OF i(1), of t] i(2) by simp
    then have "True \<in> set (map (\<lambda>i. t < row ! i) S)"
      using i(2) by force
    moreover have "map (\<lambda>i. t < row ! i) S = map (\<lambda>i. m ! i \<noteq> NegInf) S"
      using S(1) mask_at_survives [of _ row t] by (auto simp: m)
    ultimately show ?thesis
      by simp
  next
    case False
    then have none: "list_all (\<lambda>x. x = NegInf) (mask_at t row)"
      by (simp add: mask_at_empty)
    then have m: "m ! i \<noteq> NegInf \<longleftrightarrow> i = argmax row" if "i < length row" for i
    proof (cases "i = argmax row")
      case True
      have "row ! argmax row \<noteq> NegInf"
        using assms(4) nth_mem [OF first(2)] by auto
      then show ?thesis
        using True sup(3) by simp
    next
      case False
      have "mask_at t row ! i = NegInf"
        using none that by (simp add: list_all_length mask_at_def)
      then show ?thesis
        using False none ne by (simp add: m_def keep_argmax_def)
    qed
    have no: "map (\<lambda>i. t < row ! i) S = replicate n False"
      using False S(1,3) by (intro nth_equalityI) (auto simp: subset_iff)
    have "(replicate n False)[0 := True] = map (\<lambda>i. m ! i \<noteq> NegInf) S"
    proof (rule nth_equalityI)
      fix q
      assume "q < length ((replicate n False)[0 := True])"
      then have q: "q < n"
        by simp
      have "S ! q < length row"
        using q S(1,3) nth_mem [of q S] by blast
      moreover have "S ! q = argmax row \<longleftrightarrow> q = 0"
        using nth_eq_iff_index_eq [of S q 0] S q by simp
      ultimately show "(replicate n False)[0 := True] ! q = map (\<lambda>i. m ! i \<noteq> NegInf) S ! q"
        using q S(3) m by (simp add: nth_list_update_if)
    qed (simp add: S)
    then show ?thesis
      unfolding no by simp
  qed
  show "survivors m = sort (filter (\<lambda>i. m ! i \<noteq> NegInf) S)"
  proof (rule sorted_distinct_set_unique)
    show "sorted (survivors m)"
      unfolding survivors_def by (rule sorted_filter [where f = id, simplified]) simp
    show "set (survivors m) = set (sort (filter (\<lambda>i. m ! i \<noteq> NegInf) S))"
      using in_S S(1) sup(1) by (auto simp: survivors_def)
  qed (use S(2) in \<open>simp_all add: survivors_def\<close>)
  have "row ! argmax row \<noteq> NegInf"
    using assms(4) nth_mem [OF first(2)] by (metis finite_logit.simps(2))
  then have "argmax row \<in> set (survivors m)"
    using first(2) sup(1,3) by (simp add: survivors_def)
  then show "survivors m \<noteq> []"
    by auto
qed

lemma compact_row_eq:
  assumes "1 \<le> k" "k \<le> n" "n \<le> length row" "\<forall>x \<in> set row. finite_logit x"
  defines "m \<equiv> keep_argmax row (mask_at (kth k row) row)"
  defines "J \<equiv> survivors m" and "pad \<equiv> n - length (survivors m)"
  shows "compact_row (take n (stable_desc row)) (Some (int k)) row =
    \<lparr>cp_keys = J @ replicate pad (length row), cp_logits = map (\<lambda>i. m ! i) J @ replicate pad NegInf,
     cp_token_ids = J @ replicate pad (last J)\<rparr>"
    "length J \<le> n"
proof -
  define S where "S = take n (stable_desc row)"
  define t where "t = kth k row"
  have k: "k \<le> length row"
    using assms(2,3) by simp
  note kept = kept_survivors [OF assms(1-4), folded S_def, folded t_def, folded m_def [folded t_def], folded J_def]
  note sup = masked_support [OF assms(1) k, folded m_def]
  have S: "set S \<subseteq> {..<length row}" "length S = n"
    using assms(3) set_take_subset [of n "stable_desc row"] by (auto simp: S_def stable_desc_set)
  have slot: "nat (min (max 0 (int k - 1)) (int (length S) - 1)) = k - 1"
    using assms(1,2) S(2) by simp
  have thr: "map (\<lambda>i. row ! i) S ! (k - 1) = t"
    using kth_desc [OF assms(1) k] assms(1-3) by (simp add: S_def t_def stable_desc_set)
  define K where "K = map (\<lambda>i. if m ! i \<noteq> NegInf then i else length row) S"
  have K: "length K = n" "map2 (\<lambda>b i. if b then i else length row) (map (\<lambda>i. m ! i \<noteq> NegInf) S) S = K"
    using S(2) by (simp_all add: K_def list_eq_iff_nth_eq)
  let ?order = "sort_key (\<lambda>j. K ! j) [0..<length S]"
  have len: "length (filter (\<lambda>i. m ! i \<noteq> NegInf) S) = length J"
    by (simp add: kept(2))
  then show J_le: "length J \<le> n"
    using length_filter_le [of "\<lambda>i. m ! i \<noteq> NegInf" S] S(2) by simp
  have keys: "map (\<lambda>j. K ! j) ?order = J @ replicate pad (length row)"
  proof -
    have "map (\<lambda>j. K ! j) ?order = sort K"
      using sorted_values [of K] unfolding K(1) S(2) .
    also have "\<dots> = J @ replicate pad (length row)"
    proof -
      have "\<forall>i \<in> set S. i < length row"
        using S(1) by blast
      then show ?thesis
        using sort_with_sentinel [of S "length row" "\<lambda>i. m ! i \<noteq> NegInf"]
        unfolding K_def kept(2) [symmetric] len pad_def J_def S(2) by simp
    qed
    finally show ?thesis .
  qed
  have J_row: "i < length row" "m ! i = row ! i" if "i \<in> set J" for i
    using that sup(1) sup(2) [of i] by (auto simp: J_def survivors_def)
  have valid: "map (\<lambda>x. x \<noteq> length row) (J @ replicate pad (length row)) = replicate (length J) True @ replicate pad False"
    using J_row by (auto simp: map_replicate_const [symmetric] intro!: map_cong)
  have logits: "map2 (\<lambda>b x. if b then x else NegInf) (replicate (length J) True @ replicate pad False)
      (map (\<lambda>j. map (\<lambda>i. row ! i) S ! j) ?order) = map (\<lambda>i. m ! i) J @ replicate pad NegInf"
  proof (rule nth_equalityI)
    fix q
    assume "q < length (map2 (\<lambda>b x. if b then x else NegInf) (replicate (length J) True @ replicate pad False)
      (map (\<lambda>j. map (\<lambda>i. row ! i) S ! j) ?order))"
    then have q: "q < n"
      using S(2) by simp
    show "map2 (\<lambda>b x. if b then x else NegInf) (replicate (length J) True @ replicate pad False)
      (map (\<lambda>j. map (\<lambda>i. row ! i) S ! j) ?order) ! q = (map (\<lambda>i. m ! i) J @ replicate pad NegInf) ! q"
    proof (cases "q < length J")
      case True
      have "?order ! q \<in> set ?order"
        using q S(2) by (intro nth_mem) simp
      then have o: "?order ! q < n"
        using S(2) by simp
      have "K ! (?order ! q) = J ! q"
        using keys True q S(2) nth_map [of q ?order "\<lambda>j. K ! j"] by (simp add: nth_append)
      moreover have "J ! q < length row" "m ! (J ! q) = row ! (J ! q)"
        using J_row True by simp_all
      ultimately have "S ! (?order ! q) = J ! q"
        using o S(2) by (simp add: K_def split: if_splits)
      then show ?thesis
        using True o q S(2) \<open>m ! (J ! q) = row ! (J ! q)\<close> J_le by (simp add: nth_append pad_def J_def)
    next
      case False
      then show ?thesis
        using q S(2) J_le by (simp add: nth_append pad_def J_def)
    qed
  qed (use S(2) J_le in \<open>simp add: pad_def J_def\<close>)
  have last: "(J @ replicate pad (length row)) ! (length (filter id (replicate (length J) True @ replicate pad False)) - 1) = last J"
    using kept(3) by (simp add: nth_append last_conv_nth)
  have tokens: "map2 (\<lambda>b x. if b then x else last J) (replicate (length J) True @ replicate pad False) (J @ replicate pad (length row)) =
      J @ replicate pad (last J)"
    by (rule nth_equalityI) (auto simp: nth_append)
  show "compact_row (take n (stable_desc row)) (Some (int k)) row =
    \<lparr>cp_keys = J @ replicate pad (length row), cp_logits = map (\<lambda>i. m ! i) J @ replicate pad NegInf,
     cp_token_ids = J @ replicate pad (last J)\<rparr>"
    unfolding compact_row_def S_def [symmetric] Let_def option.case slot thr length_map
    unfolding map_map comp_def kept(1) [unfolded Let_def] K(2) keys valid last tokens
    unfolding logits ..
qed

text \<open>What the code relies on: masked logits have no mass and do not change the mass of the others, and
  adding zero changes no sum.\<close>

fun spread :: "logit list \<Rightarrow> f64 list \<Rightarrow> f64 list" where
  "spread [] ps = []"
| "spread (x # xs) ps = (if x = NegInf then Fin 0 0 # spread xs ps else hd ps # spread xs (tl ps))"

definition softmax_law :: "(logit list \<Rightarrow> f64 list) \<Rightarrow> (f64 \<Rightarrow> f64 \<Rightarrow> f64) \<Rightarrow> bool" where
  "softmax_law sm add \<longleftrightarrow>
     (\<forall>xs. length (sm xs) = length xs \<and> sm xs = spread xs (sm (filter (\<lambda>x. x \<noteq> NegInf) xs))) \<and> (\<forall>x. add x (Fin 0 0) = x)"

lemma softmax_lawD:
  assumes "softmax_law sm add"
  shows "length (sm xs) = length xs" "sm xs = spread xs (sm (filter (\<lambda>x. x \<noteq> NegInf) xs))" "\<forall>x. add x (Fin 0 0) = x"
  using assms unfolding softmax_law_def by blast+

lemma survivors_Cons: "survivors (x # m) = (if x = NegInf then [] else [0]) @ map Suc (survivors m)"
proof -
  have "[0..<length (x # m)] = 0 # map Suc [0..<length m]"
    by (simp add: upt_conv_Cons map_Suc_upt del: upt_Suc)
  then show ?thesis
    unfolding survivors_def by (simp add: filter_map comp_def)
qed

lemma survivors_values: "map (\<lambda>i. m ! i) (survivors m) = filter (\<lambda>x. x \<noteq> NegInf) m"
  by (induction m) (simp add: survivors_def, simp add: survivors_Cons comp_def)

lemma full_slot:
  assumes "\<forall>x. add x (Fin 0 0) = x"
  shows "length ps = length (survivors m) \<Longrightarrow> f64_lt a u \<Longrightarrow> q = length (takeWhile (\<lambda>c. f64_lt c u) (cumsum add a ps)) \<Longrightarrow>
    length (takeWhile (\<lambda>c. f64_lt c u) (cumsum add a (spread m ps))) = (if q < length ps then survivors m ! q else length m)"
proof (induction m arbitrary: ps a q)
  case Nil
  then show ?case
    by (simp add: survivors_def)
next
  case (Cons x m)
  show ?case
  proof (cases "x = NegInf")
    case True
    have len: "length ps = length (survivors m)"
      using Cons.prems(1) True by (simp add: survivors_Cons)
    then show ?thesis
      using Cons.IH [OF len Cons.prems(2,3)] Cons.prems True assms by (simp add: survivors_Cons Let_def)
  next
    case False
    then obtain p ps' where ps: "ps = p # ps'" "length ps' = length (survivors m)"
      using Cons.prems(1) by (cases ps) (simp_all add: survivors_Cons)
    show ?thesis
    proof (cases "f64_lt (add a p) u")
      case True
      then show ?thesis
        using Cons.IH [OF ps(2) True refl] Cons.prems False ps by (simp add: survivors_Cons Let_def)
    next
      case no: False
      then show ?thesis
        using Cons.prems False ps by (simp add: survivors_Cons Let_def)
    qed
  qed
qed

lemma cumsum_zeros:
  "\<forall>x. add x (Fin 0 0) = x \<Longrightarrow>
   cumsum add a (ps @ replicate n (Fin 0 0)) = cumsum add a ps @ replicate n (last (a # cumsum add a ps))"
proof (induction ps arbitrary: a)
  case Nil
  then show ?case
    by (induction n) (simp_all add: Let_def)
next
  case (Cons p ps)
  then show ?case
    by (simp add: Let_def)
qed

lemma cumsum_length: "length (cumsum add a ps) = length ps"
  by (induction ps arbitrary: a) (simp_all add: Let_def)

lemma spread_padded:
  "\<forall>x \<in> set xs. x \<noteq> NegInf \<Longrightarrow> length ps = length xs \<Longrightarrow> spread (xs @ replicate n NegInf) ps = ps @ replicate n (Fin 0 0)"
proof (induction xs arbitrary: ps)
  case Nil
  then show ?case
    by (induction n) simp_all
next
  case (Cons x xs)
  then show ?case
    by (cases ps) simp_all
qed

lemma takeWhile_short: "(\<exists>x \<in> set xs. \<not> P x) \<longleftrightarrow> length (takeWhile P xs) \<noteq> length xs"
  by (induction xs) auto

lemma compact_slot:
  assumes "\<forall>x. add x (Fin 0 0) = x" "ps \<noteq> []" "q = length (takeWhile (\<lambda>c. f64_lt c u) (cumsum add a ps))"
  shows "searchsorted (cumsum add a (ps @ replicate n (Fin 0 0))) u = (if q < length ps then q else length ps + n)"
proof (cases "q < length ps")
  case True
  then obtain c where "c \<in> set (cumsum add a ps)" "\<not> f64_lt c u"
    using assms(3) by (metis cumsum_length less_irrefl takeWhile_eq_all_conv)
  then show ?thesis
    using True assms(3) by (simp add: searchsorted_def cumsum_zeros [of add, OF assms(1)] takeWhile_append1)
next
  case False
  have "length (takeWhile (\<lambda>c. f64_lt c u) (cumsum add a ps)) \<le> length ps"
    using length_takeWhile_le [of "\<lambda>c. f64_lt c u" "cumsum add a ps"] by (simp add: cumsum_length)
  then have "takeWhile (\<lambda>c. f64_lt c u) (cumsum add a ps) = cumsum add a ps"
    using False assms(3) by (intro takeWhile_eq_all_conv [THEN iffD2] ballI)
      (metis cumsum_length le_antisym linorder_not_less set_takeWhileD takeWhile_eq_take take_all_iff)
  then have all: "\<forall>c \<in> set (cumsum add a ps). f64_lt c u"
    by (simp add: takeWhile_eq_all_conv)
  moreover have "last (a # cumsum add a ps) \<in> set (cumsum add a ps)"
    using assms(2) by (cases ps) (simp_all add: Let_def)
  ultimately have "takeWhile (\<lambda>c. f64_lt c u) (cumsum add a (ps @ replicate n (Fin 0 0))) = cumsum add a (ps @ replicate n (Fin 0 0))"
    unfolding cumsum_zeros [of add, OF assms(1)] takeWhile_eq_all_conv by (auto split: if_splits)
  then have "searchsorted (cumsum add a (ps @ replicate n (Fin 0 0))) u = length ps + n"
    by (simp only: searchsorted_def cumsum_length length_append length_replicate)
  then show ?thesis
    using False by simp
qed

lemma canonical_row:
  assumes "1 \<le> k" "k \<le> 50" "k \<le> int (length row)"
    and "apply_topk_topp_mask pc (Some [k]) None fast [row] = Inr [m]"
  shows "m = keep_argmax row (mask_at (kth (nat k) row) row)"
  using assms(4) masks_canonical [OF assms(1-3)]
  by (cases "case fast of None \<Rightarrow> True | Some b \<Rightarrow> b") (simp_all add: apply_topk_topp_mask_def Let_def split: option.splits)

lemma compact_is_masked_row_lib:
  assumes "1 \<le> k" "k \<le> 50" "k \<le> int (length row)" "\<forall>x \<in> set row. finite_logit x"
    and "stable_desc proof_row = stable_desc row" "apply_topk_topp_mask pc (Some [k]) None fast [row] = Inr [m]"
  shows "\<exists>pad. compact_row (take 50 (stable_desc proof_row)) (Some k) row =
    \<lparr>cp_keys = survivors m @ replicate pad (length row), cp_logits = filter (\<lambda>x. x \<noteq> NegInf) m @ replicate pad NegInf,
     cp_token_ids = survivors m @ replicate pad (last (survivors m))\<rparr> \<and>
    length (survivors m) + pad = min 50 (length row) \<and> survivors m \<noteq> []"
proof -
  define n where "n = min 50 (length row)"
  have n: "1 \<le> nat k" "nat k \<le> n" "n \<le> length row"
    using assms(1-3) by (auto simp: n_def)
  have m: "m = keep_argmax row (mask_at (kth (nat k) row) row)"
    using canonical_row [OF assms(1-3,6)] .
  have S: "take 50 (stable_desc proof_row) = take n (stable_desc row)"
    using assms(5) by (cases "length row \<le> 50") (simp_all add: n_def stable_desc_set)
  show ?thesis
    using compact_row_eq [OF n assms(4), folded m] kept_survivors(3) [OF n assms(4), folded m] assms(1)
    unfolding S survivors_values by (intro exI [of _ "n - length (survivors m)"]) (simp add: n_def [symmetric])
qed

text \<open>The compact distribution is the masked row without its masked entries: the surviving tokens in the order of their ids
  with the logits the mask leaves them, then padding that carries no mass and stands for the last of them.\<close>

lemma compact_is_masked_row:
  assumes "1 \<le> k" "k \<le> 50" "k \<le> int (length row)" "\<forall>x \<in> set row. finite_logit x"
    and "stable_desc proof_row = stable_desc row" "apply_topk_topp_mask pc (Some [k]) None fast [row] = Inr [m]"
  shows "\<exists>pad. compact_row (take 50 (stable_desc proof_row)) (Some k) row =
    \<lparr>cp_keys = survivors m @ replicate pad (length row), cp_logits = filter (\<lambda>x. x \<noteq> NegInf) m @ replicate pad NegInf,
     cp_token_ids = survivors m @ replicate pad (last (survivors m))\<rparr> \<and>
    length (survivors m) + pad = min 50 (length row) \<and> survivors m \<noteq> []"
  by (rule compact_is_masked_row_lib [OF assms])


section \<open>The snapshot\<close>

text \<open>\<^verbatim>\<open>torch.topk(n)\<close>: indices of the \<open>n\<close> largest values, in descending order of the values; equal values come in any order.\<close>

definition topk_law :: "(nat \<Rightarrow> logit list \<Rightarrow> nat list) \<Rightarrow> bool" where
  "topk_law topk \<longleftrightarrow> (\<forall>n row. n \<le> length row \<longrightarrow>
     distinct (topk n row) \<and> set (topk n row) \<subseteq> {..<length row} \<and> map (\<lambda>i. row ! i) (topk n row) = take n (rev (sort row)))"

lemma topk_lawD:
  assumes "topk_law topk" "n \<le> length row"
  shows "distinct (topk n row)" "set (topk n row) \<subseteq> {..<length row}" "map (\<lambda>i. row ! i) (topk n row) = take n (rev (sort row))"
    "length (topk n row) = n"
proof -
  show *: "distinct (topk n row)" "set (topk n row) \<subseteq> {..<length row}" "map (\<lambda>i. row ! i) (topk n row) = take n (rev (sort row))"
    using assms unfolding topk_law_def by blast+
  show "length (topk n row) = n"
    using arg_cong [OF *(3), of length] assms(2) by simp
qed

lemma outside_head:
  assumes "distinct H" "set H \<subseteq> {..<length row}" "map (\<lambda>i. row ! i) H = take n (rev (sort row))" "1 \<le> n" "n \<le> length row"
    and "b < length row" "b \<notin> set H"
  shows "row ! b \<le> kth n row"
proof -
  define R where "R = filter (\<lambda>i. i \<notin> set H) [0..<length row]"
  have "set [0..<length row] = set (H @ R)" "distinct (H @ R)"
    using assms(1,2) by (auto simp: R_def)
  then have "mset [0..<length row] = mset (H @ R)"
    by (metis distinct_upt set_eq_iff_mset_eq_distinct)
  then have "mset (map (\<lambda>i. row ! i) [0..<length row]) = mset (map (\<lambda>i. row ! i) (H @ R))"
    by (simp only: mset_map)
  then have "mset row = mset (take n (rev (sort row))) + mset (map (\<lambda>i. row ! i) R)"
    by (simp add: map_nth assms(3))
  moreover have "mset row = mset (take n (rev (sort row))) + mset (drop n (rev (sort row)))"
    by (metis append_take_drop_id mset_append mset_rev mset_sort)
  ultimately have "mset (map (\<lambda>i. row ! i) R) = mset (drop n (rev (sort row)))"
    by (metis add_left_imp_eq)
  then have "set (map (\<lambda>i. row ! i) R) = set (drop n (rev (sort row)))"
    by (rule mset_eq_setD)
  moreover have "row ! b \<in> set (map (\<lambda>i. row ! i) R)"
    using assms(6,7) by (auto simp: R_def)
  ultimately have "row ! b \<in> set (drop n (rev (sort row)))"
    by simp
  then obtain p where "p < length row - n" "row ! b = rev (sort row) ! (n + p)"
    by (auto simp: in_set_conv_nth)
  then have p: "n + p < length row" "row ! b = rev (sort row) ! (n + p)"
    by simp_all
  have "sort row ! (length row - Suc (n + p)) \<le> sort row ! (length row - n)"
    using assms(4) p(1) by (intro sorted_nth_mono) simp_all
  then show ?thesis
    using p by (simp add: kth_def rev_nth)
qed

lemma resort_head_eq:
  assumes "distinct H" "set H \<subseteq> {..<length row}" "map (\<lambda>i. row ! i) H = take n (rev (sort row))" "n \<le> length row"
    and "50 \<le> n" "kth n row < kth 50 row"
  shows "take 50 (resort_head row H) = take 50 (stable_desc row)"
proof -
  let ?lex = "\<lambda>i. (negate (row ! i), i)"
  have lenH: "length H = n"
    using arg_cong [OF assms(3), of length] assms(4) by simp
  have lex: "resort_head row H = sort_key ?lex (sort H)"
    unfolding resort_head_def by (rule sort_key_lex) (use assms(1) in simp_all)
  have "take 50 (sort_key ?lex [0..<length row]) = take 50 (sort_key ?lex (sort H))"
  proof (rule take_sort_key)
    show "set (sort H) \<subseteq> set [0..<length row]"
      using assms(2) by auto
    show "?lex a < ?lex b" if ab: "a \<in> set (take 50 (sort_key ?lex (sort H)))" "b \<in> set [0..<length row]" "b \<notin> set (sort H)" for a b
    proof -
      have "map (\<lambda>i. row ! i) (resort_head row H) = rev (sort (map (\<lambda>i. row ! i) H))"
        unfolding resort_head_def by (subst desc_values_of) (simp add: sort_map_sort)
      also have "\<dots> = take n (rev (sort row))"
      proof -
        have "sort (take n (rev (sort row))) = rev (take n (rev (sort row)))"
          by (rule properties_for_sort) (simp_all add: take_rev sorted_wrt_drop)
        then show ?thesis
          by (simp add: assms(3))
      qed
      finally have vals: "map (\<lambda>i. row ! i) (resort_head row H) = take n (rev (sort row))" .
      obtain p where p: "p < 50" "p < n" "resort_head row H ! p = a"
        using ab(1) lenH unfolding lex [symmetric] by (auto simp: in_set_conv_nth resort_head_def)
      have "row ! a = kth (p + 1) row"
        using arg_cong [OF vals, of "\<lambda>xs. xs ! p"] p assms(4) lenH by (simp add: kth_def rev_nth resort_head_def)
      moreover have "kth 50 row \<le> kth (p + 1) row"
        using p assms(4,5) by (intro kth_antimono) simp_all
      moreover have "row ! b \<le> kth n row"
        using outside_head [OF assms(1-3) _ assms(4)] ab assms(5) by simp
      ultimately have "row ! b < row ! a"
        using assms(6) by simp
      then have "negate (row ! a) < negate (row ! b)"
        using negate_le [of "row ! b" "row ! a"] by (simp add: not_le [symmetric])
      then show ?thesis
        by (simp add: less_prod_def)
    qed
  qed (use assms(1,5) lenH in \<open>simp_all add: lex_inj\<close>)
  then show ?thesis
    unfolding lex stable_desc_lex by simp
qed

text \<open>C16: The snapshot the sampler takes from an unordered top-2000 is the reference snapshot from the full stable sort, and its
  logsumexp and first three bucket means are the reference ones: for a vocabulary of at least 20 tokens that is not
  exactly 2000, when fewer than 78 further logits equal the 50th.\<close>

lemma snapshot_agrees:
  assumes "topk_law topk" "20 \<le> length row" "2000 < length row \<longrightarrow> kth 128 row < kth 50 row"
  shows "proof_snapshot row = Inr (forward_snapshot topk row) \<and>
    (length row \<noteq> 2000 \<longrightarrow>
       take 4 (forward_stats topk mean tail overall lse row) = take 4 (proof_stats mean lse row))"
proof (cases "2000 < length row")
  case True
  note T = topk_lawD [OF assms(1), of 2000 row]
  have n: "2000 \<le> length row"
    using True by simp
  have vals: "map (\<lambda>i. row ! i) (topk 2000 row) = take 2000 (map (\<lambda>i. row ! i) (stable_desc row))"
    unfolding desc_values using T(3) [OF n] .
  have "take 50 (resort_head row (take 128 (topk 2000 row))) = take 50 (stable_desc row)"
  proof (rule resort_head_eq [where n = 128])
    show "map (\<lambda>i. row ! i) (take 128 (topk 2000 row)) = take 128 (rev (sort row))"
      using arg_cong [OF T(3) [OF n], of "take 128"] by (simp add: take_map)
    show "set (take 128 (topk 2000 row)) \<subseteq> {..<length row}"
      using T(2) [OF n] set_take_subset [of 128 "topk 2000 row"] by blast
  qed (use T(1) [OF n] True assms(3) in simp_all)
  moreover have "length row div 20 \<noteq> 0" "max (length row div 20) 1 = length row div 20"
    using True by (simp_all add: max_def div_greater_zero_iff)
  moreover have "slice a b (take 2000 xs) = slice a b xs" if "b \<le> 2000" for a b :: nat and xs :: "logit list"
    using that by (simp add: slice_def min_def)
  ultimately show ?thesis
    using True by (simp add: proof_snapshot_def forward_snapshot_def forward_stats_def proof_stats_def Let_def vals)
next
  case False
  have "1 \<le> length row div 20"
    using div_le_mono [OF assms(2), of 20] by simp
  then have "length row div 20 \<noteq> 0" "max (length row div 20) 1 = length row div 20"
    by simp_all
  then show ?thesis
    using False by (simp add: proof_snapshot_def forward_snapshot_def forward_stats_def proof_stats_def Let_def)
qed

text \<open>With exactly 2000 tokens the third bucket of the sampler stays zero.\<close>

lemma third_bucket_at_2000:
  assumes "length row = 2000"
  shows "forward_stats topk mean tail overall lse row ! 3 = Fin 0 0"
    "proof_stats mean lse row ! 3 = mean (drop 500 (map (\<lambda>i. row ! i) (stable_desc row)))"
  using assms by (simp_all add: forward_stats_def proof_stats_def Let_def slice_def stable_desc_set)

section \<open>Finite logits\<close>

text \<open>C17: After the replacement every logit of the proof is finite when every row has a finite one: a finite logit is unchanged, and an
  infinite one of either sign becomes the least finite logit of its row.\<close>

lemma proof_logits_finite:
  assumes "\<forall>row \<in> set P. \<exists>x \<in> set row. finite_logit x" "r < length P" "i < length (P ! r)"
  shows "finite_logit (fst (fix_logits P L) ! r ! i) \<and>
    (if finite_logit (P ! r ! i) then fst (fix_logits P L) ! r ! i = P ! r ! i
     else fst (fix_logits P L) ! r ! i \<in> set (P ! r) \<and> (\<forall>x \<in> set (P ! r). finite_logit x \<longrightarrow> fst (fix_logits P L) ! r ! i \<le> x))"
proof (cases "\<exists>row \<in> set P. \<exists>x \<in> set row. \<not> finite_logit x")
  case True
  obtain x where "x \<in> set (P ! r)" "finite_logit x"
    using assms(1,2) by force
  note row_min_finite [OF this]
  then show ?thesis
    using True assms(2,3) row_min_least [of _ "P ! r"] by (simp add: fix_logits_def replace_inf_def)
next
  case False
  then have "finite_logit (P ! r ! i)"
    using assms(2,3) by (meson nth_mem)
  then show ?thesis
    using False by (simp add: fix_logits_def)
qed

section \<open>Witnesses\<close>

definition dyadic_add :: "f64 \<Rightarrow> f64 \<Rightarrow> f64" where
  "dyadic_add x y = (if y = Fin 0 0 then x else
     case (x, y) of (Fin m e, Fin n f) \<Rightarrow> Fin (m * 2 ^ nat (e - min e f) + n * 2 ^ nat (f - min e f)) (min e f) | _ \<Rightarrow> NaN)"

definition quarters :: "logit list \<Rightarrow> f64 list" where
  "quarters xs = map (\<lambda>x. if x = NegInf then Fin 0 0 else Fin 1 (- 2)) xs"

lemma quarters_law: "softmax_law quarters dyadic_add"
proof -
  have "quarters xs = spread xs (quarters (filter (\<lambda>x. x \<noteq> NegInf) xs))" for xs
    by (induction xs) (simp_all add: quarters_def)
  moreover have "length (quarters xs) = length xs" "dyadic_add x (Fin 0 0) = x" for xs x
    by (simp_all add: quarters_def dyadic_add_def)
  ultimately show ?thesis
    unfolding softmax_law_def by blast
qed

lemma support_fits_proof_witness:
  "\<exists>ms. apply_topk_topp_mask (\<lambda>xs. map (\<lambda>_. 0) xs) (Some [2]) (Some [1 / 2]) None [[Val 3, Val 1, Val 2]] = Inr ms \<and>
    length ms = length [[Val 3, Val 1, Val 2]] \<and>
    (\<forall>r < length [[Val 3, Val 1, Val 2]]. \<forall>i < length ([[Val 3, Val 1, Val 2]] ! r). ms ! r ! i \<noteq> NegInf \<longrightarrow>
       ms ! r ! i = [[Val 3, Val 1, Val 2]] ! r ! i \<and>
       (\<forall>sn. proof_snapshot ([[Val 6, Val 2, Val 4]] ! r) = Inr sn \<longrightarrow> i \<in> set (take 50 (sn_indices sn)))) \<and>
    (\<forall>r < length [[Val 3, Val 1, Val 2]]. ms ! r ! argmax ([[Val 3, Val 1, Val 2]] ! r) = [[Val 3, Val 1, Val 2]] ! r ! argmax ([[Val 3, Val 1, Val 2]] ! r))"
proof -
  have "stable_desc [Val 6, Val 2, Val 4] = stable_desc [Val 3, Val 1, Val 2]"
    by (simp add: stable_desc_def upt_rec)
  then have order: "\<forall>r < length [[Val 3, Val 1, Val 2]]. stable_desc ([[Val 6, Val 2, Val 4]] ! r) = stable_desc ([[Val 3, Val 1, Val 2]] ! r)"
    by simp
  have k: "canonical_k [2] [[Val 3, Val 1, Val 2]]"
    by (simp add: canonical_k_def)
  have fin: "\<forall>row \<in> set [[Val 3, Val 1, Val 2]]. \<forall>x \<in> set row. finite_logit x"
    by simp
  have p: "Some [1 / 2 :: rat] = None \<or> (\<exists>ps. Some [1 / 2] = Some ps \<and> (length ps = 1 \<or> length ps = length [[Val 3, Val 1, Val 2]]))"
    by simp
  show ?thesis
    by (rule support_fits_proof [OF k fin p order])
qed

lemma demo_masked:
  "apply_topk_topp_mask (\<lambda>xs. []) (Some [4]) None None [[Val 3, Val 1, Val 2, Val 2]] = Inr [[Val 3, NegInf, Val 2, Val 2]]"
  by (simp add: apply_topk_topp_mask_def mask_fast_def stable_desc_def upt_rec gather_def TOPK_CAP_def keep_argmax_def)

lemma demo_order: "stable_desc [Val 6, Val 2, Val 4, Val 4] = stable_desc [Val 3, Val 1, Val 2, Val 2]"
  by (simp add: stable_desc_def upt_rec)

lemma compact_is_masked_row_witness:
  "\<exists>pad. compact_row (take 50 (stable_desc [Val 6, Val 2, Val 4, Val 4])) (Some 4) [Val 3, Val 1, Val 2, Val 2] =
    \<lparr>cp_keys = survivors [Val 3, NegInf, Val 2, Val 2] @ replicate pad (length [Val 3, Val 1, Val 2, Val 2]),
     cp_logits = filter (\<lambda>x. x \<noteq> NegInf) [Val 3, NegInf, Val 2, Val 2] @ replicate pad NegInf,
     cp_token_ids = survivors [Val 3, NegInf, Val 2, Val 2] @ replicate pad (last (survivors [Val 3, NegInf, Val 2, Val 2]))\<rparr> \<and>
    length (survivors [Val 3, NegInf, Val 2, Val 2]) + pad = min 50 (length [Val 3, Val 1, Val 2, Val 2]) \<and>
    survivors [Val 3, NegInf, Val 2, Val 2] \<noteq> []"
  by (rule compact_is_masked_row [OF _ _ _ _ demo_order demo_masked]) simp_all

lemma demo_positive: "f64_lt (Fin 0 0) (digest_to_u [0, 0, 0, 128])"
proof -
  have u: "isfinite (digest_to_u [0, 0, 0, 128])" "from_le [0, 0, 0, 128 :: byte] = 2 ^ 31"
    by (simp_all add: digest_to_u_eq from_le_def)
  have "0 < dval (digest_to_u [0, 0, 0, 128])"
  proof -
    have "\<bar>dval (digest_to_u [0, 0, 0, 128]) - 1 / 2\<bar> \<le> 1 / 2 ^ 25"
      using digest_to_u_near [of "[0, 0, 0, 128]"] u(2) by simp
    moreover have "1 / 2 ^ 25 < (1 / 2 :: real)"
      by simp
    ultimately show ?thesis
      by linarith
  qed
  then show ?thesis
    using f64_le_dval [of "Fin 0 0" "digest_to_u [0, 0, 0, 128]"] f64_le_dval [of "digest_to_u [0, 0, 0, 128]" "Fin 0 0"] u(1)
    by (simp add: f64_lt_def)
qed


lemma stable_topk: "topk_law (\<lambda>n row. take n (stable_desc row))"
  unfolding topk_law_def
proof (intro allI impI conjI)
  show "set (take n (stable_desc row)) \<subseteq> {..<length row}" for n row
    using set_take_subset [of n "stable_desc row"] by (simp add: stable_desc_set)
qed (simp_all add: stable_desc_set desc_values flip: take_map)

lemma snapshot_agrees_witness:
  "proof_snapshot (map (\<lambda>i. Val (rat_of_nat i)) [0..<3000]) =
     Inr (forward_snapshot (\<lambda>n row. take n (stable_desc row)) (map (\<lambda>i. Val (rat_of_nat i)) [0..<3000])) \<and>
   take 4 (forward_stats (\<lambda>n row. take n (stable_desc row)) (\<lambda>_. Fin 1 0) (\<lambda>_ _. NaN) (\<lambda>_. NaN) (Fin 3 0) (map (\<lambda>i. Val (rat_of_nat i)) [0..<3000])) =
      take 4 (proof_stats (\<lambda>_. Fin 1 0) (Fin 3 0) (map (\<lambda>i. Val (rat_of_nat i)) [0..<3000]))"
proof -
  let ?row = "map (\<lambda>i. Val (rat_of_nat i)) [0..<3000]"
  have "sort ?row = ?row"
    by (rule sorted_sort_id) (simp add: sorted_wrt_map sorted_wrt_iff_nth_less)
  then have tail: "2000 < length ?row \<longrightarrow> kth 128 ?row < kth 50 ?row"
    by (simp add: kth_def less_logit_def)
  have len: "20 \<le> length ?row" "length ?row \<noteq> 2000"
    by simp_all
  note agrees = snapshot_agrees [OF stable_topk len(1) tail, of "\<lambda>_. Fin 1 0" "\<lambda>_ _. NaN" "\<lambda>_. NaN" "Fin 3 0"]
  show ?thesis
    by (rule conjI [OF conjunct1 [OF agrees] mp [OF conjunct2 [OF agrees] len(2)]])
qed

lemma proof_logits_finite_witness:
  "finite_logit (fst (fix_logits [[Val 1, NegInf, PosInf, Val 0]] []) ! 0 ! 2) \<and>
    (if finite_logit ([[Val 1, NegInf, PosInf, Val 0]] ! 0 ! 2)
     then fst (fix_logits [[Val 1, NegInf, PosInf, Val 0]] []) ! 0 ! 2 = [[Val 1, NegInf, PosInf, Val 0]] ! 0 ! 2
     else fst (fix_logits [[Val 1, NegInf, PosInf, Val 0]] []) ! 0 ! 2 \<in> set ([[Val 1, NegInf, PosInf, Val 0]] ! 0) \<and>
       (\<forall>x \<in> set ([[Val 1, NegInf, PosInf, Val 0]] ! 0). finite_logit x \<longrightarrow>
          fst (fix_logits [[Val 1, NegInf, PosInf, Val 0]] []) ! 0 ! 2 \<le> x))"
  by (rule proof_logits_finite) simp_all

end
