(* ===== verification/Forward.thy ===== *)
theory Forward
  imports Admission Proofs Masking
begin

text \<open>
  \<^verbatim>\<open>PowTopKTopPSampler._pow_forward\<close> (\<^verbatim>\<open>topk_topp_sampler.py\<close>) as a whole: one step of a batch, from the
  logits to the drawn tokens, the recorded slots and the finished windows.  It composes the operations of
  the other theories in the order of the code.  The log of the two CDF paths is left out.
\<close>

section \<open>Steps that may raise\<close>

type_synonym ('s, 'a) run = "'s \<Rightarrow> 's \<times> 'a res"

definition run_bind :: "('s, 'a) run \<Rightarrow> ('a \<Rightarrow> ('s, 'b) run) \<Rightarrow> ('s, 'b) run" where
  "run_bind f g s = (case f s of (s, Inl e) \<Rightarrow> (s, Inl e) | (s, Inr x) \<Rightarrow> g x s)"

definition run_act :: "'s act \<Rightarrow> ('s, unit) run" where
  "run_act f s = (case f s of (s, None) \<Rightarrow> (s, Inr ()) | (s, Some e) \<Rightarrow> (s, Inl e))"

definition run_get :: "('s \<Rightarrow> 'a res) \<Rightarrow> ('s, 'a) run" where
  "run_get f s = (s, f s)"

text \<open>A step on the sampler, and one on the hasher, of a miner.\<close>

definition on_sampler :: "(sampler, 'a) run \<Rightarrow> (miner, 'a) run" where
  "on_sampler f mn = (case f (mn_sampler mn) of (s, r) \<Rightarrow> (mn\<lparr>mn_sampler := s\<rparr>, r))"

definition on_hasher :: "(pow_hasher, 'a) run \<Rightarrow> (miner, 'a) run" where
  "on_hasher f mn = (case f (mn_hasher mn) of (h, r) \<Rightarrow> (mn\<lparr>mn_hasher := h\<rparr>, r))"

section \<open>The metadata of a batch\<close>

record pow_data = payload +
  pd_audit_emit :: "bool option"

record extra =
  ea_req_id :: "string option"
  ea_pad_id :: "int option"
  ea_completion_id :: "string option"
  ea_request_item_id :: "string option"
  ea_pow :: "pow_data option"

record metadata =
  md_extra_args :: "(nat \<times> extra) list option"
  md_prompt_token_ids :: "int list list option"
  md_temperature :: "f64 list"
  md_top_p :: "f64 list option"
  md_top_k :: "int list option"
  md_repetition_penalties :: "f64 list"

text \<open>\<^verbatim>\<open>metadata.extra_args[i]\<close> where the code first tests that there is one.\<close>

definition extra_at :: "metadata \<Rightarrow> nat \<Rightarrow> extra option" where
  "extra_at md i = Option.bind (md_extra_args md) (\<lambda>ea. map_of ea i)"

definition dummy_id :: "nat \<Rightarrow> string" where
  "dummy_id i = ''dummy-'' @ int_text (int i)"

definition stable_req_ids :: "metadata \<Rightarrow> nat \<Rightarrow> string list res" where
  "stable_req_ids md B =
     mapr (\<lambda>i. case extra_at md i of None \<Rightarrow> Inr (dummy_id i) | Some x \<Rightarrow> key (ea_req_id x)) [0..<B]"

definition safe_prompt_tokens :: "metadata \<Rightarrow> nat \<Rightarrow> int list res" where
  "safe_prompt_tokens md i = (case md_prompt_token_ids md of
      None \<Rightarrow> Inr []
    | Some ps \<Rightarrow>
        if length ps \<le> i then Inl IndexError
        else (case md_extra_args md of
            None \<Rightarrow> Inl TypeError
          | Some ea \<Rightarrow>
              rbind (key (map_of ea i)) (\<lambda>x. rbind (key (ea_pad_id x)) (\<lambda>pad. Inr (filter (\<lambda>t. t \<noteq> pad) (ps ! i))))))"

section \<open>Registering new sequences\<close>

text \<open>The snapshot of a request; an empty dictionary counts as no request.\<close>

definition pow_given :: "pow_data \<Rightarrow> bool" where
  "pow_given p \<longleftrightarrow> payload.truncate p \<noteq>
     \<lparr>pl_block_hash = None, pl_vdf = None, pl_tick = None, pl_request_id = None, pl_target = None, pl_share_target = [],
      pl_difficulty = None, pl_header_prefix = None, pl_ipfs_cid = None\<rparr> \<or> pd_audit_emit p \<noteq> None"

definition job_of_payload :: "pow_data \<Rightarrow> job res" where
  "job_of_payload p =
     rbind (key (pl_tick p)) (\<lambda>tick.
     rbind (key (pl_request_id p)) (\<lambda>request_id.
     rbind (key (pl_difficulty p)) (\<lambda>difficulty.
     rbind (key (pl_block_hash p)) (\<lambda>block_hash.
     rbind (key (pl_vdf p)) (\<lambda>vdf.
     rbind (key (pl_target p)) (\<lambda>target.
     rbind (key (pl_header_prefix p)) (\<lambda>header_prefix.
       Inr \<lparr>ps_tick = Some tick, ps_request_id = request_id, ps_header_prefix = header_prefix, ps_vdf = vdf,
            ps_block_hash = block_hash, ps_target = target, ps_share_target = pl_share_target p,
            job_difficulty = Some difficulty, job_ipfs_cid = pl_ipfs_cid p, job_audit_emit = (pd_audit_emit p = Some True)\<rparr>)))))))"

text \<open>\<^verbatim>\<open>x or y\<close> on optional strings.\<close>

definition or_else :: "string option \<Rightarrow> string \<Rightarrow> string" where
  "or_else x y = (case x of None \<Rightarrow> y | Some v \<Rightarrow> if v = [] then y else v)"

definition new_params :: "extra option \<Rightarrow> string \<Rightarrow> seq_params res" where
  "new_params x rid =
     (let completion_id = or_else (Option.bind x ea_completion_id) rid;
          item = Option.bind x ea_request_item_id
      in rbind (case Option.bind x ea_pow of
             None \<Rightarrow> Inr None
           | Some p \<Rightarrow> if pow_given p then rbind (job_of_payload p) (\<lambda>j. Inr (Some j)) else Inr None) (\<lambda>snap.
         Inr \<lparr>sp_temperature = None, sp_top_p = None, sp_top_k = None, sp_repetition_penalty = None,
              sp_completion_id = or_else (Some (or_else item completion_id)) rid,
              sp_request_item_id = or_else item rid, sp_base_completion_id = completion_id, sp_snapshot = snap\<rparr>))"

text \<open>The rows of the batch whose sequence is new, in order; their sampling parameters are filled later.\<close>

fun register :: "metadata \<Rightarrow> (nat \<times> nat \<times> string) list \<Rightarrow> (sampler, (nat \<times> nat) list) run" where
  "register md [] s = (s, Inr [])"
| "register md ((i, sid, rid) # rest) s =
     (if map_of (sm_params s) sid \<noteq> None then register md rest s
      else (case new_params (extra_at md i) rid of
          Inl e \<Rightarrow> (s, Inl e)
        | Inr ps \<Rightarrow>
            (case register md rest (s\<lparr>sm_params := AList.update sid ps (sm_params s)\<rparr>) of
               (s, r) \<Rightarrow> (s, rbind r (\<lambda>pending. Inr ((sid, i) # pending))))))"

text \<open>The deferred fill.  \<open>V\<close> is the width of the logits.\<close>

definition pick :: "'a list \<Rightarrow> nat \<Rightarrow> 'a res" where
  "pick xs i = (if i < length xs then Inr (xs ! i) else Inl IndexError)"

definition float_true :: "f64 \<Rightarrow> bool" where
  "float_true x = (\<not> (f64_le x (Fin 0 0) \<and> f64_le (Fin 0 0) x))"

definition fill_params :: "metadata \<Rightarrow> nat \<Rightarrow> (nat \<times> nat) list \<Rightarrow> (sampler, unit) run" where
  "fill_params md V pending s =
     (if pending = [] then (s, Inr ())
      else
        (case mapr (\<lambda>(sid, i).
             rbind (pick (md_temperature md) i) (\<lambda>t.
             rbind (case md_top_p md of None \<Rightarrow> Inr (Fin 1 0) | Some ps \<Rightarrow> pick ps i) (\<lambda>p.
             rbind (case md_top_k md of None \<Rightarrow> Inr (int V) | Some ks \<Rightarrow> pick ks i) (\<lambda>k.
             rbind (pick (md_repetition_penalties md) i) (\<lambda>r.
               Inr (sid, t, p, k, if float_true r then r else Fin 1 0)))))) pending of
           Inl e \<Rightarrow> (s, Inl e)
         | Inr vals \<Rightarrow>
             (s\<lparr>sm_params := fold (\<lambda>(sid, t, p, k, r) pm. case map_of pm sid of
                   None \<Rightarrow> pm
                 | Some ps \<Rightarrow> AList.update sid (ps\<lparr>sp_temperature := Some t, sp_top_p := Some p, sp_top_k := Some k,
                                                sp_repetition_penalty := Some r\<rparr>) pm) vals (sm_params s)\<rparr>, Inr ())))"

section \<open>The distribution of a batch\<close>

text \<open>What rounds is a parameter.\<close>

record numerics =
  nu_topk :: "nat \<Rightarrow> logit list \<Rightarrow> nat list"
  nu_softmax :: "logit list \<Rightarrow> f64 list"
  nu_add :: "f64 \<Rightarrow> f64 \<Rightarrow> f64"
  nu_prev_cum :: "logit list \<Rightarrow> rat list"
  nu_logsumexp :: "logit list \<Rightarrow> f64"
  nu_mean :: "logit list \<Rightarrow> f64"
  nu_tail :: "logit list \<Rightarrow> logit list \<Rightarrow> f64"
  nu_overall :: "logit list \<Rightarrow> f64"
  nu_value :: "logit \<Rightarrow> f64"

definition is_one :: "f64 \<Rightarrow> bool" where
  "is_one x = (f64_le x (Fin 1 0) \<and> f64_le (Fin 1 0) x)"

definition can_use_compact_cdf :: "bool \<Rightarrow> sampler \<Rightarrow> nat list \<Rightarrow> bool" where
  "can_use_compact_cdf enabled s seq_ids =
     (enabled \<and> list_all (\<lambda>sid. case map_of (sm_params s) sid of
        None \<Rightarrow> False
      | Some ps \<Rightarrow>
          (case sp_top_p ps of None \<Rightarrow> True | Some p \<Rightarrow> is_one p) \<and>
          (case sp_top_k ps of None \<Rightarrow> True | Some k \<Rightarrow> 1 \<le> k \<and> k \<le> 50) \<and>
          (case sp_repetition_penalty ps of None \<Rightarrow> True | Some r \<Rightarrow> is_one r)) seq_ids)"

text \<open>A finite double as a fraction, for the comparison of \<^verbatim>\<open>top_p\<close>; not-a-number and infinity compare as 1.\<close>

fun f64_rat :: "f64 \<Rightarrow> rat" where
  "f64_rat (Fin m e) = (if 0 \<le> e then of_int m * 2 ^ nat e else of_int m / 2 ^ nat (- e))"
| "f64_rat (Inf s) = (if s then 0 else 1)"
| "f64_rat NaN = 1"

record dist =
  di_cdf :: "f64 list"
  di_compact :: "compact option"
  di_normalizer :: f64

definition compact_dists :: "numerics \<Rightarrow> int list option \<Rightarrow> snapshot list \<Rightarrow> logit list list \<Rightarrow> dist list res" where
  "compact_dists nu top_k snaps logits =
     (case top_k of
        Some ks \<Rightarrow>
          if length ks \<noteq> 1 \<and> length ks \<noteq> length logits then Inl RuntimeError
          else Inr (map2 (\<lambda>k (sn, row). let c = compact_row (take 50 (sn_indices sn)) (Some k) row
                  in \<lparr>di_cdf = cdf_of (nu_softmax nu) (nu_add nu) (cp_logits c), di_compact = Some c,
                      di_normalizer = nu_logsumexp nu (cp_logits c)\<rparr>)
                (if length ks = 1 then replicate (length logits) (hd ks) else ks) (zip snaps logits))
      | None \<Rightarrow>
          Inr (map2 (\<lambda>sn row. let c = compact_row (take 50 (sn_indices sn)) None row
                in \<lparr>di_cdf = cdf_of (nu_softmax nu) (nu_add nu) (cp_logits c), di_compact = Some c,
                    di_normalizer = nu_logsumexp nu (cp_logits c)\<rparr>) snaps logits))"

definition full_dists :: "numerics \<Rightarrow> int list option \<Rightarrow> f64 list option \<Rightarrow> logit list list \<Rightarrow> dist list res" where
  "full_dists nu top_k top_p logits =
     rbind (if top_p \<noteq> None \<or> top_k \<noteq> None
            then apply_topk_topp_mask (nu_prev_cum nu) top_k (map_option (map f64_rat) top_p) None logits
            else Inr logits) (\<lambda>masked.
       Inr (map (\<lambda>m. \<lparr>di_cdf = cdf_of (nu_softmax nu) (nu_add nu) m, di_compact = None,
                     di_normalizer = nu_logsumexp nu m\<rparr>) masked))"

section \<open>One batch\<close>

text \<open>What a batch is: the logits after temperature, those before it, and the metadata.\<close>

record batch_in =
  bi_logits :: "logit list list"
  bi_pre_temp :: "logit list list option"
  bi_meta :: metadata

text \<open>Sequence ids, new parameters, and the shared job from the first request that has one.\<close>

definition first_pow :: "metadata \<Rightarrow> nat \<Rightarrow> pow_data option" where
  "first_pow md B = (case List.map_filter (\<lambda>i. Option.bind (extra_at md i) ea_pow) [0..<B] of [] \<Rightarrow> None | p # _ \<Rightarrow> Some p)"

definition forward_register :: "metadata \<Rightarrow> nat \<Rightarrow> (miner, nat list \<times> (nat \<times> nat) list) run" where
  "forward_register md B =
     run_bind (run_get (\<lambda>_. stable_req_ids md B)) (\<lambda>rids.
     run_bind (on_sampler (\<lambda>s. case assign_sids rids s of (s, sids) \<Rightarrow> (s, Inr sids))) (\<lambda>seq_ids.
     run_bind (on_sampler (register md (zip [0..<B] (zip seq_ids rids)))) (\<lambda>pending.
     run_bind (case first_pow md B of
         None \<Rightarrow> run_get (\<lambda>_. Inr ())
       | Some p \<Rightarrow> on_hasher (run_act (update_from_payload (payload.truncate p)))) (\<lambda>_.
     run_get (\<lambda>_. Inr (seq_ids, pending))))))"

text \<open>The prompts of the sequences without a row, and a row for every sequence.\<close>

definition prompt_map :: "metadata \<Rightarrow> nat list \<Rightarrow> sampler \<Rightarrow> (nat \<times> int list) list res" where
  "prompt_map md seq_ids s =
     rbind (mapr (\<lambda>(i, sid). rbind (safe_prompt_tokens md i) (\<lambda>ts. Inr (sid, ts)))
             (filter (\<lambda>(i, sid). get_row (sm_rows s) sid = None) (zip [0..<length seq_ids] seq_ids))) (\<lambda>ps.
       Inr (fold (\<lambda>(sid, ts) m. AList.update sid ts m) ps []))"

definition allocated_rows :: "nat list \<Rightarrow> sampler \<Rightarrow> nat list res" where
  "allocated_rows seq_ids s =
     mapr (\<lambda>sid. case get_row (sm_rows s) sid of None \<Rightarrow> Inl RuntimeError | Some r \<Rightarrow> Inr r) seq_ids"

definition forward_allocate :: "metadata \<Rightarrow> int \<Rightarrow> nat list \<Rightarrow> (sampler, nat list) run" where
  "forward_allocate md now seq_ids =
     run_bind (run_get (prompt_map md seq_ids)) (\<lambda>prompts.
     run_bind (run_act (forward_rows now prompts seq_ids)) (\<lambda>_.
     run_get (allocated_rows seq_ids)))"

text \<open>
  The draw: window positions, contexts, admission at the window boundaries, then the tokens.  A missing
  precision raises before the admission here.
\<close>

definition forward_draw ::
    "admission \<Rightarrow> nat list \<Rightarrow> nat list \<Rightarrow> dist list \<Rightarrow> (miner, (nat \<times> f64 \<times> byte list) list) run" where
  "forward_draw a seq_ids rows dists =
     run_bind (run_get (\<lambda>mn. case pw_compute_precision (mn_proofs mn) of None \<Rightarrow> Inl AttributeError | Some p \<Rightarrow> Inr p)) (\<lambda>prec.
     run_bind (on_sampler (run_get (\<lambda>s. get_positions (sm_rb s) rows))) (\<lambda>steps.
     run_bind (on_sampler (run_get (\<lambda>s. get_context_windows s seq_ids))) (\<lambda>contexts.
     run_bind (on_sampler (run_act (ensure_admission_for_rows a seq_ids (map Some rows) steps contexts prec))) (\<lambda>_ mn.
       on_hasher (batch_sample_tokens (Some (sm_rb (mn_sampler mn), rows)) (Some rows) None contexts (map int steps)
         (map di_cdf dists) prec) mn))))"

text \<open>The slots of a batch.\<close>

definition slot_of ::
    "numerics \<Rightarrow> bool \<Rightarrow> snapshot \<Rightarrow> f64 list \<Rightarrow> dist \<Rightarrow> nat \<times> f64 \<times> byte list \<Rightarrow> slot" where
  "slot_of nu flip sn stats d = (\<lambda>(pos, u, digest).
     \<lparr>chosen_token = int (token_of_slot (di_compact d) pos), chosen_prob = di_cdf d ! pos,
      topk_logits = map (nu_value nu) (sn_logits sn), topk_indices = map int (sn_indices sn), sampling_u = u,
      softmax_normalizer = di_normalizer d, logsumexp_stats = stats, attention_mask = flip\<rparr>)"

text \<open>Recording a batch: positions, caches, slots, step counters.\<close>

definition forward_record ::
    "bool \<Rightarrow> int \<Rightarrow> nat list \<Rightarrow> nat list \<Rightarrow> int list \<Rightarrow> (bool \<Rightarrow> slot list) \<Rightarrow> (sampler, unit) run" where
  "forward_record debug now seq_ids rows tokens slots =
     run_bind (run_get (\<lambda>s. get_positions (sm_rb s) rows)) (\<lambda>pos.
     run_bind (update_caches debug now seq_ids tokens) (\<lambda>flip.
     run_bind (run_act (on_rb (write_buffers pos rows (slots flip)))) (\<lambda>_.
     run_act (on_rb (increment_steps rows (Some rows))))))"

text \<open>After the record: end of text, the finished windows in order, stale sequences.\<close>

fun process_all ::
    "bool \<Rightarrow> py_env \<Rightarrow> f64 \<Rightarrow> (nat \<times> nat) list \<Rightarrow> (miner, cpp_call list) run" where
  "process_all cpp e stamp [] mn = (mn, Inr [])"
| "process_all cpp e stamp ((sid, row) # rest) mn =
     (case process_solution cpp e stamp sid row mn of
        (mn, Some err, c) \<Rightarrow> (mn, Inl err)
      | (mn, None, c) \<Rightarrow>
          (case process_all cpp e stamp rest mn of
             (mn, r) \<Rightarrow> (mn, rbind r (\<lambda>cs. Inr (case c of None \<Rightarrow> cs | Some call \<Rightarrow> call # cs)))))"

definition forward_finish ::
    "bool \<Rightarrow> py_env \<Rightarrow> f64 \<Rightarrow> int \<Rightarrow> nat list \<Rightarrow> int list \<Rightarrow> (miner, cpp_call list) run" where
  "forward_finish cpp e stamp now seq_ids tokens =
     run_bind (on_sampler (run_act (check_eos seq_ids tokens))) (\<lambda>_.
     run_bind (on_sampler (run_get (\<lambda>s. check_pow_solutions s seq_ids))) (\<lambda>windows.
     run_bind (process_all cpp e stamp windows) (\<lambda>calls.
     run_bind (on_sampler (run_act (cleanup_stale_sequences now 300 60))) (\<lambda>_.
     run_get (\<lambda>_. Inr calls)))))"

text \<open>
  The logits of the batch: \<open>proof\<close> the ones the proof records.  The distribution is chosen with the
  parameters of the sequences as they are before the deferred fill.
\<close>

definition batch_logits :: "batch_in \<Rightarrow> logit list list \<times> logit list list" where
  "batch_logits bi = fix_logits (case bi_pre_temp bi of None \<Rightarrow> bi_logits bi | Some l \<Rightarrow> l) (bi_logits bi)"

definition forward_dists ::
    "bool \<Rightarrow> numerics \<Rightarrow> metadata \<Rightarrow> nat list \<Rightarrow> snapshot list \<Rightarrow> logit list list \<Rightarrow> (sampler, dist list) run" where
  "forward_dists compact_on nu md seq_ids snaps logits =
     run_get (\<lambda>s. if can_use_compact_cdf compact_on s seq_ids then compact_dists nu (md_top_k md) snaps logits
                  else full_dists nu (md_top_k md) (md_top_p md) logits)"

record settings =
  fs_admission :: admission
  fs_numerics :: numerics
  fs_compact :: bool
  fs_debug :: bool
  fs_cpp :: bool
  fs_env :: py_env

definition forward_step ::
    "settings \<Rightarrow> int \<Rightarrow> batch_in \<Rightarrow> (miner, nat list \<times> int list) run" where
  "forward_step fs now bi =
     (let (proof, logits) = batch_logits bi; nu = fs_numerics fs; md = bi_meta bi;
          B = length (bi_logits bi); V = (case logits of [] \<Rightarrow> 0 | row # _ \<Rightarrow> length row);
          snaps = map (forward_snapshot (nu_topk nu)) proof;
          stats = map2 (\<lambda>lrow prow. forward_stats (nu_topk nu) (nu_mean nu) (nu_tail nu) (nu_overall nu)
                    (nu_logsumexp nu lrow) prow) logits proof
      in run_bind (forward_register md B) (\<lambda>(seq_ids, pending).
         run_bind (on_sampler (forward_allocate md now seq_ids)) (\<lambda>rows.
         run_bind (on_sampler (forward_dists (fs_compact fs) nu md seq_ids snaps logits)) (\<lambda>dists.
         run_bind (forward_draw (fs_admission fs) seq_ids rows dists) (\<lambda>draws.
         let tokens = map2 (\<lambda>d (pos, u, dg). int (token_of_slot (di_compact d) pos)) dists draws
         in run_bind (on_sampler (fill_params md V pending)) (\<lambda>_.
            run_bind (on_sampler (forward_record (fs_debug fs) now seq_ids rows tokens
               (\<lambda>flip. map2 (\<lambda>(sn, st) (d, dr). slot_of nu flip sn st d dr) (zip snaps stats) (zip dists draws)))) (\<lambda>_.
            run_get (\<lambda>_. Inr (seq_ids, tokens)))))))))"

definition pow_forward ::
    "settings \<Rightarrow> int \<Rightarrow> f64 \<Rightarrow> batch_in \<Rightarrow> (miner, int list \<times> cpp_call list) run" where
  "pow_forward fs now stamp bi =
     run_bind (forward_step fs now bi) (\<lambda>(seq_ids, tokens).
     run_bind (forward_finish (fs_cpp fs) (fs_env fs) stamp now seq_ids tokens) (\<lambda>calls.
     run_get (\<lambda>_. Inr (tokens, calls))))"

end
