(* ===== verification/Replay.thy ===== *)
theory Replay
  imports Forward AdmissionFacts
begin

text \<open>
  The replay of recorded steps: what a row holds of its job, what its ring holds of the tokens of its
  sequence, and that every operation of a step keeps it.
\<close>

section \<open>Jobs\<close>

definition decodes_to :: "(byte list \<Rightarrow> bool) \<Rightarrow> string \<Rightarrow> bool" where
  "decodes_to P s = (case hex_to_bytes_tensor s of Inl _ \<Rightarrow> False | Inr bs \<Rightarrow> P bs)"

lemma decodes_toE: "decodes_to P s \<Longrightarrow> \<exists>bs. hex_to_bytes_tensor s = Inr bs \<and> P bs"
  by (simp add: decodes_to_def split: sum.splits)

text \<open>A job the buffers can hold: every field decodes, the header, the VDF and the tick fit, the target is long enough.\<close>

definition job_decodes :: "job \<Rightarrow> bool" where
  "job_decodes j \<longleftrightarrow> ps_tick j \<noteq> None \<and> decodes_to (\<lambda>h. length h \<le> 76) (ps_header_prefix j) \<and>
     decodes_to (\<lambda>v. length v \<le> 1024) (ps_vdf j) \<and> decodes_to (\<lambda>bh. length bh = 32) (ps_block_hash j) \<and>
     decodes_to (\<lambda>t. 32 \<le> length t) (ps_target j) \<and> decodes_to (\<lambda>_. True) (norm64 (ps_target j)) \<and>
     decodes_to (\<lambda>_. True) (norm64 (ps_share_target j)) \<and> \<bar>the (ps_tick j)\<bar> < 2 ^ 32"

definition total_stage :: "rb_row act \<Rightarrow> bool" where
  "total_stage f \<longleftrightarrow> (\<forall>w. snd (f w) = None \<and> steps (fst (f w)) = steps w)"

lemma total_stage_then: "total_stage f \<Longrightarrow> total_stage g \<Longrightarrow> total_stage (act_then f g)"
  by (simp add: total_stage_def fst_act_then snd_act_then)

lemma truncate_simps:
  "ps_tick (pow_snapshot.truncate j) = ps_tick j" "ps_request_id (pow_snapshot.truncate j) = ps_request_id j"
  "ps_header_prefix (pow_snapshot.truncate j) = ps_header_prefix j" "ps_vdf (pow_snapshot.truncate j) = ps_vdf j"
  "ps_block_hash (pow_snapshot.truncate j) = ps_block_hash j" "ps_target (pow_snapshot.truncate j) = ps_target j"
  "ps_share_target (pow_snapshot.truncate j) = ps_share_target j"
  by (simp_all add: pow_snapshot.defs)

lemma job_stages_total:
  assumes "job_decodes j"
  shows "total_stage (write_header (pow_snapshot.truncate j))" "total_stage (write_vdf (pow_snapshot.truncate j))"
    "total_stage (write_target (pow_snapshot.truncate j))" "total_stage (write_share_target (pow_snapshot.truncate j))"
    "total_stage (write_block_hash (pow_snapshot.truncate j))"
  using assms unfolding job_decodes_def
  by (auto simp: total_stage_def write_header_def write_vdf_def write_target_def write_share_target_def write_block_hash_def
      act_let_def act_pure_def truncate_simps Let_def dest!: decodes_toE)

lemma job_written:
  assumes "job_decodes j" "in_range b r"
  shows "\<exists>w. write_pow_params r (Some (pow_snapshot.truncate j)) b = (b\<lparr>rb_rows := (rb_rows b)[r := w]\<rparr>, None) \<and>
    steps w = steps (rb_rows b ! r) \<and> pow_valid w"
proof -
  obtain t where t: "ps_tick j = Some t"
    using assms(1) by (auto simp: job_decodes_def)
  define p where "p = pow_snapshot.truncate j"
  define g where "g = act_then (write_header p) (act_then (write_vdf p) (act_then (write_target p)
      (act_then (write_share_target p) (write_block_hash p))))"
  define f where "f = (\<lambda>w :: rb_row. w\<lparr>pow_tick := t, pow_request_id := ps_request_id p, pow_header_len_host := 0, pow_vdf_len_host := 0\<rparr>)"
  have "total_stage g"
    unfolding g_def p_def by (intro total_stage_then job_stages_total [OF assms(1)])
  then have g: "snd (g w) = None" "steps (fst (g w)) = steps w" for w
    by (simp_all add: total_stage_def)
  let ?w = "(fst (g (f (rb_rows b ! r))))\<lparr>pow_valid := True\<rparr>"
  have run: "act_then (act_pure f) (act_then (write_header p) (act_then (write_vdf p) (act_then (write_target p)
      (act_then (write_share_target p) (act_then (write_block_hash p) (act_pure (\<lambda>w. w\<lparr>pow_valid := True\<rparr>))))))) =
      act_then (act_pure f) (act_then g (act_pure (\<lambda>w. w\<lparr>pow_valid := True\<rparr>)))"
    unfolding g_def by (simp only: act_then_assoc)
  have "act_then (act_pure f) (act_then g (act_pure (\<lambda>w. w\<lparr>pow_valid := True\<rparr>))) (rb_rows b ! r) = (?w, None)"
    using g by (simp add: prod_eq_iff fst_act_then snd_act_then act_pure_def)
  then have "write_pow_params r (Some p) b = (b\<lparr>rb_rows := (rb_rows b)[r := ?w]\<rparr>, None)"
  proof -
    have tick: "ps_tick p = Some t"
      by (simp add: p_def truncate_simps t)
    show ?thesis
      using assms(2) \<open>act_then _ _ _ = _\<close> unfolding write_pow_params_def on_row_def option.case tick act_let_def sum.case f_def [symmetric] run
      by simp
  qed
  moreover have "steps ?w = steps (rb_rows b ! r)"
    by (simp add: g f_def)
  ultimately show ?thesis
    unfolding p_def by auto
qed

text \<open>The header, the VDF and the tick of a job, and the row that holds them.\<close>

definition job_parts :: "job \<Rightarrow> (byte list \<times> byte list \<times> int) res" where
  "job_parts j = rbind (final_header j) (\<lambda>h. rbind (hex_to_bytes_tensor (ps_vdf j)) (\<lambda>v. rbind (key (ps_tick j)) (\<lambda>t. Inr (h, v, t))))"

definition row_parts :: "rb_row \<Rightarrow> byte list \<times> byte list \<times> int" where
  "row_parts w = (take (pow_header_len w) (pow_header w), take (pow_vdf_len w) (pow_vdf w), pow_tick w)"

definition holds_job :: "job \<Rightarrow> rb_row \<Rightarrow> bool" where
  "holds_job j w \<longleftrightarrow> pow_valid w \<and> job_parts j = Inr (row_parts w)"

lemma job_held:
  assumes "job_decodes j" "in_range b r"
  shows "\<exists>w. write_pow_params r (Some (pow_snapshot.truncate j)) b = (b\<lparr>rb_rows := (rb_rows b)[r := w]\<rparr>, None) \<and>
    steps w = steps (rb_rows b ! r) \<and> holds_job j w"
proof -
  obtain w where w: "write_pow_params r (Some (pow_snapshot.truncate j)) b = (b\<lparr>rb_rows := (rb_rows b)[r := w]\<rparr>, None)"
    "steps w = steps (rb_rows b ! r)" "pow_valid w"
    using job_written [OF assms] by blast
  obtain t h v bh tb where d: "ps_tick j = Some t" "hex_to_bytes_tensor (ps_header_prefix j) = Inr h" "length h \<le> 76"
    "hex_to_bytes_tensor (ps_vdf j) = Inr v" "length v \<le> 1024" "hex_to_bytes_tensor (ps_block_hash j) = Inr bh" "length bh = 32"
    "hex_to_bytes_tensor (ps_target j) = Inr tb"
    using assms(1) unfolding job_decodes_def by (auto dest!: decodes_toE)
  have "row_job (pow_snapshot.truncate j) (if h = [] then bh else h) v t w"
    using written_row [OF w(1) assms(2), of t h v bh] d assms(2) by (simp add: truncate_simps in_range_def)
  moreover have "final_header j = Inr (if h = [] then bh else h)"
    using d by (cases "ps_header_prefix j = []") (auto simp: final_header_def)
  ultimately show ?thesis
    using w d by (auto simp: holds_job_def job_parts_def row_parts_def row_job_def key_def)
qed

section \<open>Seats\<close>

text \<open>
  A recorded step replays: its uniform number is the one drawn from the digest of the step message of
  the job over the tokens before it.
\<close>

definition replays :: "string \<Rightarrow> job \<Rightarrow> byte list option \<Rightarrow> int list \<Rightarrow> nat \<Rightarrow> slot \<Rightarrow> bool" where
  "replays prec j nonce hist step sl =
     (case rbind (job_parts j) (\<lambda>(h, v, t). build_step_message h v t (int step) hist prec nonce POW_WINDOW_SIZE) of
        Inl _ \<Rightarrow> False
      | Inr m \<Rightarrow> sampling_u sl = digest_to_u (sha256 m))"

definition row_nonce :: "rb_row \<Rightarrow> byte list option" where
  "row_nonce w = (if pow_admission_valid w then Some (pow_admission_nonce w) else None)"

text \<open>The steps of the window a row is in, each over the tokens its sequence had then.\<close>

definition window_start :: "nat \<Rightarrow> nat" where
  "window_start n = 256 * ((n - 1) div 256)"

definition row_replays :: "string \<Rightarrow> job \<Rightarrow> rb_row \<Rightarrow> int list \<Rightarrow> bool" where
  "row_replays prec j w hist \<longleftrightarrow> steps w \<le> length hist \<and>
     (\<forall>q \<in> set [window_start (steps w)..<steps w].
        (let k = length hist - (steps w - q); sl = ring w ! (q mod 256)
         in replays prec j (row_nonce w) (take k hist) (q mod 256) sl \<and> chosen_token sl = hist ! k))"

definition cache_ok :: "nat \<Rightarrow> seq_cache \<Rightarrow> bool" where
  "cache_ok N c \<longleftrightarrow> cache_good 256 (archive_list c) c \<and> list_all i64_ok (archive_list c) \<and> length (archive_list c) \<le> N"

text \<open>What belongs to a sequence with a row.\<close>

definition seat :: "string \<Rightarrow> nat \<Rightarrow> seq_params option \<Rightarrow> seq_cache option \<Rightarrow> rb_row \<Rightarrow> bool" where
  "seat prec N ops oc w = (case (Option.bind ops sp_snapshot, oc) of
      (Some j, Some c) \<Rightarrow> cache_ok N c \<and> holds_job j w \<and> row_replays prec j w (archive_list c)
    | _ \<Rightarrow> False)"

definition seat_of :: "string \<Rightarrow> nat \<Rightarrow> sampler \<Rightarrow> nat \<Rightarrow> nat \<Rightarrow> bool" where
  "seat_of prec N s sid r = seat prec N (map_of (sm_params s) sid) (map_of (sm_caches s) sid) (rb_rows (sm_rb s) ! r)"

text \<open>The sampler between two steps; \<open>N\<close> bounds the archives.\<close>

definition core :: "sampler \<Rightarrow> bool" where
  "core s \<longleftrightarrow> pool_ok s \<and> rb_ok (sm_rb s) \<and> sm_window s = 256 \<and> window_size (sm_rb s) = 256 \<and>
     (\<forall>sid ps. map_of (sm_params s) sid = Some ps \<longrightarrow> (case sp_snapshot ps of None \<Rightarrow> False | Some j \<Rightarrow> job_decodes j))"

definition sampler_ok :: "string \<Rightarrow> nat \<Rightarrow> sampler \<Rightarrow> bool" where
  "sampler_ok prec N s \<longleftrightarrow> core s \<and> (\<forall>sid r. get_row (sm_rows s) sid = Some r \<longrightarrow> seat_of prec N s sid r)"

lemma seatE:
  assumes "seat_of prec N s sid r"
  obtains ps j c where "map_of (sm_params s) sid = Some ps" "sp_snapshot ps = Some j" "map_of (sm_caches s) sid = Some c"
    "cache_ok N c" "holds_job j (rb_rows (sm_rb s) ! r)" "row_replays prec j (rb_rows (sm_rb s) ! r) (archive_list c)"
  using assms by (auto simp: seat_of_def seat_def bind_eq_Some_conv split: option.splits)

lemma core_jobs_ok:
  assumes "core s"
  shows "jobs_ok s"
  unfolding jobs_ok_def
proof (intro allI impI)
  fix sid ps j and b :: ring_buffers and r
  assume "map_of (sm_params s) sid = Some ps" "sp_snapshot ps = Some j" "in_range b r"
  moreover from this assms have "job_decodes j"
    by (force simp: core_def)
  ultimately show "snd (write_pow_params r (Some (pow_snapshot.truncate j)) b) = None"
    using job_held [of j b r] by auto
qed

lemma core_row: "core s \<Longrightarrow> get_row (sm_rows s) sid = Some r \<Longrightarrow> in_range (sm_rb s) r"
  using get_row_bound [of "sm_rows s" sid r] by (auto simp: core_def pool_ok_def in_range_def)

lemma core_rows_distinct:
  "core s \<Longrightarrow> get_row (sm_rows s) a = Some r \<Longrightarrow> get_row (sm_rows s) b = Some r \<Longrightarrow> a = b"
  using get_row_inj [of "sm_rows s" a r b] by (auto simp: core_def pool_ok_def)

lemma fresh_replays: "steps w = 0 \<Longrightarrow> row_replays prec j w hist"
  by (simp add: row_replays_def window_start_def)

lemma cache_ok_fresh: "list_all i64_ok prompt \<Longrightarrow> length prompt \<le> N \<Longrightarrow> cache_ok N (fresh_cache 256 now prompt)"
  using cache_good_fresh [of 256 prompt now] by (simp add: cache_ok_def cache_good_def)

section \<open>Releasing\<close>

lemma clear_row_window: "window_size (fst (clear_row r b)) = window_size b"
  by (cases r) (simp_all add: clear_row_def on_row_frame)

lemma free_sequence_window: "sm_window (fst (free_sequence sid s)) = sm_window s"
  by (simp add: free_sequence_def fst_act_then split: prod.split)

lemma free_sequence_ok:
  assumes "sampler_ok prec N s"
  shows "sampler_ok prec N (fst (free_sequence sid s))"
proof -
  let ?s = "fst (free_sequence sid s)"
  have core: "core s"
    using assms by (simp add: sampler_ok_def)
  then have "pool_ok s"
    by (simp add: core_def)
  note spec = free_sequence_spec [OF this, of sid]
  have "core ?s"
    using core spec free_sequence_window [of sid s]
    by (auto simp: core_def clear_row_ok clear_row_window delete_conv split: if_splits)
  moreover have "seat_of prec N ?s k r" if "get_row (sm_rows ?s) k = Some r" for k r
  proof -
    have k: "k \<noteq> sid" "get_row (sm_rows s) k = Some r"
      using that spec by (auto simp: get_free split: if_splits)
    then have "rb_rows (sm_rb ?s) ! r = rb_rows (sm_rb s) ! r"
      using free_other_row [OF \<open>pool_ok s\<close> k(2), of sid] by blast
    then show ?thesis
      using assms k spec by (simp add: sampler_ok_def seat_of_def delete_conv)
  qed
  ultimately show ?thesis
    by (simp add: sampler_ok_def)
qed

lemma free_all_ok: "sampler_ok prec N s \<Longrightarrow> sampler_ok prec N (fst (act_each free_sequence xs s))"
proof (induction xs arbitrary: s)
  case (Cons x xs)
  have "pool_ok s"
    using Cons.prems by (simp add: sampler_ok_def core_def)
  then have "snd (free_sequence x s) = None"
    using free_sequence_spec by blast
  then show ?case
    using Cons.IH [OF free_sequence_ok [OF Cons.prems]] by (simp add: fst_act_then)
qed simp

section \<open>Allocating\<close>

lemma setup_row_seats:
  assumes "core s" "get_row (sm_rows s) sid = Some row" "map_of (sm_params s) sid \<noteq> None"
    and "map_of prompts sid = Some prompt" "list_all i64_ok prompt" "length prompt \<le> N"
    and "\<And>k r. k \<noteq> sid \<Longrightarrow> get_row (sm_rows s) k = Some r \<Longrightarrow> seat_of prec N s k r"
  shows "sampler_ok prec N (fst (setup_row now prompts sid row s))"
proof -
  obtain ps j where ps: "map_of (sm_params s) sid = Some ps" "sp_snapshot ps = Some j" "job_decodes j"
    using assms(1,3) by (force simp: core_def split: option.splits)
  have range: "in_range (sm_rb s) row"
    using core_row [OF assms(1,2)] .
  let ?b = "(sm_rb s)\<lparr>rb_rows := (rb_rows (sm_rb s))[row := zero_row (rb_rows (sm_rb s) ! row)]\<rparr>"
  have clear: "clear_row (Some row) (sm_rb s) = (?b, None)"
    using range by (simp add: clear_row_def on_row_def act_pure_def)
  have ok: "rb_ok ?b"
    using clear_row_ok [of "sm_rb s" "Some row"] assms(1) by (simp add: clear core_def)
  have range': "in_range ?b row"
    using range by (simp add: in_range_def)
  obtain w where w: "write_pow_params row (Some (pow_snapshot.truncate j)) ?b = (?b\<lparr>rb_rows := (rb_rows ?b)[row := w]\<rparr>, None)"
    "steps w = steps (rb_rows ?b ! row)" "holds_job j w"
    using job_held [OF ps(3) range'] by blast
  have zero: "steps (rb_rows ?b ! row) = 0" "\<not> pow_valid (rb_rows ?b ! row)"
    using range by (simp_all add: in_range_def zero_row_def)
  have ok': "rb_ok (?b\<lparr>rb_rows := (rb_rows ?b)[row := w]\<rparr>)"
    using write_pow_params_ok [OF ok, of "Some (pow_snapshot.truncate j)" row] zero(2) by (simp only: w(1) fst_conv) simp
  let ?s = "fst (setup_row now prompts sid row s)"
  have s: "?s = s\<lparr>sm_rb := (sm_rb s)\<lparr>rb_rows := (rb_rows (sm_rb s))[row := w]\<rparr>,
      sm_caches := AList.update sid (fresh_cache (sm_window s) now prompt) (sm_caches s)\<rparr>"
    using w(1) by (simp add: setup_row_def on_rb_def clear fst_act_then snd_act_then assms(4) key_def ps(1,2)
        init_sequence_cache_def act_let_def act_pure_def)
  have "core ?s"
    using assms(1) ok' unfolding s by (simp add: core_def pool_ok_def)
  moreover have "seat_of prec N ?s k r" if "get_row (sm_rows ?s) k = Some r" for k r
  proof (cases "k = sid")
    case True
    then have "r = row"
      using that assms(2) by (simp add: s)
    then show ?thesis
      using True ps range w zero(1) assms(1,5,6) cache_ok_fresh [OF assms(5), of N now]
      by (simp add: seat_of_def seat_def s update_Some_unfold update_conv in_range_def fresh_replays core_def)
  next
    case False
    have k: "get_row (sm_rows s) k = Some r"
      using that by (simp add: s)
    then have "r \<noteq> row"
      using core_rows_distinct [OF assms(1) _ assms(2), of k] False by auto
    then show ?thesis
      using assms(7) [OF False k] False by (simp add: seat_of_def s update_conv)
  qed
  ultimately show ?thesis
    by (simp add: sampler_ok_def)
qed

definition prompts_ok :: "nat \<Rightarrow> (nat \<times> int list) list \<Rightarrow> bool" where
  "prompts_ok N prompts \<longleftrightarrow> list_all (\<lambda>(sid, ts). list_all i64_ok ts \<and> length ts \<le> N) prompts"

lemma prompts_okD: "prompts_ok N prompts \<Longrightarrow> map_of prompts sid = Some ts \<Longrightarrow> list_all i64_ok ts \<and> length ts \<le> N"
  by (auto simp: prompts_ok_def list_all_iff dest!: map_of_SomeD)

lemma ensure_row_seats:
  assumes "sampler_ok prec N s" "map_of (sm_params s) sid \<noteq> None" "prompts_ok N prompts"
    and "get_row (sm_rows s) sid = None \<longrightarrow> free_rows (sm_rows s) \<noteq> [] \<and> map_of prompts sid \<noteq> None"
  shows "sampler_ok prec N (fst (ensure_row now prompts sid s)) \<and> sm_params (fst (ensure_row now prompts sid s)) = sm_params s"
proof (cases "get_row (sm_rows s) sid")
  case (Some r)
  then show ?thesis
    using assms(1) by (simp add: ensure_row_def)
next
  case None
  have core: "core s"
    using assms(1) by (simp add: sampler_ok_def)
  obtain r where r: "snd (allocate_row (sm_rows s) sid) = Some r"
    using allocate_free [OF None] None assms(4) by metis
  obtain prompt where p: "map_of prompts sid = Some prompt"
    using assms(4) None by auto
  let ?m = "fst (allocate_row (sm_rows s) sid)" and ?s = "s\<lparr>sm_rows := fst (allocate_row (sm_rows s) sid)\<rparr>"
  have rows: "get_row ?m k = (if k = sid then Some r else get_row (sm_rows s) k)" for k
    using r by (simp add: get_allocate)
  have "core ?s"
    using core allocate_ok [of "sm_rows s" sid] by (simp add: core_def pool_ok_def allocate_row_max)
  then have "sampler_ok prec N (fst (setup_row now prompts sid r ?s))"
  proof (rule setup_row_seats [where prompt = prompt])
    show "seat_of prec N ?s k r'" if "k \<noteq> sid" "get_row (sm_rows ?s) k = Some r'" for k r'
      using assms(1) that rows by (simp add: sampler_ok_def seat_of_def)
  qed (use assms(2) p rows prompts_okD [OF assms(3) p] in simp_all)
  moreover have "r < max_rows (sm_rows ?s)"
    using get_row_bound [of ?m sid r] rows \<open>core ?s\<close> by (simp add: core_def pool_ok_def)
  then have "sm_params (fst (setup_row now prompts sid r ?s)) = sm_params s"
    using setup_row_ok [of ?s r prompts sid now] \<open>core ?s\<close> core_jobs_ok [OF \<open>core ?s\<close>] p by (simp add: core_def)
  moreover have "ensure_row now prompts sid s = setup_row now prompts sid r ?s"
    using None r by (cases "allocate_row (sm_rows s) sid") (simp add: ensure_row_def try_allocate_def)
  ultimately show ?thesis
    by simp
qed

lemma ensure_rows_seats:
  assumes "sampler_ok prec N s" "prompts_ok N prompts" "length (new_sids batch (sm_rows s)) \<le> length (free_rows (sm_rows s))"
    "\<forall>sid \<in> set batch. map_of (sm_params s) sid \<noteq> None \<and> (get_row (sm_rows s) sid = None \<longrightarrow> map_of prompts sid \<noteq> None)"
  shows "sampler_ok prec N (fst (ensure_rows now prompts batch s)) \<and> sm_params (fst (ensure_rows now prompts batch s)) = sm_params s"
  using assms(1,3,4) unfolding ensure_rows_def
proof (induction batch arbitrary: s)
  case Nil
  then show ?case by simp
next
  case (Cons sid batch)
  let ?s = "fst (ensure_row now prompts sid s)"
  have core: "core s"
    using Cons.prems(1) by (simp add: sampler_ok_def)
  have free: "get_row (sm_rows s) sid = None \<longrightarrow> free_rows (sm_rows s) \<noteq> [] \<and> map_of prompts sid \<noteq> None"
  proof
    assume none: "get_row (sm_rows s) sid = None"
    then have "sid \<in> set (new_sids (sid # batch) (sm_rows s))"
      by (simp add: new_sids_def)
    then have "0 < length (new_sids (sid # batch) (sm_rows s))"
      by (rule length_pos_if_in_set)
    then show "free_rows (sm_rows s) \<noteq> [] \<and> map_of prompts sid \<noteq> None"
      using Cons.prems(2,3) none by auto
  qed
  note row = ensure_row_ok [OF _ core_jobs_ok [OF core] free, of now]
  have row: "snd (ensure_row now prompts sid s) = None" "get_row (sm_rows ?s) sid \<noteq> None"
    "\<forall>k. k \<noteq> sid \<or> get_row (sm_rows s) sid \<noteq> None \<longrightarrow> get_row (sm_rows ?s) k = get_row (sm_rows s) k"
    "length (free_rows (sm_rows s)) = length (free_rows (sm_rows ?s)) + (if get_row (sm_rows s) sid = None then 1 else 0)"
    using row core by (auto simp: core_def)
  have seats: "sampler_ok prec N ?s" "sm_params ?s = sm_params s"
    using ensure_row_seats [OF Cons.prems(1) _ assms(2) free] Cons.prems(3) by auto
  have "length (new_sids batch (sm_rows ?s)) \<le> length (free_rows (sm_rows ?s))"
    using new_sids_update [OF row(2,3), of batch] row(4) Cons.prems(2) by simp
  moreover have "\<forall>x \<in> set batch. map_of (sm_params ?s) x \<noteq> None \<and> (get_row (sm_rows ?s) x = None \<longrightarrow> map_of prompts x \<noteq> None)"
    using Cons.prems(3) row(2,3) seats(2) by (metis list.set_intros(2))
  ultimately show ?case
    using Cons.IH [OF seats(1)] seats(2) row(1) by (simp add: fst_act_then)
qed

lemma pre_evict_frees:
  assumes "pool_ok s"
  shows "\<exists>out. pre_evict batch s = act_each free_sequence out s \<and> set out \<inter> set batch = {}"
proof -
  let ?vs = "victims batch s"
  let ?order = "sort_key (\<lambda>v. fst (victim_rank s v)) (sort_key (\<lambda>v. snd (victim_rank s v)) ?vs)"
  have ok: "rm_ok (sm_rows s)" "length (rb_rows (sm_rb s)) = max_rows (sm_rows s)"
    using assms by (auto simp: pool_ok_def)
  have range: "\<not> (\<exists>(_, r) \<in> set ?vs. \<not> in_range (sm_rb s) r)"
    using get_row_bound [OF ok(1)] ok(2) by (auto simp: victims_def in_range_def get_row_Some_iff [OF ok(1)])
  have each: "act_each (\<lambda>v. free_sequence (fst v)) xs = act_each free_sequence (map fst xs)" for xs :: "(nat \<times> nat) list"
    by (induction xs) simp_all
  have out: "set (map fst (take n ?order)) \<inter> set batch = {}" for n
    using set_take_subset [of n ?order] by (force simp: victims_def)
  show ?thesis
  proof (cases "pre_evict batch s = (s, None)")
    case True
    then show ?thesis
      by (intro exI [of _ "[]"]) (simp add: act_pure_def)
  next
    case False
    then obtain n where "pre_evict batch s = act_each (\<lambda>v. free_sequence (fst v)) (take n ?order) s"
      using range by (auto simp: pre_evict_def Let_def split: if_splits)
    then show ?thesis
      using out each by metis
  qed
qed

lemma forward_rows_seats:
  assumes "sampler_ok prec N s" "prompts_ok N prompts" "card (set batch) \<le> max_rows (sm_rows s)"
    "\<forall>sid \<in> set batch. map_of (sm_params s) sid \<noteq> None \<and> (get_row (sm_rows s) sid = None \<longrightarrow> map_of prompts sid \<noteq> None)"
  shows "snd (forward_rows now prompts batch s) = None" "sampler_ok prec N (fst (forward_rows now prompts batch s))"
    "\<forall>sid \<in> set batch. get_row (sm_rows (fst (forward_rows now prompts batch s))) sid \<noteq> None"
    "\<forall>sid \<in> set batch. map_of (sm_params (fst (forward_rows now prompts batch s))) sid = map_of (sm_params s) sid"
proof -
  have core: "core s" and pool: "pool_ok s"
    using assms(1) by (simp_all add: sampler_ok_def core_def)
  note rows = forward_rows_ok [OF pool core_jobs_ok [OF core] assms(3), of prompts now]
  show "snd (forward_rows now prompts batch s) = None"
    "\<forall>sid \<in> set batch. get_row (sm_rows (fst (forward_rows now prompts batch s))) sid \<noteq> None"
    using rows assms(4) by blast+
  let ?s = "fst (pre_evict batch s)"
  note evict = pre_evict_ok [OF pool assms(3)]
  obtain out where out: "pre_evict batch s = act_each free_sequence out s" "set out \<inter> set batch = {}"
    using pre_evict_frees [OF pool] by blast
  have ok: "sampler_ok prec N ?s"
    unfolding out(1) by (rule free_all_ok [OF assms(1)])
  have params: "\<forall>sid \<in> set batch. map_of (sm_params ?s) sid = map_of (sm_params s) sid"
    using free_all [OF pool, of out] out(2) unfolding out(1) by auto
  have fw: "fst (forward_rows now prompts batch s) = fst (ensure_rows now prompts batch ?s)"
    using evict by (simp add: forward_rows_def fst_act_then)
  have "length (new_sids batch (sm_rows ?s)) \<le> length (free_rows (sm_rows ?s))"
    using evict by blast
  moreover have "\<forall>sid \<in> set batch. map_of (sm_params ?s) sid \<noteq> None \<and> (get_row (sm_rows ?s) sid = None \<longrightarrow> map_of prompts sid \<noteq> None)"
    using params assms(4) evict by auto
  ultimately have "sampler_ok prec N (fst (ensure_rows now prompts batch ?s)) \<and> sm_params (fst (ensure_rows now prompts batch ?s)) = sm_params ?s"
    by (rule ensure_rows_seats [OF ok assms(2)])
  then show "sampler_ok prec N (fst (forward_rows now prompts batch s))"
    "\<forall>sid \<in> set batch. map_of (sm_params (fst (forward_rows now prompts batch s))) sid = map_of (sm_params s) sid"
    using params by (simp_all add: fw)
qed

section \<open>Registering\<close>

definition ids_ok :: "sampler \<Rightarrow> bool" where
  "ids_ok s \<longleftrightarrow> inj_on (map_of (sm_req_ids s)) (dom (map_of (sm_req_ids s))) \<and>
     (\<forall>rid sid. map_of (sm_req_ids s) rid = Some sid \<longrightarrow> sid < sm_next_sid s)"

lemma assign_sids_spec:
  assumes "ids_ok s"
  shows "\<exists>ids n. fst (assign_sids rids s) = s\<lparr>sm_req_ids := ids, sm_next_sid := n\<rparr> \<and> ids_ok (fst (assign_sids rids s)) \<and>
    (\<forall>rid \<in> set rids. map_of ids rid \<noteq> None) \<and> (\<forall>rid sid. map_of (sm_req_ids s) rid = Some sid \<longrightarrow> map_of ids rid = Some sid) \<and>
    snd (assign_sids rids s) = map (\<lambda>rid. the (map_of ids rid)) rids"
  using assms
proof (induction rids arbitrary: s)
  case Nil
  then show ?case
    by (intro exI [of _ "sm_req_ids s"] exI [of _ "sm_next_sid s"]) simp
next
  case (Cons rid rids)
  show ?case
  proof (cases "map_of (sm_req_ids s) rid")
    case (Some sid)
    obtain ids n where ih: "fst (assign_sids rids s) = s\<lparr>sm_req_ids := ids, sm_next_sid := n\<rparr>" "ids_ok (fst (assign_sids rids s))"
      "\<forall>rid \<in> set rids. map_of ids rid \<noteq> None" "\<forall>rid sid. map_of (sm_req_ids s) rid = Some sid \<longrightarrow> map_of ids rid = Some sid"
      "snd (assign_sids rids s) = map (\<lambda>rid. the (map_of ids rid)) rids"
      using Cons.IH [OF Cons.prems] by blast
    then show ?thesis
      using Some by (intro exI [of _ ids] exI [of _ n]) (simp add: case_prod_beta)
  next
    case None
    let ?s = "s\<lparr>sm_req_ids := AList.update rid (sm_next_sid s) (sm_req_ids s), sm_next_sid := sm_next_sid s + 1\<rparr>"
    have "ids_ok ?s"
      unfolding ids_ok_def
    proof (intro conjI allI impI)
      show "inj_on (map_of (sm_req_ids ?s)) (dom (map_of (sm_req_ids ?s)))"
      proof (rule inj_onI)
        fix x y
        assume xy: "x \<in> dom (map_of (sm_req_ids ?s))" "y \<in> dom (map_of (sm_req_ids ?s))"
          "map_of (sm_req_ids ?s) x = map_of (sm_req_ids ?s) y"
        have fresh: "map_of (sm_req_ids s) r \<noteq> Some (sm_next_sid s)" for r
          using Cons.prems by (auto simp: ids_ok_def)
        have inj: "inj_on (map_of (sm_req_ids s)) (dom (map_of (sm_req_ids s)))"
          using Cons.prems by (simp add: ids_ok_def)
        show "x = y"
          using xy inj_onD [OF inj, of x y] fresh [of x] fresh [of y]
          by (cases "x = rid"; cases "y = rid") (auto simp: update_conv domIff)
      qed
      show "sid < sm_next_sid ?s" if "map_of (sm_req_ids ?s) r = Some sid" for r sid
        using that Cons.prems by (auto simp: ids_ok_def update_conv less_Suc_eq split: if_splits)
    qed
    then obtain ids n where ih: "fst (assign_sids rids ?s) = ?s\<lparr>sm_req_ids := ids, sm_next_sid := n\<rparr>" "ids_ok (fst (assign_sids rids ?s))"
      "\<forall>rid \<in> set rids. map_of ids rid \<noteq> None" "\<forall>r sid. map_of (sm_req_ids ?s) r = Some sid \<longrightarrow> map_of ids r = Some sid"
      "snd (assign_sids rids ?s) = map (\<lambda>rid. the (map_of ids rid)) rids"
      using Cons.IH by blast
    have "map_of ids rid = Some (sm_next_sid s)"
      using ih(4) by (simp add: update_conv)
    moreover have "map_of ids r = Some sid" if "map_of (sm_req_ids s) r = Some sid" for r sid
    proof -
      have "r \<noteq> rid"
        using that None by auto
      then show ?thesis
        using ih(4) that by (simp add: update_conv)
    qed
    ultimately show ?thesis
      using ih None by (intro exI [of _ ids] exI [of _ n]) (simp add: case_prod_beta Let_def)
  qed
qed

lemma assigned_distinct:
  assumes "ids_ok s" "distinct rids"
  shows "distinct (snd (assign_sids rids s))" "length (snd (assign_sids rids s)) = length rids"
proof -
  obtain ids n where a: "fst (assign_sids rids s) = s\<lparr>sm_req_ids := ids, sm_next_sid := n\<rparr>" "ids_ok (fst (assign_sids rids s))"
    "\<forall>rid \<in> set rids. map_of ids rid \<noteq> None" "snd (assign_sids rids s) = map (\<lambda>rid. the (map_of ids rid)) rids"
    using assign_sids_spec [OF assms(1), of rids] by blast
  have "inj_on (\<lambda>rid. the (map_of ids rid)) (set rids)"
  proof (rule inj_onI)
    fix x y
    assume xy: "x \<in> set rids" "y \<in> set rids" "the (map_of ids x) = the (map_of ids y)"
    obtain m n where mn: "map_of ids x = Some m" "map_of ids y = Some n"
      using xy(1,2) a(3) by blast
    then have "x \<in> dom (map_of ids)" "y \<in> dom (map_of ids)" "map_of ids x = map_of ids y"
      using xy(3) by auto
    moreover have "inj_on (map_of ids) (dom (map_of ids))"
      using a(1,2) by (simp add: ids_ok_def)
    ultimately show "x = y"
      by (simp add: inj_on_def)
  qed
  then show "distinct (snd (assign_sids rids s))" "length (snd (assign_sids rids s)) = length rids"
    using assms(2) by (simp_all add: a(4) distinct_map)
qed

text \<open>The metadata of a mining batch: every request has its own identifier and a job that decodes.\<close>

definition payload_decodes :: "pow_data \<Rightarrow> bool" where
  "payload_decodes p \<longleftrightarrow> (case job_of_payload p of Inl _ \<Rightarrow> False | Inr j \<Rightarrow> job_decodes j)"

definition carries_job :: "metadata \<Rightarrow> nat \<Rightarrow> bool" where
  "carries_job md i \<longleftrightarrow> (case extra_at md i of
      None \<Rightarrow> False
    | Some x \<Rightarrow> ea_req_id x \<noteq> None \<and> (case ea_pow x of None \<Rightarrow> False | Some p \<Rightarrow> pow_given p \<and> payload_decodes p))"

lemma new_params_job:
  assumes "carries_job md i"
  shows "\<exists>ps j. new_params (extra_at md i) rid = Inr ps \<and> sp_snapshot ps = Some j \<and> job_decodes j"
  using assms by (auto simp: carries_job_def payload_decodes_def new_params_def Let_def split: option.splits sum.splits)

definition jobs_decode :: "(nat \<times> seq_params) list \<Rightarrow> bool" where
  "jobs_decode pm \<longleftrightarrow> (\<forall>sid ps. map_of pm sid = Some ps \<longrightarrow> (case sp_snapshot ps of None \<Rightarrow> False | Some j \<Rightarrow> job_decodes j))"

lemma register_spec:
  assumes "\<forall>(i, sid, rid) \<in> set xs. carries_job md i" "jobs_decode (sm_params s)"
  shows "\<exists>pm pending. register md xs s = (s\<lparr>sm_params := pm\<rparr>, Inr pending) \<and> jobs_decode pm \<and>
    (\<forall>k ps. map_of (sm_params s) k = Some ps \<longrightarrow> map_of pm k = Some ps) \<and>
    (\<forall>(i, sid, rid) \<in> set xs. map_of pm sid \<noteq> None) \<and> set (map snd pending) \<subseteq> fst ` set xs"
  using assms
proof (induction xs arbitrary: s)
  case Nil
  then show ?case
    by (intro exI [of _ "sm_params s"] exI [of _ "[]"]) simp
next
  case (Cons x xs)
  obtain i sid rid where x: "x = (i, sid, rid)"
    by (cases x)
  show ?case
  proof (cases "map_of (sm_params s) sid")
    case (Some ps)
    obtain pm pending where "register md xs s = (s\<lparr>sm_params := pm\<rparr>, Inr pending)" "jobs_decode pm"
      "\<forall>k ps. map_of (sm_params s) k = Some ps \<longrightarrow> map_of pm k = Some ps" "\<forall>(i, sid, rid) \<in> set xs. map_of pm sid \<noteq> None"
      "set (map snd pending) \<subseteq> fst ` set xs"
      using Cons.IH [of s] Cons.prems by (auto simp: x)
    then show ?thesis
      using Some by (intro exI [of _ pm] exI [of _ pending]) (auto simp: x)
  next
    case None
    obtain ps j where ps: "new_params (extra_at md i) rid = Inr ps" "sp_snapshot ps = Some j" "job_decodes j"
      using new_params_job [of md i rid] Cons.prems(1) by (auto simp: x)
    let ?s = "s\<lparr>sm_params := AList.update sid ps (sm_params s)\<rparr>"
    have "jobs_decode (sm_params ?s)"
      using Cons.prems(2) ps(2,3) by (auto simp: jobs_decode_def update_conv split: if_splits)
    then obtain pm pending where ih: "register md xs ?s = (?s\<lparr>sm_params := pm\<rparr>, Inr pending)" "jobs_decode pm"
      "\<forall>k ps. map_of (sm_params ?s) k = Some ps \<longrightarrow> map_of pm k = Some ps" "\<forall>(i, sid, rid) \<in> set xs. map_of pm sid \<noteq> None"
      "set (map snd pending) \<subseteq> fst ` set xs"
      using Cons.IH [of ?s] Cons.prems by auto
    have "map_of pm sid = Some ps"
      using ih(3) by (simp add: update_conv)
    moreover have "map_of pm k = Some qs" if "map_of (sm_params s) k = Some qs" for k qs
    proof -
      have "k \<noteq> sid"
        using that None by auto
      then show ?thesis
        using ih(3) that by (simp add: update_conv)
    qed
    ultimately show ?thesis
      using ih None ps(1) by (intro exI [of _ pm] exI [of _ "(sid, i) # pending"]) (auto simp: x)
  qed
qed

text \<open>The shared job never fails to decode then.\<close>

definition never_fails :: "'s act \<Rightarrow> bool" where
  "never_fails f \<longleftrightarrow> (\<forall>s. snd (f s) = None)"

lemma never_fails_then: "never_fails f \<Longrightarrow> never_fails g \<Longrightarrow> never_fails (act_then f g)"
  by (simp add: never_fails_def snd_act_then)

lemma update_never_fails:
  assumes "payload_decodes p"
  shows "never_fails (update_from_payload (payload.truncate p))"
proof -
  obtain j where j: "job_of_payload p = Inr j" "job_decodes j"
    using assms by (auto simp: payload_decodes_def split: sum.splits)
  have keys: "pl_tick p \<noteq> None" "pl_request_id p \<noteq> None" "pl_difficulty p \<noteq> None"
    "pl_block_hash p = Some (ps_block_hash j)" "pl_vdf p = Some (ps_vdf j)" "pl_target p = Some (ps_target j)"
    "pl_header_prefix p = Some (ps_header_prefix j)" "pl_share_target p = ps_share_target j"
    using j(1) by (auto simp: job_of_payload_def rbind_Inr_iff key_def split: option.splits)
  have t: "pl_tick (payload.truncate p) = pl_tick p" "pl_request_id (payload.truncate p) = pl_request_id p"
    "pl_difficulty (payload.truncate p) = pl_difficulty p" "pl_block_hash (payload.truncate p) = pl_block_hash p"
    "pl_vdf (payload.truncate p) = pl_vdf p" "pl_target (payload.truncate p) = pl_target p"
    "pl_header_prefix (payload.truncate p) = pl_header_prefix p" "pl_share_target (payload.truncate p) = pl_share_target p"
    "pl_ipfs_cid (payload.truncate p) = pl_ipfs_cid p"
    by (simp_all add: payload.defs)
  obtain h v bh tb tn sh where d: "hex_to_bytes_tensor (ps_header_prefix j) = Inr h" "hex_to_bytes_tensor (ps_vdf j) = Inr v"
    "hex_to_bytes_tensor (ps_block_hash j) = Inr bh" "hex_to_bytes_tensor (norm64 (ps_target j)) = Inr tn"
    "hex_to_bytes_tensor (norm64 (ps_share_target j)) = Inr sh"
    using j(2) unfolding job_decodes_def by (auto dest!: decodes_toE)
  show ?thesis
    unfolding update_from_payload_def
    by (intro never_fails_then)
      (use keys d in \<open>auto simp: never_fails_def t key_def act_let_def act_pure_def Let_def update_block_hash_def update_vdf_def
        update_tick_def update_request_id_def update_target_def update_share_target_def update_difficulty_def
        update_header_def update_ipfs_cid_def split: option.splits\<close>)
qed

lemma update_precision: "precision_ok s \<Longrightarrow> precision_ok (fst (update_from_payload p s))"
proof -
  have "keeps precision_ok (update_from_payload p)"
    unfolding update_from_payload_def
    by (intro keeps_then)
      (auto simp: keeps_def precision_ok_def act_let_def act_pure_def Let_def update_block_hash_def update_vdf_def
        update_tick_def update_request_id_def update_target_def update_share_target_def update_difficulty_def
        update_header_def update_ipfs_cid_def split: option.splits sum.splits)
  then show "precision_ok s \<Longrightarrow> precision_ok (fst (update_from_payload p s))"
    by (simp add: keeps_def)
qed

section \<open>The nonces of a batch\<close>

definition renonce :: "byte list \<Rightarrow> bool \<Rightarrow> rb_row \<Rightarrow> rb_row" where
  "renonce n v w = w\<lparr>pow_admission_nonce := n, pow_admission_valid := v, pow_admission_valid_host := v\<rparr>"

lemma renonce_ok: "row_ok W w \<Longrightarrow> length n = 32 \<Longrightarrow> row_ok W (renonce n v w)"
  by (simp add: row_ok_def renonce_def)

lemma clear_nonce_renonce: "clear_nonce w = renonce (zero_bytes (pow_admission_nonce w)) False w"
  by (simp add: clear_nonce_def renonce_def)

lemma put_nonce_renonce: "put_nonce n w = renonce n True w"
  by (simp add: put_nonce_def renonce_def)

lemma renonce_twice: "renonce n v (renonce m u w) = renonce n v w"
  by (simp add: renonce_def)

lemma renonce_self: "pow_admission_valid_host w = pow_admission_valid w \<Longrightarrow> renonce (pow_admission_nonce w) (pow_admission_valid w) w = w"
  by (simp add: renonce_def)

lemma seat_prepared:
  assumes "core s" "get_row (sm_rows s) sid = Some row" "seat_of prec N s sid row" "N \<le> 0xFFFFFFFF"
    and "list_all i64_ok (left_pad 256 0 ctx)"
  shows "\<exists>j. prepared a p s sid row ctx = Inr j"
proof -
  have range: "in_range (sm_rb s) row"
    using core_row [OF assms(1,2)] .
  obtain ps j c where seat: "map_of (sm_params s) sid = Some ps" "sp_snapshot ps = Some j" "map_of (sm_caches s) sid = Some c" "cache_ok N c"
    using seatE [OF assms(3)] by metis
  then have "job_decodes j"
    using assms(1) by (force simp: core_def)
  then obtain t h v bh where d: "ps_tick j = Some t" "hex_to_bytes_tensor (ps_header_prefix j) = Inr h"
    "hex_to_bytes_tensor (ps_vdf j) = Inr v" "hex_to_bytes_tensor (ps_block_hash j) = Inr bh"
    unfolding job_decodes_def by (auto dest!: decodes_toE)
  let ?header = "if ps_header_prefix j \<noteq> [] then ps_header_prefix j else ps_block_hash j"
  obtain header where header: "fromhex ?header = Inr header"
    using fromhex_of_hex [OF d(2)] fromhex_of_hex [OF d(4)] by (cases "ps_header_prefix j = []") auto
  have cache: "list_all i64_ok (archive_list c)" "length (archive_list c) \<le> 0xFFFFFFFF"
    "pad_mask_list c = replicate (length (archive_list c)) False"
    using seat(4) assms(4) by (auto simp: cache_ok_def cache_good_def)
  have mask: "length (effective_mask (archive_list c) (Some (pad_mask_list c))) = length (archive_list c)"
    using cache(3) by (simp add: effective_mask_def)
  have "\<exists>g. job_inputs a j (Some c) ctx 0 p d = Inr g" if dpos: "0 < d" for d
  proof -
    have "\<exists>g. build_admission_preimage header v t 0 ctx (archive_list c) (Some (pad_mask_list c)) p d
        (case am_model_identifier a of None \<Rightarrow> ''unknown'' | Some m \<Rightarrow> if m = [] then ''unknown'' else m) (am_max_tries_factor a) = Inr g"
      by (rule grind_inputs_exist [OF dpos assms(5) cache(1,2) mask]) (erule exI)
    then show ?thesis
      unfolding job_inputs_def Let_def header fromhex_of_hex [OF d(3)] d(1) key_def by simp
  qed
  note inputs = this
  define dd where "dd = (case job_difficulty j of None \<Rightarrow> 0 | Some d \<Rightarrow> d)"
  have "prepared a p s sid row ctx = (if dd \<le> 0 then Inr None
      else rbind (job_inputs a j (Some c) ctx 0 p dd) (\<lambda>g. Inr (Some \<lparr>aj_row = row, aj_seq_id = sid, aj_difficulty = dd, aj_inputs = g\<rparr>)))"
    unfolding prepared_def prepare_admission_def write_none [OF range] dd_def by (simp add: seat(1-3) Let_def)
  then show ?thesis
    using inputs [of dd] by (cases "dd \<le> 0") auto
qed

lemma seats_jobs_of:
  assumes "core s" "\<forall>(sid, row, ctx) \<in> set es. \<exists>r. row = Some r \<and> get_row (sm_rows s) sid = Some r \<and> seat_of prec N s sid r \<and>
      list_all i64_ok (left_pad 256 0 ctx)" "N \<le> 0xFFFFFFFF"
  shows "\<exists>jobs. jobs_of a p s es = Inr jobs"
  using assms(2)
proof (induction es)
  case (Cons e es)
  obtain sid r ctx where e: "e = (sid, Some r, ctx)" "get_row (sm_rows s) sid = Some r" "seat_of prec N s sid r"
    "list_all i64_ok (left_pad 256 0 ctx)"
    using Cons.prems by (cases e) auto
  obtain j where "prepared a p s sid r ctx = Inr j"
    using seat_prepared [OF assms(1) e(2,3) assms(3) e(4)] by blast
  moreover obtain jobs where "jobs_of a p s es = Inr jobs"
    using Cons by auto
  ultimately show ?case
    by (simp add: e(1))
qed simp

lemma admission_result:
  assumes "core s" "distinct sids" "length rows = length sids" "length pos = length sids" "length contexts = length sids"
    and "\<forall>i < length sids. get_row (sm_rows s) (sids ! i) = Some (rows ! i) \<and> seat_of prec N s (sids ! i) (rows ! i)"
    and "\<forall>ctx \<in> set contexts. list_all i64_ok (left_pad 256 0 ctx)" "N \<le> 0xFFFFFFFF"
    and "\<forall>g. am_grind a = Some g \<longrightarrow> grind_ok g"
  shows "\<exists>f. ensure_admission_for_rows a sids (map Some rows) pos contexts p s = (set_rows f s, None) \<and>
    (\<forall>r w. (\<forall>i < length sids. rows ! i = r \<longrightarrow> pos ! i \<noteq> 0) \<longrightarrow> f r w = w) \<and>
    (\<forall>r W w. row_ok W w \<longrightarrow> (\<exists>n v. f r w = renonce n v w \<and> length n = 32))"
proof (cases "admission_active a \<and> boundary_entries sids (map Some rows) pos contexts \<noteq> [] \<and> am_grind a \<noteq> None")
  case False
  have "\<exists>n v. w = renonce n v w \<and> length n = 32" if "row_ok W w" for W w
    using that renonce_self [of w] by (metis row_ok_def)
  then show ?thesis
    using False set_rows_id [of s] by (intro exI [of _ "\<lambda>i w. w"]) (auto simp: ensure_admission_for_rows_def Let_def)
next
  case True
  then obtain grind where grind: "am_grind a = Some grind" "grind_ok grind"
    using assms(9) by auto
  define ix where "ix = filter (\<lambda>i. pos ! i = 0) [0..<length pos]"
  define es where "es = boundary_entries sids (map Some rows) pos contexts"
  have es: "es = map (\<lambda>i. (sids ! i, Some (rows ! i), contexts ! i)) ix"
    unfolding es_def boundary_entries_def ix_def using assms(3,4) by (intro map_cong) auto
  have is_lt: "\<forall>i \<in> set ix. i < length sids \<and> pos ! i = 0"
    using assms(4) by (auto simp: ix_def)
  have erows: "entry_rows es = map (\<lambda>i. rows ! i) ix"
    unfolding es by (induction ix) simp_all
  have "inj_on (\<lambda>i. rows ! i) (set ix)"
  proof (rule inj_onI)
    fix i k
    assume ik: "i \<in> set ix" "k \<in> set ix" "rows ! i = rows ! k"
    then have "sids ! i = sids ! k"
      using assms(6) is_lt core_rows_distinct [OF assms(1), of "sids ! i" "rows ! i" "sids ! k"] by auto
    then show "i = k"
      using ik is_lt assms(2) by (simp add: nth_eq_iff_index_eq)
  qed
  then have dist: "distinct (entry_rows es)"
    unfolding erows by (simp add: distinct_map ix_def)
  have range: "\<forall>r \<in> set (entry_rows es). in_range (sm_rb s) r"
    using assms(6) is_lt core_row [OF assms(1)] by (auto simp: erows)
  have "\<forall>(sid, row, ctx) \<in> set es. \<exists>r. row = Some r \<and> get_row (sm_rows s) sid = Some r \<and> seat_of prec N s sid r \<and>
      list_all i64_ok (left_pad 256 0 ctx)"
    using assms(5-7) is_lt by (auto simp: es)
  then obtain jobs where jobs: "jobs_of a p s es = Inr jobs"
    using seats_jobs_of [OF assms(1) _ assms(8)] by blast
  let ?f = "\<lambda>i w. nonces (ground grind jobs) i (cleared (entry_rows es) i w)"
  have e: "ensure_admission_for_rows a sids (map Some rows) pos contexts p s = (set_rows ?f s, None)"
    using True grind es_def dist range jobs by (intro ensure_eq) auto
  have jrows: "set (map aj_row jobs) \<subseteq> set (entry_rows es)"
    using jobs_of_rows [OF range jobs dist] by blast
  have out: "?f r w = w" if "r \<notin> set (entry_rows es)" for r w
  proof -
    have "map_of (ground grind jobs) r = None"
      using that jrows by (force simp: ground_def map_of_eq_None_iff)
    then show ?thesis
      using that by (simp add: nonces_def cleared_def)
  qed
  have "\<exists>n v. ?f r w = renonce n v w \<and> length n = 32" if w: "row_ok W w" for r W w
  proof -
    have zero: "length (zero_bytes (pow_admission_nonce w)) = 32" "w = renonce (pow_admission_nonce w) (pow_admission_valid w) w"
      "length (pow_admission_nonce w) = 32"
      using w renonce_self [of w] by (simp_all add: row_ok_def zero_bytes_def)
    have "length n = 32" if "map_of (ground grind jobs) r = Some (Some n)" for n
      using that grind(2) by (auto simp: ground_def grind_job_def grind_ok_def Let_def dest!: map_of_SomeD)
    then show ?thesis
      using zero unfolding nonces_def cleared_def
      by (cases "map_of (ground grind jobs) r") (auto simp: clear_nonce_renonce put_nonce_renonce renonce_twice split: option.splits)
  qed
  moreover have "?f r w = w" if "\<forall>i < length sids. rows ! i = r \<longrightarrow> pos ! i \<noteq> 0" for r w
    using that is_lt by (intro out) (auto simp: erows)
  ultimately show ?thesis
    using e by (intro exI [of _ ?f]) blast
qed

section \<open>Drawing\<close>

definition renonces :: "(nat \<Rightarrow> rb_row \<Rightarrow> rb_row) \<Rightarrow> bool" where
  "renonces f \<longleftrightarrow> (\<forall>r W w. row_ok W w \<longrightarrow> (\<exists>n v. f r w = renonce n v w \<and> length n = 32))"

lemma renonce_frame:
  assumes "renonces f" "row_ok W w"
  shows "steps (f r w) = steps w" "steps_host (f r w) = steps_host w" "ring (f r w) = ring w" "pow_valid (f r w) = pow_valid w"
    "row_parts (f r w) = row_parts w" "row_ok W (f r w)"
proof -
  obtain n v where "f r w = renonce n v w" "length n = 32"
    using assms unfolding renonces_def by blast
  then show "steps (f r w) = steps w" "steps_host (f r w) = steps_host w" "ring (f r w) = ring w" "pow_valid (f r w) = pow_valid w"
    "row_parts (f r w) = row_parts w" "row_ok W (f r w)"
    using renonce_ok [OF assms(2)] by (simp_all add: renonce_def row_parts_def)
qed

lemma core_row_ok: "core s \<Longrightarrow> in_range (sm_rb s) r \<Longrightarrow> row_ok 256 (rb_rows (sm_rb s) ! r)"
  by (auto simp: core_def rb_ok_def list_all_length in_range_def)

lemma set_rows_len: "length (rb_rows (sm_rb (set_rows f s))) = length (rb_rows (sm_rb s))"
  by (simp add: set_rows_def)

lemma set_rows_core:
  assumes "core s" "renonces f"
  shows "core (set_rows f s)"
proof -
  have row: "row_ok 256 (f r (rb_rows (sm_rb s) ! r)) \<and>
      (steps_host (rb_rows (sm_rb s) ! r) = steps (rb_rows (sm_rb s) ! r) \<longrightarrow>
       steps_host (f r (rb_rows (sm_rb s) ! r)) = steps (f r (rb_rows (sm_rb s) ! r)))" if "r < length (rb_rows (sm_rb s))" for r
    using renonce_frame [OF assms(2), of 256 "rb_rows (sm_rb s) ! r" r] core_row_ok [OF assms(1), of r] that by (simp add: in_range_def)
  have "rb_ok (sm_rb (set_rows f s))"
    using assms(1) row by (auto simp: core_def rb_ok_def set_rows_def list_all_length)
  then show ?thesis
    using assms(1) by (simp add: core_def pool_ok_def set_rows_def)
qed

definition step_message :: "string \<Rightarrow> job \<Rightarrow> byte list option \<Rightarrow> int list \<Rightarrow> nat \<Rightarrow> byte list res" where
  "step_message prec j nonce hist step =
     rbind (job_parts j) (\<lambda>(h, v, t). build_step_message h v t (int step) hist prec nonce POW_WINDOW_SIZE)"

lemma replays_message: "replays prec j nonce hist step sl \<longleftrightarrow>
    (\<exists>m. step_message prec j nonce hist step = Inr m \<and> sampling_u sl = digest_to_u (sha256 m))"
  unfolding replays_def step_message_def [symmetric] by (simp split: sum.split)

lemma left_pad_i64:
  assumes "list_all i64_ok xs"
  shows "list_all i64_ok (left_pad n 0 xs)"
proof (cases "length xs \<le> n")
  case True
  then show ?thesis
    using assms by (auto simp: left_pad_short list_all_iff i64_ok_def)
next
  case False
  then show ?thesis
    using assms set_drop_subset [of "length xs - n" xs] by (auto simp: left_pad_long list_all_iff)
qed

lemma left_pad_twice: "left_pad W z (left_pad W z xs) = left_pad W z xs"
  using left_pad_short [of "left_pad W z xs" W z] by simp

lemma padded_message:
  "build_step_message h v t st (left_pad 256 0 hist) prec nonce POW_WINDOW_SIZE = build_step_message h v t st hist prec nonce POW_WINDOW_SIZE"
  by (simp add: step_message_total left_pad_twice)

lemma held_message:
  assumes "holds_job j (rb_rows b ! r)"
  shows "reference_message b r (left_pad 256 0 hist) (int st) prec = step_message prec j (row_nonce (rb_rows b ! r)) hist st"
  using assms by (simp add: reference_message_def step_message_def holds_job_def row_parts_def row_nonce_def padded_message Let_def)

text \<open>The batch as the step sees it: a row, a job and a cache for every sequence.\<close>

definition seated :: "string \<Rightarrow> nat \<Rightarrow> sampler \<Rightarrow> nat list \<Rightarrow> nat list \<Rightarrow> bool" where
  "seated prec N s sids rows \<longleftrightarrow> length rows = length sids \<and>
     (\<forall>i < length sids. get_row (sm_rows s) (sids ! i) = Some (rows ! i) \<and> seat_of prec N s (sids ! i) (rows ! i))"

definition job_of :: "sampler \<Rightarrow> nat \<Rightarrow> job" where
  "job_of s sid = the (Option.bind (map_of (sm_params s) sid) sp_snapshot)"

definition hist_of :: "sampler \<Rightarrow> nat \<Rightarrow> int list" where
  "hist_of s sid = archive_list (the (map_of (sm_caches s) sid))"

lemma seat_facts:
  assumes "seat_of prec N s sid r"
  shows "holds_job (job_of s sid) (rb_rows (sm_rb s) ! r)" "row_replays prec (job_of s sid) (rb_rows (sm_rb s) ! r) (hist_of s sid)"
    "\<exists>c. map_of (sm_caches s) sid = Some c \<and> cache_ok N c \<and> archive_list c = hist_of s sid"
    "Option.bind (map_of (sm_params s) sid) sp_snapshot = Some (job_of s sid)"
  by (rule seatE [OF assms], simp add: job_of_def hist_of_def)+

lemma seats_contexts:
  assumes "seated prec N s sids rows"
  shows "get_context_windows s sids = Inr (map (\<lambda>sid. left_pad 256 0 (hist_of s sid)) sids)"
  unfolding get_context_windows_def
proof (rule mapr_Inr)
  fix sid
  assume "sid \<in> set sids"
  then obtain r where "seat_of prec N s sid r"
    using assms by (auto simp: seated_def in_set_conv_nth)
  then show "rbind (key (map_of (sm_caches s) sid)) (\<lambda>c. Inr (cache_window c)) = Inr (left_pad 256 0 (hist_of s sid))"
    using seat_facts(3) by (fastforce simp: key_def cache_ok_def cache_good_def)
qed

lemma seats_positions:
  assumes "core s" "seated prec N s sids rows"
  shows "get_positions (sm_rb s) rows = Inr (map (\<lambda>r. steps (rb_rows (sm_rb s) ! r) mod 256) rows)"
  unfolding get_positions_def
proof (rule mapr_Inr)
  fix r
  assume "r \<in> set rows"
  then obtain i where "i < length sids" "r = rows ! i"
    using assms(2) by (auto simp: seated_def in_set_conv_nth)
  then have "in_range (sm_rb s) r"
    using assms(2) core_row [OF assms(1)] by (auto simp: seated_def)
  then show "(if in_range (sm_rb s) r then Inr (steps (rb_rows (sm_rb s) ! r) mod window_size (sm_rb s)) else Inl IndexError) =
      Inr (steps (rb_rows (sm_rb s) ! r) mod 256)"
    using assms(1) by (simp add: core_def)
qed

lemma seats_range: "core s \<Longrightarrow> seated prec N s sids rows \<Longrightarrow> i < length sids \<Longrightarrow> in_range (sm_rb s) (rows ! i)"
  using core_row [of s "sids ! i"] by (auto simp: seated_def)

lemma seats_draw:
  assumes "core s" "seated prec N s sids rows" "sids \<noteq> []" "renonces f" "prec \<noteq> []" "precision_ok h" "length cdfs = length sids"
  shows "\<exists>ms. length ms = length sids \<and>
    (\<forall>i < length sids. step_message prec (job_of s (sids ! i)) (row_nonce (f (rows ! i) (rb_rows (sm_rb s) ! (rows ! i))))
       (hist_of s (sids ! i)) (steps (rb_rows (sm_rb s) ! (rows ! i)) mod 256) = Inr (ms ! i)) \<and>
    batch_sample_tokens (Some (sm_rb (set_rows f s), rows)) (Some rows) None (map (\<lambda>sid. left_pad 256 0 (hist_of s sid)) sids)
      (map int (map (\<lambda>r. steps (rb_rows (sm_rb s) ! r) mod 256) rows)) cdfs prec h =
      (refresh_precision prec h, Inr (map2 draw cdfs (map sha256 ms)))"
proof -
  let ?b = "sm_rb (set_rows f s)"
  let ?ctxs = "map (\<lambda>sid. left_pad 256 0 (hist_of s sid)) sids"
  have len: "length rows = length sids"
    using assms(2) by (simp add: seated_def)
  have range: "in_range (sm_rb s) (rows ! i)" if "i < length sids" for i
    using seats_range [OF assms(1,2) that] .
  have row: "rb_rows ?b ! (rows ! i) = f (rows ! i) (rb_rows (sm_rb s) ! (rows ! i))" "in_range ?b (rows ! i)"
    "row_ok 256 (rb_rows (sm_rb s) ! (rows ! i))" if "i < length sids" for i
    using set_rows_nth [OF range [OF that]] range [OF that] core_row_ok [OF assms(1) range [OF that]] by simp_all
  have seat: "seat_of prec N s (sids ! i) (rows ! i)" if "i < length sids" for i
    using assms(2) that by (simp add: seated_def)
  have held: "holds_job (job_of s (sids ! i)) (rb_rows ?b ! (rows ! i))" if "i < length sids" for i
    using seat_facts(1) [OF seat [OF that]] row [OF that] renonce_frame [OF assms(4) row(3) [OF that]] by (simp add: holds_job_def)
  have "rb_ok ?b"
    using set_rows_core [OF assms(1,4)] by (simp add: core_def)
  moreover have "\<forall>r \<in> set rows. in_range ?b r \<and> pow_valid (rb_rows ?b ! r)"
    using held row(2) len by (auto simp: in_set_conv_nth holds_job_def)
  moreover have "\<forall>ctx \<in> set ?ctxs. length ctx = POW_WINDOW_SIZE \<and> list_all i64_ok ctx"
  proof
    fix ctx
    assume "ctx \<in> set ?ctxs"
    then obtain i where i: "i < length sids" "ctx = left_pad 256 0 (hist_of s (sids ! i))"
      by (auto simp: in_set_conv_nth)
    have "list_all i64_ok (hist_of s (sids ! i))"
      using seat_facts(3) [OF seat [OF i(1)]] by (auto simp: cache_ok_def)
    then show "length ctx = POW_WINDOW_SIZE \<and> list_all i64_ok ctx"
      using i(2) by (simp add: POW_WINDOW_SIZE_def left_pad_i64)
  qed
  ultimately obtain ms where ms: "length ms = length rows"
    "\<forall>i < length rows. reference_message ?b (rows ! i) (?ctxs ! i) (map int (map (\<lambda>r. steps (rb_rows (sm_rb s) ! r) mod 256) rows) ! i) prec = Inr (ms ! i)"
    "batch_sample_rows ?b rows (Some rows) ?ctxs (map int (map (\<lambda>r. steps (rb_rows (sm_rb s) ! r) mod 256) rows)) cdfs prec h =
      (refresh_precision prec h, Inr (map2 draw cdfs (map sha256 ms)))"
    using batch_rows_drawn [of ?b rows "Some rows" h prec ?ctxs cdfs "map int (map (\<lambda>r. steps (rb_rows (sm_rb s) ! r) mod 256) rows)"]
      assms(3,5,6,7) len by fastforce
  have "step_message prec (job_of s (sids ! i)) (row_nonce (f (rows ! i) (rb_rows (sm_rb s) ! (rows ! i))))
       (hist_of s (sids ! i)) (steps (rb_rows (sm_rb s) ! (rows ! i)) mod 256) = Inr (ms ! i)" if "i < length sids" for i
  proof -
    have "reference_message ?b (rows ! i) (left_pad 256 0 (hist_of s (sids ! i))) (int (steps (rb_rows (sm_rb s) ! (rows ! i)) mod 256)) prec = Inr (ms ! i)"
      using ms(2) that len by simp
    then show ?thesis
      unfolding held_message [OF held [OF that]] row(1) [OF that] .
  qed
  then show ?thesis
    using ms(1,3) len by (intro exI [of _ ms]) (simp add: batch_sample_tokens_def)
qed

section \<open>Recording\<close>

lemma run_bind_Inr: "f s = (s', Inr x) \<Longrightarrow> run_bind f g s = g x s'"
  by (simp add: run_bind_def)

lemma run_get_Inr: "f s = Inr x \<Longrightarrow> run_get f s = (s, Inr x)"
  by (simp add: run_get_def)

lemma run_act_None: "f s = (s', None) \<Longrightarrow> run_act f s = (s', Inr ())"
  by (simp add: run_act_def)

lemma on_sampler_Inr: "f (mn_sampler mn) = (s, r) \<Longrightarrow> on_sampler f mn = (mn\<lparr>mn_sampler := s\<rparr>, r)"
  by (simp add: on_sampler_def)

lemma on_hasher_Inr: "f (mn_hasher mn) = (h, r) \<Longrightarrow> on_hasher f mn = (mn\<lparr>mn_hasher := h\<rparr>, r)"
  by (simp add: on_hasher_def)

lemma record_result:
  assumes "distinct sids" "length tokens = length sids" "distinct rows" "length rows = length sids"
    and "\<forall>r \<in> set rows. in_range (sm_rb s) r" "\<And>flip. length (slots flip) = length rows"
    and "debug \<longrightarrow> tokens \<noteq> [] \<and> (\<forall>t \<in> set tokens. 0 \<le> t)"
  shows "\<exists>cs m flip b. forward_record debug now sids rows tokens slots s = (s\<lparr>sm_caches := cs, sm_prev_max := m, sm_rb := b\<rparr>, Inr ()) \<and>
    record_batch rows (slots flip) (Some rows) (sm_rb s) = (b, None) \<and>
    (\<forall>sid. map_of cs sid = (case map_of (zip sids tokens) sid of None \<Rightarrow> map_of (sm_caches s) sid
       | Some tok \<Rightarrow> map_option (touch_full (sm_window s) now tok) (map_of (sm_caches s) sid)))"
proof -
  obtain cs m where cs: "each_cache (touch_full (sm_window s) now) (\<lambda>c. length (archive_list c)) sids tokens (sm_caches s, 1) = ((cs, m), None)"
    "\<forall>sid. map_of cs sid = (case map_of (zip sids tokens) sid of None \<Rightarrow> map_of (sm_caches s) sid
       | Some tok \<Rightarrow> map_option (touch_full (sm_window s) now tok) (map_of (sm_caches s) sid))"
    using each_cache_lookup [OF assms(1,2), of "touch_full (sm_window s) now" "\<lambda>c. length (archive_list c)" "sm_caches s" 1] by metis
  define flip where "flip = page_flip (sm_page_size s) (sm_prev_max s) m"
  let ?s = "s\<lparr>sm_caches := cs, sm_prev_max := m\<rparr>"
  have u: "update_caches debug now sids tokens s = (?s, Inr flip)"
    using assms(7) unfolding update_caches_def update_with_def cs(1) by (auto simp: flip_def not_less)
  obtain pos where pos: "get_positions (sm_rb s) rows = Inr pos"
    using assms(5) mapr_Inr [of rows _ "\<lambda>r. steps (rb_rows (sm_rb s) ! r) mod window_size (sm_rb s)"]
    unfolding get_positions_def by force
  obtain b where b: "record_batch rows (slots flip) (Some rows) (sm_rb s) = (b, None)"
    using record_batch_result [OF assms(3,5) assms(6) [of flip], of "Some rows"] by metis
  obtain b1 where w: "write_buffers pos rows (slots flip) (sm_rb s) = (b1, None)" "increment_steps rows (Some rows) b1 = (b, None)"
    using b unfolding record_batch_def act_let_def pos by (auto simp: act_then_def split: prod.splits option.splits)
  have "forward_record debug now sids rows tokens slots s = (s\<lparr>sm_caches := cs, sm_prev_max := m, sm_rb := b\<rparr>, Inr ())"
    by (simp add: forward_record_def run_bind_def run_get_def pos u run_act_def on_rb_def w)
  then show ?thesis
    using b cs(2) by blast
qed

lemma row_push_simps:
  "row_parts (row_push W sl w) = row_parts w" "pow_valid (row_push W sl w) = pow_valid w" "row_nonce (row_push W sl w) = row_nonce w"
  "steps (row_push W sl w) = steps w + 1" "ring (row_push W sl w) = (ring w)[steps w mod W := sl]"
  by (simp_all add: row_push_def row_parts_def row_nonce_def)

lemma window_start_next: "window_start (Suc n) = 256 * (n div 256)"
  by (simp add: window_start_def)

lemma window_start_same:
  assumes "n mod 256 \<noteq> 0"
  shows "window_start n = 256 * (n div 256)"
proof -
  have "(n - 1) div 256 = n div 256"
    using assms by (metis One_nat_def Suc_pred div_Suc gr0I mod_0)
  then show ?thesis
    by (simp add: window_start_def)
qed

lemma row_replays_push:
  assumes "row_replays prec j w hist" "length (ring w) = 256"
    and "steps w mod 256 \<noteq> 0 \<longrightarrow> w' = w" "steps w' = steps w" "ring w' = ring w"
    and "replays prec j (row_nonce w') hist (steps w mod 256) sl" "chosen_token sl = tok"
  shows "row_replays prec j ((row_push 256 sl w')\<lparr>steps_host := k\<rparr>) (hist @ [tok])"
  unfolding row_replays_def
proof (intro conjI ballI)
  let ?w = "(row_push 256 sl w')\<lparr>steps_host := k\<rparr>"
  define n where "n = steps w"
  have w: "steps ?w = Suc n" "ring ?w = (ring w)[n mod 256 := sl]" "row_nonce ?w = row_nonce w'"
    using assms(4,5) by (simp_all add: n_def row_nonce_def row_push_def)
  have len: "n \<le> length hist"
    using assms(1) by (simp add: row_replays_def n_def)
  then show "steps ?w \<le> length (hist @ [tok])"
    by (simp add: w(1))
  fix q
  assume "q \<in> set [window_start (steps ?w)..<steps ?w]"
  then have q: "256 * (n div 256) \<le> q" "q < Suc n"
    by (simp_all only: w(1) window_start_next set_upt atLeastLessThan_iff)
  show "let i = length (hist @ [tok]) - (steps ?w - q); x = ring ?w ! (q mod 256)
      in replays prec j (row_nonce ?w) (take i (hist @ [tok])) (q mod 256) x \<and> chosen_token x = (hist @ [tok]) ! i"
  proof (cases "q = n")
    case True
    then show ?thesis
    proof -
      have "length (hist @ [tok]) - (steps ?w - q) = length hist"
        unfolding w(1) True by simp
      moreover have "ring ?w ! (q mod 256) = sl"
        unfolding w(2) True using assms(2) by simp
      ultimately show ?thesis
        using assms(6,7) unfolding Let_def w(3) True n_def by simp
    qed
  next
    case False
    then have lt: "q < n"
      using q(2) by simp
    have m: "n mod 256 \<noteq> 0"
    proof
      assume "n mod 256 = 0"
      then have "256 * (n div 256) = n"
        using mult_div_mod_eq [of 256 n] by simp
      then show False
        using q(1) lt by simp
    qed
    then have w': "w' = w"
      using assms(3) by (simp add: n_def)
    have "q \<in> set [window_start n..<n]"
      using q(1) lt by (simp add: window_start_same [OF m])
    then have old: "replays prec j (row_nonce w) (take (length hist - (n - q)) hist) (q mod 256) (ring w ! (q mod 256))"
      "chosen_token (ring w ! (q mod 256)) = hist ! (length hist - (n - q))"
    proof -
      note all = conjunct2 [OF assms(1) [unfolded row_replays_def]]
      have mem: "q \<in> set [window_start (steps w)..<steps w]"
        using \<open>q \<in> set [window_start n..<n]\<close> by (simp only: n_def)
      note at_q = bspec [OF all mem, unfolded Let_def]
      show "replays prec j (row_nonce w) (take (length hist - (n - q)) hist) (q mod 256) (ring w ! (q mod 256))"
        unfolding n_def by (rule conjunct1 [OF at_q])
      show "chosen_token (ring w ! (q mod 256)) = hist ! (length hist - (n - q))"
        unfolding n_def by (rule conjunct2 [OF at_q])
    qed
    have "q mod 256 \<noteq> n mod 256"
    proof
      assume "q mod 256 = n mod 256"
      moreover have "q div 256 = n div 256"
      proof (rule le_antisym)
        show "q div 256 \<le> n div 256"
          using lt by (intro div_le_mono) simp
        show "n div 256 \<le> q div 256"
          using div_le_mono [OF q(1), of 256] by simp
      qed
      ultimately have "256 * (q div 256) + q mod 256 = 256 * (n div 256) + n mod 256"
        by (simp only:)
      then have "q = n"
        by (simp only: mult_div_mod_eq)
      then show False
        using lt by simp
    qed
    moreover have "length (hist @ [tok]) - (Suc n - q) = length hist - (n - q)"
      using lt len by simp
    moreover have idx: "length hist - (n - q) < length hist"
      using lt len by simp
    moreover have "take (length hist - (n - q)) (hist @ [tok]) = take (length hist - (n - q)) hist"
      by simp
    moreover have "(hist @ [tok]) ! (length hist - (n - q)) = hist ! (length hist - (n - q))"
      by (simp only: nth_append idx if_True)
    ultimately show ?thesis
      using old unfolding Let_def w unfolding w' by (simp only: nth_list_update_neq not_sym)
  qed
qed

end
