(* ===== verification/ForwardFacts.thy ===== *)
theory ForwardFacts
  imports Replay MaskingFacts
begin

text \<open>
  A step of the sampler as a whole: it returns on every batch of mining requests, every token it
  draws can be replayed from what the rows and caches hold, and it leaves a state the next step can
  start from.
\<close>

lemma set_rows_rest [simp]: "sm_window (set_rows f s) = sm_window s" "sm_rows (set_rows f s) = sm_rows s"
  "sm_req_ids (set_rows f s) = sm_req_ids s" "sm_next_sid (set_rows f s) = sm_next_sid s"
  by (simp_all add: set_rows_def)

lemma window_bound_mono: "cache_ok N c \<Longrightarrow> N \<le> M \<Longrightarrow> cache_ok M c"
  by (auto simp: cache_ok_def)

lemma seat_mono: "seat prec N ops oc w \<Longrightarrow> N \<le> M \<Longrightarrow> seat prec M ops oc w"
  using window_bound_mono [of N _ M] by (auto simp: seat_def split: option.splits)

lemma cache_ok_touch:
  assumes "cache_ok N c" "i64_ok tok"
  shows "cache_ok (Suc N) (touch_full 256 now tok c)" "archive_list (touch_full 256 now tok c) = archive_list c @ [tok]"
proof -
  have "cache_good 256 (archive_list c @ [tok]) (touch_full 256 now tok c)"
    using assms(1) by (intro cache_good_touch) (simp_all add: cache_ok_def)
  moreover from this show "archive_list (touch_full 256 now tok c) = archive_list c @ [tok]"
    by (simp add: cache_good_def)
  ultimately show "cache_ok (Suc N) (touch_full 256 now tok c)"
    using assms by (simp add: cache_ok_def)
qed

lemma seat_push:
  assumes "seat_of prec N s sid r" "core s" "get_row (sm_rows s) sid = Some r" "renonces f"
    and "steps (rb_rows (sm_rb s) ! r) mod 256 \<noteq> 0 \<longrightarrow> f r (rb_rows (sm_rb s) ! r) = rb_rows (sm_rb s) ! r"
    and "replays prec (job_of s sid) (row_nonce (f r (rb_rows (sm_rb s) ! r))) (hist_of s sid) (steps (rb_rows (sm_rb s) ! r) mod 256) sl"
    and "chosen_token sl = tok" "i64_ok tok" "Option.bind ops sp_snapshot = Option.bind (map_of (sm_params s) sid) sp_snapshot"
  shows "seat prec (Suc N) ops (map_option (touch_full 256 now tok) (map_of (sm_caches s) sid))
    ((row_push 256 sl (f r (rb_rows (sm_rb s) ! r)))\<lparr>steps_host := k\<rparr>)"
proof -
  let ?w = "rb_rows (sm_rb s) ! r"
  have row: "row_ok 256 ?w"
    using core_row_ok [OF assms(2) core_row [OF assms(2,3)]] .
  note frame = renonce_frame [OF assms(4) row, of r]
  obtain c where c: "map_of (sm_caches s) sid = Some c" "cache_ok N c" "archive_list c = hist_of s sid"
    using seat_facts(3) [OF assms(1)] by blast
  have "row_replays prec (job_of s sid) ((row_push 256 sl (f r ?w))\<lparr>steps_host := k\<rparr>) (hist_of s sid @ [tok])"
    using seat_facts(2) [OF assms(1)] row frame assms(5-7) by (intro row_replays_push [where w = ?w]) (simp_all add: row_ok_def)
  moreover have "holds_job (job_of s sid) ((row_push 256 sl (f r ?w))\<lparr>steps_host := k\<rparr>)"
    using seat_facts(1) [OF assms(1)] frame by (simp add: holds_job_def row_push_def row_parts_def)
  ultimately show ?thesis
    using seat_facts(4) [OF assms(1)] assms(9) c cache_ok_touch [OF c(2) assms(8), of now] by (simp add: seat_def)
qed

lemma step_recorded:
  assumes ok: "sampler_ok prec N s" and seats: "seated prec N s sids rows" "distinct sids"
    and f: "renonces f"
      "\<And>r w. (\<And>i. i < length sids \<Longrightarrow> rows ! i = r \<Longrightarrow> steps (rb_rows (sm_rb s) ! r) mod 256 \<noteq> 0) \<Longrightarrow> f r w = w"
    and pm: "jobs_decode pm" "\<And>sid. Option.bind (map_of pm sid) sp_snapshot = Option.bind (map_of (sm_params s) sid) sp_snapshot"
    and tokens: "length tokens = length sids" "tokens \<noteq> []" "\<And>t. t \<in> set tokens \<Longrightarrow> 0 \<le> t \<and> i64_ok t"
    and slots: "\<And>flip. length (slots flip) = length sids" "\<And>flip. list_all slot_ok (slots flip)"
      "\<And>flip i. i < length sids \<Longrightarrow> chosen_token (slots flip ! i) = tokens ! i"
    and replay: "\<And>flip i. i < length sids \<Longrightarrow> replays prec (job_of s (sids ! i)) (row_nonce (f (rows ! i) (rb_rows (sm_rb s) ! (rows ! i))))
      (hist_of s (sids ! i)) (steps (rb_rows (sm_rb s) ! (rows ! i)) mod 256) (slots flip ! i)"
  shows "\<exists>s'. forward_record debug now sids rows tokens slots ((set_rows f s)\<lparr>sm_params := pm\<rparr>) = (s', Inr ()) \<and> sampler_ok prec (Suc N) s' \<and>
    sm_params s' = pm \<and> sm_rows s' = sm_rows s \<and> sm_req_ids s' = sm_req_ids s \<and> sm_next_sid s' = sm_next_sid s \<and>
    (\<forall>i < length sids. hist_of s' (sids ! i) = hist_of s (sids ! i) @ [tokens ! i] \<and>
       steps (rb_rows (sm_rb s') ! (rows ! i)) = Suc (steps (rb_rows (sm_rb s) ! (rows ! i))))"
proof -
  let ?s = "(set_rows f s)\<lparr>sm_params := pm\<rparr>"
  have core: "core s"
    using ok by (simp add: sampler_ok_def)
  then have window: "window_size (sm_rb s) = 256" "sm_window s = 256"
    by (simp_all add: core_def)
  have len: "length rows = length sids"
    using seats(1) by (simp add: seated_def)
  have seat: "seat_of prec N s (sids ! i) (rows ! i)" "get_row (sm_rows s) (sids ! i) = Some (rows ! i)" if "i < length sids" for i
    using seats(1) that by (simp_all add: seated_def)
  have range: "in_range (sm_rb s) (rows ! i)" if "i < length sids" for i
    using seats_range [OF core seats(1) that] .
  have rows: "distinct rows"
    unfolding distinct_conv_nth
  proof (intro allI impI notI)
    fix i k
    assume ik: "i < length rows" "k < length rows" "i \<noteq> k" "rows ! i = rows ! k"
    then have "sids ! i = sids ! k"
      using core_rows_distinct [OF core, of "sids ! i" "rows ! i" "sids ! k"] seat(2) len by auto
    then show False
      using ik seats(2) len by (simp add: nth_eq_iff_index_eq)
  qed
  have in_b: "\<forall>r \<in> set rows. in_range (sm_rb ?s) r"
    using range len by (auto simp: in_set_conv_nth in_range_def set_rows_def)
  have slots_len: "\<And>flip. length (slots flip) = length rows"
    using slots(1) len by simp
  obtain cs m flip b where rec: "forward_record debug now sids rows tokens slots ?s = (?s\<lparr>sm_caches := cs, sm_prev_max := m, sm_rb := b\<rparr>, Inr ())"
    "record_batch rows (slots flip) (Some rows) (sm_rb ?s) = (b, None)"
    "\<forall>sid. map_of cs sid = (case map_of (zip sids tokens) sid of None \<Rightarrow> map_of (sm_caches ?s) sid
       | Some tok \<Rightarrow> map_option (touch_full (sm_window ?s) now tok) (map_of (sm_caches ?s) sid))"
    using record_result [where slots = slots, OF seats(2) tokens(1) rows len in_b slots_len, of debug now] tokens(2,3) by blast
  let ?r = "?s\<lparr>sm_caches := cs, sm_prev_max := m, sm_rb := b\<rparr>"
  have "rb_ok (sm_rb ?s)"
    using set_rows_core [OF core f(1)] by (simp add: core_def)
  then have b_ok: "rb_ok b"
    using record_batch_ok [OF _ rows in_b slots_len slots(2), of "Some rows" flip] rec(2) by simp
  have "Some rows = None \<or> Some rows = Some rows"
    by simp
  from record_batch_result [OF rows in_b slots_len this, of flip]
  have b: "window_size b = 256 \<and> length (rb_rows b) = length (rb_rows (sm_rb s)) \<and>
    (\<forall>i < length (rb_rows (sm_rb s)). i \<notin> set rows \<longrightarrow> rb_rows b ! i = rb_rows (sm_rb ?s) ! i) \<and>
    (\<forall>k < length rows. \<exists>h. rb_rows b ! (rows ! k) = (row_push 256 (slots flip ! k) (rb_rows (sm_rb ?s) ! (rows ! k)))\<lparr>steps_host := h\<rparr>)"
  proof cases
    case (1 b')
    have "b' = b"
      using 1(1) rec(2) by simp
    then show ?thesis
      using 1(2,3) 1(6,7) window(1) set_rows_len [of f s] by (auto simp: set_rows_def)
  qed
  have r_core: "core ?r"
    using core b_ok b pm(1) by (simp add: core_def pool_ok_def jobs_decode_def set_rows_def)
  have pushed: "seat prec (Suc N) (map_of pm (sids ! i)) (map_of cs (sids ! i)) (rb_rows b ! (rows ! i)) \<and>
      map_of cs (sids ! i) = map_option (touch_full 256 now (tokens ! i)) (map_of (sm_caches s) (sids ! i)) \<and>
      steps (rb_rows b ! (rows ! i)) = Suc (steps (rb_rows (sm_rb s) ! (rows ! i)))" if i: "i < length sids" for i
  proof -
    obtain h where h: "rb_rows b ! (rows ! i) = (row_push 256 (slots flip ! i) (f (rows ! i) (rb_rows (sm_rb s) ! (rows ! i))))\<lparr>steps_host := h\<rparr>"
      using b i len set_rows_nth [OF range [OF i], of f] by auto
    have tok: "map_of (zip sids tokens) (sids ! i) = Some (tokens ! i)"
      using map_of_zip_nth [OF tokens(1) [symmetric] seats(2)] i tokens(1) by simp
    have cache: "map_of cs (sids ! i) = map_option (touch_full 256 now (tokens ! i)) (map_of (sm_caches s) (sids ! i))"
      using rec(3) tok window(2) by simp
    have keep: "steps (rb_rows (sm_rb s) ! (rows ! i)) mod 256 \<noteq> 0 \<longrightarrow>
        f (rows ! i) (rb_rows (sm_rb s) ! (rows ! i)) = rb_rows (sm_rb s) ! (rows ! i)"
      using f(2) by simp
    have i64: "i64_ok (tokens ! i)"
      using tokens(1,3) i by simp
    have "seat prec (Suc N) (map_of pm (sids ! i)) (map_of cs (sids ! i)) (rb_rows b ! (rows ! i))"
      unfolding h cache
      by (rule seat_push [OF seat(1) [OF i] core seat(2) [OF i] f(1) keep replay [OF i] slots(3) [OF i] i64 pm(2)])
    moreover have "steps (rb_rows b ! (rows ! i)) = Suc (steps (rb_rows (sm_rb s) ! (rows ! i)))"
      unfolding h using renonce_frame(1) [OF f(1) core_row_ok [OF core range [OF i]]] by (simp add: row_push_def)
    ultimately show ?thesis
      using cache by simp
  qed
  have "seat_of prec (Suc N) ?r k r" if kr: "get_row (sm_rows s) k = Some r" for k r
  proof (cases "k \<in> set sids")
    case True
    then obtain i where i: "i < length sids" "k = sids ! i"
      by (auto simp: in_set_conv_nth)
    then have "r = rows ! i"
      using seat(2) kr by simp
    then show ?thesis
      using conjunct1 [OF pushed [OF i(1)]] i(2) by (simp add: seat_of_def)
  next
    case False
    have r: "r \<notin> set rows"
    proof
      assume "r \<in> set rows"
      then obtain i where "i < length sids" "r = rows ! i"
        using len by (auto simp: in_set_conv_nth)
      then show False
        using core_rows_distinct [OF core kr] seat(2) False by (metis nth_mem)
    qed
    then have fr: "f r w = w" for w
      using f(2) len by (metis nth_mem)
    have "map_of (zip sids tokens) k = None"
      using False tokens(1) by (simp add: map_of_zip_is_None)
    then have "map_of cs k = map_of (sm_caches s) k"
      using rec(3) by simp
    moreover have "rb_rows b ! r = rb_rows (sm_rb s) ! r"
      using b r core_row [OF core kr] set_rows_nth [of s r f] fr by (simp add: in_range_def)
    moreover have "seat_of prec N s k r"
      using ok kr by (simp add: sampler_ok_def)
    ultimately show ?thesis
      using pm(2) [of k] seat_mono [of prec N _ _ _ "Suc N"] by (simp add: seat_of_def seat_def)
  qed
  then have "sampler_ok prec (Suc N) ?r"
    using r_core by (simp add: sampler_ok_def)
  moreover have "hist_of ?r (sids ! i) = hist_of s (sids ! i) @ [tokens ! i]" if i: "i < length sids" for i
  proof -
    obtain c where c: "map_of (sm_caches s) (sids ! i) = Some c" "cache_ok N c" "archive_list c = hist_of s (sids ! i)"
      using seat_facts(3) [OF seat(1) [OF i]] by blast
    have "i64_ok (tokens ! i)"
      using tokens(1,3) i by simp
    then show ?thesis
      using pushed [OF i] c cache_ok_touch(2) [OF c(2)] by (simp add: hist_of_def)
  qed
  ultimately show ?thesis
    using rec(1) pushed by (intro exI [of _ ?r]) simp
qed


section \<open>Request identifiers\<close>

text \<open>What a release or an allocation may do to the table of request identifiers: forget some.\<close>

definition forgets :: "sampler act \<Rightarrow> bool" where
  "forgets f \<longleftrightarrow> (\<forall>s. max_rows (sm_rows (fst (f s))) = max_rows (sm_rows s) \<and> sm_next_sid (fst (f s)) = sm_next_sid s \<and>
     (\<exists>P. sm_req_ids (fst (f s)) = filter P (sm_req_ids s)))"

lemma forgetsI:
  assumes "\<And>s. max_rows (sm_rows (fst (f s))) = max_rows (sm_rows s)" "\<And>s. sm_next_sid (fst (f s)) = sm_next_sid s"
    "\<And>s. sm_req_ids (fst (f s)) = sm_req_ids s"
  shows "forgets f"
  unfolding forgets_def
proof (intro allI conjI)
  show "\<exists>P. sm_req_ids (fst (f s)) = filter P (sm_req_ids s)" for s
    using assms(3) [of s] by (intro exI [of _ "\<lambda>_. True"]) simp
qed (simp_all add: assms)

lemma forgets_then:
  assumes "forgets f" "forgets g"
  shows "forgets (act_then f g)"
  unfolding forgets_def
proof
  fix s
  obtain P where f: "max_rows (sm_rows (fst (f s))) = max_rows (sm_rows s)" "sm_next_sid (fst (f s)) = sm_next_sid s"
    "sm_req_ids (fst (f s)) = filter P (sm_req_ids s)"
    using assms(1) unfolding forgets_def by blast
  obtain Q where g: "max_rows (sm_rows (fst (g (fst (f s))))) = max_rows (sm_rows (fst (f s)))"
    "sm_next_sid (fst (g (fst (f s)))) = sm_next_sid (fst (f s))" "sm_req_ids (fst (g (fst (f s)))) = filter Q (sm_req_ids (fst (f s)))"
    using assms(2) unfolding forgets_def by blast
  have "\<exists>R. sm_req_ids (fst (act_then f g s)) = filter R (sm_req_ids s)"
    using f(3) g(3) by (cases "snd (f s)") (auto simp: fst_act_then)
  then show "max_rows (sm_rows (fst (act_then f g s))) = max_rows (sm_rows s) \<and> sm_next_sid (fst (act_then f g s)) = sm_next_sid s \<and>
      (\<exists>R. sm_req_ids (fst (act_then f g s)) = filter R (sm_req_ids s))"
    using f(1,2) g(1,2) by (simp add: fst_act_then)
qed

lemma forgets_pure: "forgets (act_pure id)"
  by (rule forgetsI) simp_all

lemma forgets_each: "(\<And>x. forgets (f x)) \<Longrightarrow> forgets (act_each f xs)"
  by (induction xs) (simp_all add: forgets_pure forgets_then)

lemma forgets_on_rb: "forgets (on_rb f)"
  by (rule forgetsI) (simp_all add: on_rb_def split: prod.split)

lemma forgets_apply: "forgets f \<Longrightarrow> max_rows (sm_rows (fst (f s))) = max_rows (sm_rows s) \<and> sm_next_sid (fst (f s)) = sm_next_sid s \<and>
    (\<exists>P. sm_req_ids (fst (f s)) = filter P (sm_req_ids s))"
  by (simp add: forgets_def)

lemma forgets_free: "forgets (free_sequence sid)"
proof -
  have rest: "forgets (act_then (on_rb (clear_row row)) (act_pure (forget_sequence sid)))" for row
  proof (rule forgets_then [OF forgets_on_rb])
    show "forgets (act_pure (forget_sequence sid))"
      unfolding forgets_def by (auto simp: forget_sequence_def)
  qed
  show ?thesis
    unfolding forgets_def
  proof
    fix s :: sampler
    obtain m row where m: "free_row (sm_rows s) sid = (m, row)"
      by (cases "free_row (sm_rows s) sid")
    then have "max_rows m = max_rows (sm_rows s)"
      using free_row_max [of "sm_rows s" sid] by simp
    then show "max_rows (sm_rows (fst (free_sequence sid s))) = max_rows (sm_rows s) \<and> sm_next_sid (fst (free_sequence sid s)) = sm_next_sid s \<and>
      (\<exists>P. sm_req_ids (fst (free_sequence sid s)) = filter P (sm_req_ids s))"
      using forgets_apply [OF rest [of row], of "s\<lparr>sm_rows := m\<rparr>"] by (simp add: free_sequence_def m)
  qed
qed

lemma forgets_setup: "forgets (setup_row now prompts sid row)"
proof -
  have "forgets (act_let (key (map_of prompts sid)) (\<lambda>prompt. act_pure (init_sequence_cache now sid prompt)))"
    by (cases "map_of prompts sid") (auto simp: key_def act_let_def init_sequence_cache_def intro: forgetsI)
  moreover have "forgets (\<lambda>s. case map_of (sm_params s) sid of None \<Rightarrow> (s, None) | Some ps \<Rightarrow> (case sp_snapshot ps of
      None \<Rightarrow> (s, None) | Some j \<Rightarrow> on_rb (write_pow_params row (Some (pow_snapshot.truncate j))) s))"
    by (rule forgetsI) (simp_all add: on_rb_def split: option.split prod.split)
  ultimately show ?thesis
    unfolding setup_row_def by (intro forgets_then forgets_on_rb)
qed

lemma forgets_setup_after: "forgets (\<lambda>s. case try_allocate sid s of (s, None) \<Rightarrow> (s, None) | (s, Some row) \<Rightarrow> setup_row now prompts sid row s)"
  unfolding forgets_def
proof
  fix s :: sampler
  obtain m row where m: "allocate_row (sm_rows s) sid = (m, row)"
    by (cases "allocate_row (sm_rows s) sid")
  then have "max_rows m = max_rows (sm_rows s)"
    using allocate_row_max [of "sm_rows s" sid] by simp
  then show "max_rows (sm_rows (fst (case try_allocate sid s of (s, None) \<Rightarrow> (s, None) | (s, Some row) \<Rightarrow> setup_row now prompts sid row s))) =
      max_rows (sm_rows s) \<and>
    sm_next_sid (fst (case try_allocate sid s of (s, None) \<Rightarrow> (s, None) | (s, Some row) \<Rightarrow> setup_row now prompts sid row s)) = sm_next_sid s \<and>
    (\<exists>P. sm_req_ids (fst (case try_allocate sid s of (s, None) \<Rightarrow> (s, None) | (s, Some row) \<Rightarrow> setup_row now prompts sid row s)) =
      filter P (sm_req_ids s))"
    using forgets_apply [OF forgets_setup [of now prompts sid "the row"], of "s\<lparr>sm_rows := m\<rparr>"]
    by (cases row) (auto simp: try_allocate_def m intro: exI [of _ "\<lambda>_. True"])
qed


lemma forgets_ensure: "forgets (ensure_row now prompts sid)"
  unfolding forgets_def
proof
  fix s :: sampler
  let ?after = "\<lambda>s. case try_allocate sid s of (s, None) \<Rightarrow> (s, None) | (s, Some row) \<Rightarrow> setup_row now prompts sid row s"
  let ?old = "\<lambda>old. act_then (free_sequence old) ?after"
  obtain m row where m: "allocate_row (sm_rows s) sid = (m, row)"
    by (cases "allocate_row (sm_rows s) sid")
  then have max: "max_rows m = max_rows (sm_rows s)"
    using allocate_row_max [of "sm_rows s" sid] by simp
  have old: "forgets (?old old)" for old
    by (intro forgets_then forgets_free forgets_setup_after)
  consider "get_row (sm_rows s) sid \<noteq> None" | r where "get_row (sm_rows s) sid = None" "row = Some r" | "get_row (sm_rows s) sid = None" "row = None"
    by (cases row) auto
  then show "max_rows (sm_rows (fst (ensure_row now prompts sid s))) = max_rows (sm_rows s) \<and>
      sm_next_sid (fst (ensure_row now prompts sid s)) = sm_next_sid s \<and>
      (\<exists>P. sm_req_ids (fst (ensure_row now prompts sid s)) = filter P (sm_req_ids s))"
  proof cases
    case 1
    then show ?thesis
      by (auto simp: ensure_row_def intro: exI [of _ "\<lambda>_. True"])
  next
    case 2
    then show ?thesis
      using forgets_apply [OF forgets_setup [of now prompts sid r], of "s\<lparr>sm_rows := m\<rparr>"] max
      by (simp add: ensure_row_def try_allocate_def m)
  next
    case 3
    have e: "ensure_row now prompts sid s = (case get_oldest_sequence m (device_steps (s\<lparr>sm_rows := m\<rparr>)) of
        Inl err \<Rightarrow> (s\<lparr>sm_rows := m\<rparr>, Some err) | Inr None \<Rightarrow> (s\<lparr>sm_rows := m\<rparr>, None)
      | Inr (Some (old, r)) \<Rightarrow> ?old old (s\<lparr>sm_rows := m\<rparr>))"
      using 3 by (simp add: ensure_row_def try_allocate_def [of sid s] m act_let_def split: sum.split option.split)
    show ?thesis
      using forgets_apply [OF old, of _ "s\<lparr>sm_rows := m\<rparr>"] max unfolding e
      by (auto split: sum.split option.split intro: exI [of _ "\<lambda>_. True"])
  qed
qed

lemma forgets_forward_rows: "forgets (forward_rows now prompts batch)"
proof -
  have "forgets (pre_evict batch)"
    unfolding forgets_def
  proof
    fix s :: sampler
    let ?vs = "victims batch s"
    let ?order = "sort_key (\<lambda>v. fst (victim_rank s v)) (sort_key (\<lambda>v. snd (victim_rank s v)) ?vs)"
    have "fst (pre_evict batch s) = s \<or> (\<exists>n. pre_evict batch s = act_each (\<lambda>v. free_sequence (fst v)) (take n ?order) s)"
      by (auto simp: pre_evict_def Let_def)
    moreover have "max_rows (sm_rows (fst (pre_evict batch s))) = max_rows (sm_rows s) \<and> sm_next_sid (fst (pre_evict batch s)) = sm_next_sid s \<and>
        (\<exists>P. sm_req_ids (fst (pre_evict batch s)) = filter P (sm_req_ids s))"
      if eq: "pre_evict batch s = act_each (\<lambda>v. free_sequence (fst v)) xs s" for xs
      unfolding eq by (intro forgets_apply forgets_each forgets_free)
    ultimately show "max_rows (sm_rows (fst (pre_evict batch s))) = max_rows (sm_rows s) \<and> sm_next_sid (fst (pre_evict batch s)) = sm_next_sid s \<and>
        (\<exists>P. sm_req_ids (fst (pre_evict batch s)) = filter P (sm_req_ids s))"
      by (elim disjE exE) (auto intro: exI [of _ "\<lambda>_. True"])
  qed
  then show ?thesis
    unfolding forward_rows_def [abs_def] ensure_rows_def [abs_def] by (intro forgets_then forgets_each forgets_ensure)
qed

lemma forgets_eos: "forgets (check_eos sids tokens)"
  unfolding forgets_def
proof
  fix s :: sampler
  have "forgets (\<lambda>s. (s, Some IndexError))"
    by (rule forgetsI) simp_all
  then have "forgets (act_each (\<lambda>i. if i < length sids then free_sequence (sids ! i) else (\<lambda>s. (s, Some IndexError))) xs)" for xs
    by (intro forgets_each) (simp add: forgets_free)
  from forgets_apply [OF this]
  show "max_rows (sm_rows (fst (check_eos sids tokens s))) = max_rows (sm_rows s) \<and> sm_next_sid (fst (check_eos sids tokens s)) = sm_next_sid s \<and>
      (\<exists>P. sm_req_ids (fst (check_eos sids tokens s)) = filter P (sm_req_ids s))"
    by (simp add: check_eos_def)
qed

lemma forgets_cleanup: "forgets (cleanup_stale_sequences now max_age interval)"
  unfolding forgets_def
proof
  fix s :: sampler
  show "max_rows (sm_rows (fst (cleanup_stale_sequences now max_age interval s))) = max_rows (sm_rows s) \<and>
      sm_next_sid (fst (cleanup_stale_sequences now max_age interval s)) = sm_next_sid s \<and>
      (\<exists>P. sm_req_ids (fst (cleanup_stale_sequences now max_age interval s)) = filter P (sm_req_ids s))"
    using forgets_apply [OF forgets_each [of free_sequence "map fst (filter (\<lambda>(sid, c). now - last_updated c > max_age) (sm_caches s))"], of "s\<lparr>sm_last_cleanup := now\<rparr>"] forgets_free
    by (auto simp: cleanup_stale_sequences_def Let_def intro: exI [of _ "\<lambda>_. True"])
qed

definition own_ids :: "sampler \<Rightarrow> bool" where
  "own_ids s \<longleftrightarrow> ids_ok s \<and> distinct (map fst (sm_req_ids s))"

lemma own_ids_forgets:
  assumes "own_ids s" "forgets f"
  shows "own_ids (fst (f s))" "max_rows (sm_rows (fst (f s))) = max_rows (sm_rows s)"
proof -
  obtain P where P: "max_rows (sm_rows (fst (f s))) = max_rows (sm_rows s)" "sm_next_sid (fst (f s)) = sm_next_sid s"
    "sm_req_ids (fst (f s)) = filter P (sm_req_ids s)"
    using forgets_apply [OF assms(2), of s] by blast
  then show "max_rows (sm_rows (fst (f s))) = max_rows (sm_rows s)"
    by blast
  have d: "distinct (map fst (sm_req_ids s))" "inj_on (map_of (sm_req_ids s)) (dom (map_of (sm_req_ids s)))"
    "\<forall>rid sid. map_of (sm_req_ids s) rid = Some sid \<longrightarrow> sid < sm_next_sid s"
    using assms(1) by (auto simp: own_ids_def ids_ok_def)
  have sub: "map_of (sm_req_ids s) rid = Some sid" if "map_of (filter P (sm_req_ids s)) rid = Some sid" for rid sid
    using that d(1) by (auto dest!: map_of_SomeD)
  have "inj_on (map_of (filter P (sm_req_ids s))) (dom (map_of (filter P (sm_req_ids s))))"
  proof (rule inj_onI)
    fix x y
    assume xy: "x \<in> dom (map_of (filter P (sm_req_ids s)))" "y \<in> dom (map_of (filter P (sm_req_ids s)))"
      "map_of (filter P (sm_req_ids s)) x = map_of (filter P (sm_req_ids s)) y"
    then obtain v where v: "map_of (filter P (sm_req_ids s)) x = Some v" "map_of (filter P (sm_req_ids s)) y = Some v"
      by auto
    then show "x = y"
      using inj_onD [OF d(2), of x y] sub [of x v] sub [of y v] by (simp add: domIff)
  qed
  then show "own_ids (fst (f s))"
    using P(2,3) d by (auto simp: own_ids_def ids_ok_def distinct_map_filter)
qed

lemma assign_distinct: "distinct (map fst (sm_req_ids s)) \<Longrightarrow> distinct (map fst (sm_req_ids (fst (assign_sids rids s))))"
proof (induction rids arbitrary: s)
  case (Cons rid rids)
  show ?case
  proof (cases "map_of (sm_req_ids s) rid")
    case None
    then show ?thesis
      using Cons.IH [of "s\<lparr>sm_req_ids := AList.update rid (sm_next_sid s) (sm_req_ids s), sm_next_sid := sm_next_sid s + 1\<rparr>"] Cons.prems
      by (simp add: case_prod_beta Let_def distinct_update)
  qed (use Cons in \<open>simp add: case_prod_beta\<close>)
qed simp


section \<open>A step of a mining batch\<close>

text \<open>The shared share target has its full width.\<close>

definition share_ok :: "pow_hasher \<Rightarrow> bool" where
  "share_ok h \<longleftrightarrow> (case ph_share_target h of None \<Rightarrow> True | Some t \<Rightarrow> length t = 32)"

lemma share_ok_refresh: "share_ok h \<Longrightarrow> share_ok (refresh_precision prec h)"
  by (simp add: share_ok_def refresh_precision_def)

lemma hex_to_bytes_length:
  assumes "hex_to_bytes_tensor (norm64 s) = Inr bs"
  shows "length bs = 32"
proof -
  have "norm64 s \<noteq> []"
    using length_norm64 [of s] by (metis list.size(3) zero_neq_numeral)
  then have "unhexlify (norm64 s) = Inr bs"
    using assms by (simp add: hex_to_bytes_tensor_def)
  then show ?thesis
    using unhexlify_length length_norm64 [of s] by fastforce
qed

lemma update_share: "share_ok h \<Longrightarrow> share_ok (fst (update_from_payload p h))"
proof -
  have "keeps share_ok (update_from_payload p)"
    unfolding update_from_payload_def
    by (intro keeps_then)
      (auto simp: keeps_def share_ok_def act_let_def act_pure_def Let_def update_block_hash_def update_vdf_def
        update_tick_def update_request_id_def update_target_def update_share_target_def update_difficulty_def
        update_header_def update_ipfs_cid_def hex_to_bytes_length split: option.splits sum.splits)
  then show "share_ok h \<Longrightarrow> share_ok (fst (update_from_payload p h))"
    by (simp add: keeps_def)
qed

text \<open>The miner between two steps, and what a batch has to bring: identifiers, jobs and prompts.\<close>

definition miner_ok :: "string \<Rightarrow> nat \<Rightarrow> miner \<Rightarrow> bool" where
  "miner_ok prec N mn \<longleftrightarrow> sampler_ok prec N (mn_sampler mn) \<and> own_ids (mn_sampler mn) \<and> precision_ok (mn_hasher mn) \<and> share_ok (mn_hasher mn) \<and>
     pw_compute_precision (mn_proofs mn) = Some prec \<and> prec \<noteq> []"

definition requests_ok :: "nat \<Rightarrow> metadata \<Rightarrow> nat \<Rightarrow> bool" where
  "requests_ok N md B \<longleftrightarrow> list_all (carries_job md) [0..<B] \<and>
     (case stable_req_ids md B of Inl _ \<Rightarrow> False | Inr ids \<Rightarrow> distinct ids) \<and>
     list_all (\<lambda>i. case safe_prompt_tokens md i of Inl _ \<Rightarrow> False | Inr ts \<Rightarrow> list_all i64_ok ts \<and> length ts \<le> N) [0..<B]"

lemma sampler_params:
  assumes "sampler_ok prec N s" "jobs_decode pm" "\<forall>k ps. map_of (sm_params s) k = Some ps \<longrightarrow> map_of pm k = Some ps"
  shows "sampler_ok prec N (s\<lparr>sm_params := pm\<rparr>)"
proof -
  have "seat_of prec N (s\<lparr>sm_params := pm\<rparr>) k r" if "get_row (sm_rows s) k = Some r" for k r
  proof -
    have "seat_of prec N s k r"
      using assms(1) that by (simp add: sampler_ok_def)
    then show ?thesis
    proof (rule seatE)
      fix ps j c
      assume *: "map_of (sm_params s) k = Some ps" "sp_snapshot ps = Some j" "map_of (sm_caches s) k = Some c" "cache_ok N c"
        "holds_job j (rb_rows (sm_rb s) ! r)" "row_replays prec j (rb_rows (sm_rb s) ! r) (archive_list c)"
      moreover have "map_of pm k = Some ps"
        using assms(3) *(1) by blast
      ultimately show ?thesis
        by (simp add: seat_of_def seat_def)
    qed
  qed
  then show ?thesis
    using assms(1,2) by (simp add: sampler_ok_def core_def pool_ok_def jobs_decode_def)
qed

lemma forward_register_result:
  assumes "miner_ok prec N mn" "requests_ok N md B"
  shows "\<exists>mn' sids pending. forward_register md B mn = (mn', Inr (sids, pending)) \<and> miner_ok prec N mn' \<and>
    length sids = B \<and> distinct sids \<and> (\<forall>sid \<in> set sids. map_of (sm_params (mn_sampler mn')) sid \<noteq> None) \<and>
    set (map snd pending) \<subseteq> {..<B} \<and> max_rows (sm_rows (mn_sampler mn')) = max_rows (sm_rows (mn_sampler mn))"
proof -
  let ?s = "mn_sampler mn"
  have ok: "sampler_ok prec N ?s" "own_ids ?s" "precision_ok (mn_hasher mn)" "share_ok (mn_hasher mn)"
    using assms(1) by (simp_all add: miner_ok_def)
  obtain rids where rids: "stable_req_ids md B = Inr rids" "distinct rids" "length rids = B"
    using assms(2) mapr_length [of _ "[0..<B]"] by (auto simp: requests_ok_def stable_req_ids_def split: sum.splits)
  have ids: "ids_ok ?s"
    using ok(2) by (simp add: own_ids_def)
  obtain t sids where a: "assign_sids rids ?s = (t, sids)"
    by (cases "assign_sids rids ?s")
  obtain tbl n where t: "t = ?s\<lparr>sm_req_ids := tbl, sm_next_sid := n\<rparr>" "ids_ok t"
    using assign_sids_spec [OF ids, of rids] a by auto
  have sids: "distinct sids" "length sids = B"
    using assigned_distinct [OF ids rids(2)] a rids(3) by simp_all
  have own: "own_ids t"
    using t(2) assign_distinct [of ?s rids] ok(2) a by (simp add: own_ids_def)
  have t_ok: "sampler_ok prec N t"
    using ok(1) unfolding t(1) by (simp add: sampler_ok_def core_def pool_ok_def seat_of_def)
  let ?xs = "zip [0..<B] (zip sids rids)"
  have carry: "\<forall>i < B. carries_job md i"
    using assms(2) by (simp add: requests_ok_def list_all_iff)
  have "\<forall>(i, sid, rid) \<in> set ?xs. carries_job md i"
    using carry by (auto dest!: set_zip_leftD)
  moreover have "jobs_decode (sm_params t)"
    using t_ok by (simp add: sampler_ok_def core_def jobs_decode_def)
  ultimately obtain pm pending where reg: "register md ?xs t = (t\<lparr>sm_params := pm\<rparr>, Inr pending)" "jobs_decode pm"
    "\<forall>k ps. map_of (sm_params t) k = Some ps \<longrightarrow> map_of pm k = Some ps"
    "\<forall>(i, sid, rid) \<in> set ?xs. map_of pm sid \<noteq> None" "set (map snd pending) \<subseteq> fst ` set ?xs"
    using register_spec by blast
  have known: "map_of pm sid \<noteq> None" if sid: "sid \<in> set sids" for sid
  proof -
    obtain i where i: "i < length sids" "sids ! i = sid"
      using sid unfolding in_set_conv_nth by blast
    then have "?xs ! i = (i, sid, rids ! i)" "i < length ?xs"
      using sids(2) rids(3) by simp_all
    then have "(i, sid, rids ! i) \<in> set ?xs"
      by (metis nth_mem)
    from bspec [OF reg(4) this] show ?thesis
      by simp
  qed
  have pend: "set (map snd pending) \<subseteq> {..<B}"
    using reg(5) by (auto dest!: set_zip_leftD)
  let ?mn = "mn\<lparr>mn_sampler := t\<lparr>sm_params := pm\<rparr>\<rparr>"
  have mn_ok: "miner_ok prec N ?mn"
    using assms(1) sampler_params [OF t_ok reg(2,3)] own by (simp add: miner_ok_def own_ids_def ids_ok_def)
  define job where "job = (case first_pow md B of None \<Rightarrow> run_get (\<lambda>_. Inr ())
    | Some p \<Rightarrow> on_hasher (run_act (update_from_payload (payload.truncate p))))"
  have "\<exists>h. job ?mn = (?mn\<lparr>mn_hasher := h\<rparr>, Inr ()) \<and> precision_ok h \<and> share_ok h"
  proof (cases "first_pow md B")
    case None
    then show ?thesis
      using ok(3,4) by (intro exI [of _ "mn_hasher mn"]) (simp add: job_def run_get_def)
  next
    case (Some p)
    then have "p \<in> set (List.map_filter (\<lambda>i. Option.bind (extra_at md i) ea_pow) [0..<B])"
      by (auto simp: first_pow_def split: list.splits)
    then obtain i where "i < B" "Option.bind (extra_at md i) ea_pow = Some p"
      by (auto simp: List.map_filter_def)
    then have "payload_decodes p"
      using carry by (auto simp: carries_job_def bind_eq_Some_conv split: option.splits)
    then have "snd (update_from_payload (payload.truncate p) (mn_hasher mn)) = None"
      using update_never_fails by (simp add: never_fails_def)
    then show ?thesis
      using update_precision [OF ok(3), of "payload.truncate p"] update_share [OF ok(4), of "payload.truncate p"] Some
      by (intro exI [of _ "fst (update_from_payload (payload.truncate p) (mn_hasher mn))"])
        (auto simp: job_def on_hasher_def run_act_def split: prod.splits)
  qed
  then obtain h where h: "job ?mn = (?mn\<lparr>mn_hasher := h\<rparr>, Inr ())" "precision_ok h" "share_ok h"
    by blast
  have "forward_register md B mn = (?mn\<lparr>mn_hasher := h\<rparr>, Inr (sids, pending))"
    using h(1) unfolding forward_register_def job_def [symmetric]
    by (simp add: run_bind_def run_get_def rids(1) on_sampler_def a reg(1))
  moreover have max: "max_rows (sm_rows t) = max_rows (sm_rows ?s)"
    by (simp add: t(1))
  moreover have "miner_ok prec N (?mn\<lparr>mn_hasher := h\<rparr>)"
    using mn_ok h(2,3) by (simp add: miner_ok_def)
  ultimately show ?thesis
    using sids known pend max by (intro exI [of _ "?mn\<lparr>mn_hasher := h\<rparr>"] exI [of _ sids] exI [of _ pending]) simp
qed

lemma prompt_map_result:
  assumes "\<forall>i < length sids. case safe_prompt_tokens md i of Inl _ \<Rightarrow> False | Inr ts \<Rightarrow> list_all i64_ok ts \<and> length ts \<le> N"
  shows "\<exists>prompts. prompt_map md sids s = Inr prompts \<and> prompts_ok N prompts \<and>
    (\<forall>sid \<in> set sids. get_row (sm_rows s) sid = None \<longrightarrow> map_of prompts sid \<noteq> None)"
proof -
  let ?new = "filter (\<lambda>(i, sid). get_row (sm_rows s) sid = None) (zip [0..<length sids] sids)"
  let ?ts = "\<lambda>i. case safe_prompt_tokens md i of Inl _ \<Rightarrow> [] | Inr ts \<Rightarrow> ts"
  have good: "safe_prompt_tokens md i = Inr (?ts i) \<and> list_all i64_ok (?ts i) \<and> length (?ts i) \<le> N" if "(i, sid) \<in> set ?new" for i sid
  proof -
    have "i < length sids"
      using that by (auto dest: set_zip_leftD)
    then show ?thesis
      using assms by (auto split: sum.splits)
  qed
  have m: "mapr (\<lambda>(i, sid). rbind (safe_prompt_tokens md i) (\<lambda>ts. Inr (sid, ts))) ?new = Inr (map (\<lambda>(i, sid). (sid, ?ts i)) ?new)"
  proof (rule mapr_Inr)
    fix x
    assume "x \<in> set ?new"
    moreover obtain i sid where "x = (i, sid)"
      by (cases x)
    ultimately show "(\<lambda>(i, sid). rbind (safe_prompt_tokens md i) (\<lambda>ts. Inr (sid, ts))) x = Inr ((\<lambda>(i, sid). (sid, ?ts i)) x)"
      using good [of i sid] by (cases "safe_prompt_tokens md i") simp_all
  qed
  have fold: "prompts_ok N m \<Longrightarrow> list_all (\<lambda>(sid, ts). list_all i64_ok ts \<and> length ts \<le> N) ps \<Longrightarrow>
      prompts_ok N (fold (\<lambda>(sid, ts) m. AList.update sid ts m) ps m) \<and>
      (\<forall>sid. map_of m sid \<noteq> None \<or> sid \<in> fst ` set ps \<longrightarrow> map_of (fold (\<lambda>(sid, ts) m. AList.update sid ts m) ps m) sid \<noteq> None)"
    for ps and m :: "(nat \<times> int list) list"
  proof (induction ps arbitrary: m)
    case (Cons x ps)
    obtain sid ts where x: "x = (sid, ts)"
      by (cases x)
    have "set (AList.update sid ts m) \<subseteq> insert (sid, ts) (set m)"
      by (induction m) auto
    then have "prompts_ok N (AList.update sid ts m)"
      using Cons.prems unfolding prompts_ok_def x list_all_iff by (auto 0 3 dest!: subsetD)
    from Cons.IH [OF this] Cons.prems(2) show ?case
      by (simp add: x update_conv)
  qed simp
  have "list_all (\<lambda>(sid, ts). list_all i64_ok ts \<and> length ts \<le> N) (map (\<lambda>(i, sid). (sid, ?ts i)) ?new)"
    using good by (fastforce simp: list_all_iff)
  note fold = fold [OF _ this, of "[]"]
  have "sid \<in> fst ` set (map (\<lambda>(i, sid). (sid, ?ts i)) ?new)" if new: "sid \<in> set sids" "get_row (sm_rows s) sid = None" for sid
  proof -
    obtain i where "i < length sids" "sids ! i = sid"
      using new(1) unfolding in_set_conv_nth by blast
    then have "zip [0..<length sids] sids ! i = (i, sid)" "i < length (zip [0..<length sids] sids)"
      by simp_all
    then have "(i, sid) \<in> set (zip [0..<length sids] sids)"
      by (metis nth_mem)
    then have "(i, sid) \<in> set ?new"
      using new(2) by simp
    then show ?thesis
      by force
  qed
  then show ?thesis
    using fold unfolding prompt_map_def m by (simp add: prompts_ok_def)
qed

lemma forward_allocate_result:
  assumes "sampler_ok prec N s" "own_ids s" "length sids \<le> max_rows (sm_rows s)"
    and "\<forall>i < length sids. case safe_prompt_tokens md i of Inl _ \<Rightarrow> False | Inr ts \<Rightarrow> list_all i64_ok ts \<and> length ts \<le> N"
    and "\<forall>sid \<in> set sids. map_of (sm_params s) sid \<noteq> None"
  shows "\<exists>s' rows. forward_allocate md now sids s = (s', Inr rows) \<and> sampler_ok prec N s' \<and> own_ids s' \<and> seated prec N s' sids rows \<and>
    max_rows (sm_rows s') = max_rows (sm_rows s)"
proof -
  obtain prompts where p: "prompt_map md sids s = Inr prompts" "prompts_ok N prompts"
    "\<forall>sid \<in> set sids. get_row (sm_rows s) sid = None \<longrightarrow> map_of prompts sid \<noteq> None"
    using prompt_map_result [OF assms(4)] by blast
  have card: "card (set sids) \<le> max_rows (sm_rows s)"
    using card_length [of sids] assms(3) by linarith
  have "\<forall>sid \<in> set sids. map_of (sm_params s) sid \<noteq> None \<and> (get_row (sm_rows s) sid = None \<longrightarrow> map_of prompts sid \<noteq> None)"
    using assms(5) p(3) by blast
  note rows = forward_rows_seats [OF assms(1) p(2) card this, of now]
  let ?s = "fst (forward_rows now prompts sids s)"
  have run: "forward_rows now prompts sids s = (?s, None)"
    using rows(1) by (simp add: prod_eq_iff)
  let ?rows = "map (\<lambda>sid. the (get_row (sm_rows ?s) sid)) sids"
  have "allocated_rows sids ?s = Inr ?rows"
    unfolding allocated_rows_def using rows(3) by (intro mapr_Inr) auto
  then have "forward_allocate md now sids s = (?s, Inr ?rows)"
    using run_act_None [of "forward_rows now prompts sids", OF run] by (simp add: forward_allocate_def run_bind_def run_get_def p(1))
  moreover have "seated prec N ?s sids ?rows"
  proof -
    have "get_row (sm_rows ?s) (sids ! i) = Some (?rows ! i)" if "i < length sids" for i
      using rows(3) that by auto
    then show ?thesis
      using rows(2) by (simp add: seated_def sampler_ok_def)
  qed
  ultimately show ?thesis
    using rows(2) own_ids_forgets [OF assms(2) forgets_forward_rows] by blast
qed


section \<open>The distributions and the slots of a batch\<close>

definition numerics_ok :: "numerics \<Rightarrow> bool" where
  "numerics_ok nu \<longleftrightarrow> topk_law (nu_topk nu) \<and> (\<forall>xs. length (nu_softmax nu xs) = length xs)"

definition logits_ok :: "nat \<Rightarrow> batch_in \<Rightarrow> bool" where
  "logits_ok V bi \<longleftrightarrow> (let (proof, logits) = batch_logits bi; md = bi_meta bi; B = length (bi_logits bi)
     in 0 < B \<and> length proof = B \<and> length logits = B \<and> 70 \<le> V \<and> V < 2 ^ 63 \<and>
        list_all (\<lambda>row. length row = V) proof \<and> list_all (\<lambda>row. length row = V \<and> list_all finite_logit row) logits \<and>
        (case md_top_k md of None \<Rightarrow> False | Some ks \<Rightarrow> canonical_k ks logits) \<and>
        (case md_top_p md of None \<Rightarrow> True | Some ps \<Rightarrow> length ps = B) \<and>
        B \<le> length (md_temperature md) \<and> B \<le> length (md_repetition_penalties md))"

definition dist_ok :: "nat \<Rightarrow> dist \<Rightarrow> bool" where
  "dist_ok V d \<longleftrightarrow> di_cdf d \<noteq> [] \<and> (case di_compact d of
      None \<Rightarrow> length (di_cdf d) = V
    | Some c \<Rightarrow> length (di_cdf d) = length (cp_token_ids c) \<and> (\<forall>x \<in> set (cp_token_ids c). x \<le> V))"

lemma dist_ok_token: "dist_ok V d \<Longrightarrow> pos < length (di_cdf d) \<Longrightarrow> token_of_slot (di_compact d) pos \<le> V"
  by (cases "di_compact d") (auto simp: dist_ok_def token_of_slot_def)

lemma cdf_length: "(\<And>xs. length (sm xs) = length xs) \<Longrightarrow> length (cdf_of sm add row) = length row"
  by (simp add: cdf_of_def cumsum_length)

lemma compact_row_dims:
  fixes idx :: "nat list"
  assumes "idx \<noteq> []" "\<forall>i \<in> set idx. i < length row"
  shows "length (cp_logits (compact_row idx k row)) = length idx" "length (cp_token_ids (compact_row idx k row)) = length idx"
    "\<forall>x \<in> set (cp_token_ids (compact_row idx k row)). x \<le> length row"
proof -
  define keep where "keep = (let sup = map (\<lambda>i. row ! i) idx;
      thr = sup ! nat (min (max 0 ((case k of None \<Rightarrow> int (length idx) | Some k \<Rightarrow> k) - 1)) (int (length idx) - 1));
      ks = map (\<lambda>x. thr < x) sup in if True \<in> set ks then ks else ks[0 := True])"
  define ks where "ks = map2 (\<lambda>b i. if b then i else length row) keep idx"
  define ord where "ord = sort_key (\<lambda>j. ks ! j) [0..<length idx]"
  define okeys where "okeys = map (\<lambda>j. ks ! j) ord"
  define valid where "valid = map (\<lambda>x. x \<noteq> length row) okeys"
  have lens: "length keep = length idx" "length ks = length idx" "length ord = length idx" "length okeys = length idx"
    "length valid = length idx"
    by (simp_all add: keep_def ks_def ord_def okeys_def valid_def Let_def)
  have ord: "set ord = {..<length idx}"
    by (auto simp: ord_def)
  have c: "compact_row idx k row = \<lparr>cp_keys = okeys,
      cp_logits = map2 (\<lambda>b x. if b then x else NegInf) valid (map (\<lambda>j. map (\<lambda>i. row ! i) idx ! j) ord),
      cp_token_ids = map2 (\<lambda>b x. if b then x else okeys ! (length (filter id valid) - 1)) valid okeys\<rparr>"
    by (simp only: compact_row_def Let_def keep_def ks_def ord_def okeys_def valid_def length_map)
  show "length (cp_logits (compact_row idx k row)) = length idx" "length (cp_token_ids (compact_row idx k row)) = length idx"
    using lens by (simp_all add: c)
  have "x \<le> length row" if "x \<in> set ks" for x
    using that assms(2) by (auto simp: ks_def dest!: set_zip_rightD split: if_splits)
  then have all: "\<forall>x \<in> set okeys. x \<le> length row"
    using ord lens by (auto simp: okeys_def)
  moreover have "length (filter id valid) - 1 < length okeys"
    using lens assms(1) length_filter_le [of id valid] by (cases idx) auto
  ultimately have "okeys ! (length (filter id valid) - 1) \<le> length row"
    using nth_mem by blast
  then show "\<forall>x \<in> set (cp_token_ids (compact_row idx k row)). x \<le> length row"
    using all unfolding c by (auto dest!: set_zip_rightD)
qed

lemma probes_length:
  assumes "20 \<le> V"
  shows "length (probes (max (V div 20) 1) V) = 20" "\<forall>i \<in> set (probes (max (V div 20) 1) V). i < V"
proof -
  let ?d = "max (V div 20) 1"
  have d: "?d = V div 20" "0 < V div 20" "20 * (V div 20) \<le> V"
    using assms by (auto simp: div_greater_zero_iff)
  have "j * ?d < V" if "j < 20" for j
  proof -
    have "j * (V div 20) \<le> 19 * (V div 20)"
      using that by (intro mult_right_mono) simp_all
    also have "\<dots> < V"
      using d(2,3) by linarith
    finally show ?thesis
      by (simp only: d(1))
  qed
  then have "(\<lambda>j. j * ?d) ` {..<20} \<subseteq> {i \<in> {..<V}. i mod ?d = 0}"
    by auto
  then have "card ((\<lambda>j. j * ?d) ` {..<20}) \<le> card {i \<in> {..<V}. i mod ?d = 0}"
    by (intro card_mono) simp_all
  moreover have "card ((\<lambda>j. j * ?d) ` {..<20}) = card {..<20 :: nat}"
    using d by (intro card_image) (simp add: inj_on_def)
  moreover have "length (filter (\<lambda>i. i mod ?d = 0) [0..<V]) = card {i \<in> {..<V}. i mod ?d = 0}"
    by (subst distinct_card [symmetric]) (auto intro: arg_cong [where f = card])
  ultimately show "length (probes ?d V) = 20"
    by (simp add: probes_def)
  show "\<forall>i \<in> set (probes ?d V). i < V"
    by (auto simp: probes_def dest!: in_set_takeD)
qed

lemma snapshot_dims:
  assumes "topk_law topk" "70 \<le> length row"
  shows "length (sn_logits (forward_snapshot topk row)) = 70" "length (sn_indices (forward_snapshot topk row)) = 70"
    "\<forall>i \<in> set (sn_indices (forward_snapshot topk row)). i < length row"
proof -
  define best where "best = (if 2000 < length row then take 50 (resort_head row (take 128 (topk 2000 row))) else take 50 (stable_desc row))"
  have sn: "forward_snapshot topk row = snapshot_of best (probes (max (length row div 20) 1) (length row)) row"
    by (simp add: forward_snapshot_def best_def Let_def)
  have best: "length best = 50 \<and> (\<forall>i \<in> set best. i < length row)"
  proof (cases "2000 < length row")
    case True
    then have "length (topk 2000 row) = 2000" "set (topk 2000 row) \<subseteq> {..<length row}"
      using topk_lawD [OF assms(1), of 2000 row] by simp_all
    then show ?thesis
      using True by (auto simp: best_def resort_head_def dest!: in_set_takeD)
  next
    case False
    then show ?thesis
      using assms(2) stable_desc_set [of row] by (auto simp: best_def dest!: in_set_takeD)
  qed
  show "length (sn_logits (forward_snapshot topk row)) = 70" "length (sn_indices (forward_snapshot topk row)) = 70"
    "\<forall>i \<in> set (sn_indices (forward_snapshot topk row)). i < length row"
    using best probes_length [of "length row"] assms(2) unfolding sn by (auto simp: snapshot_of_def)
qed

lemma stats_dims: "length (forward_stats topk mean tail ov lse row) = 6"
  by (simp add: forward_stats_def Let_def)


lemma compact_dist_ok:
  assumes "numerics_ok nu" "70 \<le> length row" "length prow = length row"
  shows "dist_ok (length row) (let c = compact_row (take 50 (sn_indices (forward_snapshot (nu_topk nu) prow))) k row
    in \<lparr>di_cdf = cdf_of (nu_softmax nu) (nu_add nu) (cp_logits c), di_compact = Some c, di_normalizer = z c\<rparr>)"
proof -
  let ?idx = "take 50 (sn_indices (forward_snapshot (nu_topk nu) prow))"
  have nu: "topk_law (nu_topk nu)" "\<And>xs. length (nu_softmax nu xs) = length xs"
    using assms(1) by (simp_all add: numerics_ok_def)
  have snap: "length (sn_indices (forward_snapshot (nu_topk nu) prow)) = 70"
    "\<forall>i \<in> set (sn_indices (forward_snapshot (nu_topk nu) prow)). i < length prow"
    using snapshot_dims [OF nu(1), of prow] assms(2,3) by simp_all
  then have "?idx \<noteq> []" "\<forall>i \<in> set ?idx. i < length row"
    using assms(3) by (auto dest: in_set_takeD)
  note dims = compact_row_dims [OF this, of k]
  have "length ?idx = 50"
    using snap by simp
  then show ?thesis
    using dims cdf_length [of "nu_softmax nu" "nu_add nu" "cp_logits (compact_row ?idx k row)", OF nu(2)]
    by (auto simp: dist_ok_def Let_def)
qed

lemma dists_result:
  assumes "numerics_ok nu" "logits_ok V bi"
  shows "\<exists>dists. forward_dists on nu (bi_meta bi) sids (map (forward_snapshot (nu_topk nu)) (fst (batch_logits bi))) (snd (batch_logits bi)) s =
      (s, Inr dists) \<and> length dists = length (bi_logits bi) \<and> list_all (dist_ok V) dists"
proof -
  obtain proof_logits logits where b: "batch_logits bi = (proof_logits, logits)"
    by (cases "batch_logits bi")
  let ?md = "bi_meta bi" and ?B = "length (bi_logits bi)" and ?snaps = "map (forward_snapshot (nu_topk nu)) proof_logits"
  obtain ks where ks: "md_top_k ?md = Some ks" "canonical_k ks logits"
    using assms(2) by (auto simp: logits_ok_def b Let_def split: option.splits)
  have L: "length proof_logits = ?B" "length logits = ?B" "70 \<le> V" "\<forall>row \<in> set proof_logits. length row = V"
    "\<forall>row \<in> set logits. length row = V \<and> (\<forall>x \<in> set row. finite_logit x)"
    "case md_top_p ?md of None \<Rightarrow> True | Some ps \<Rightarrow> length ps = ?B"
    using assms(2) by (simp_all add: logits_ok_def b Let_def list_all_iff)
  have lenk: "length ks = ?B"
    using ks(2) L(2) by (simp add: canonical_k_def list_all2_iff)
  have softmax: "\<And>xs. length (nu_softmax nu xs) = length xs"
    using assms(1) by (simp add: numerics_ok_def)
  show ?thesis
  proof (cases "can_use_compact_cdf on s sids")
    case True
    define kf where "kf = (if length ks = 1 then replicate (length logits) (hd ks) else ks)"
    define dist where "dist k p row = (let c = compact_row (take 50 (sn_indices (forward_snapshot (nu_topk nu) p))) (Some k) row
      in \<lparr>di_cdf = cdf_of (nu_softmax nu) (nu_add nu) (cp_logits c), di_compact = Some c, di_normalizer = nu_logsumexp nu (cp_logits c)\<rparr>)"
      for k p and row :: "logit list"
    let ?ds = "map2 (\<lambda>k (sn, row). let c = compact_row (take 50 (sn_indices sn)) (Some k) row
      in \<lparr>di_cdf = cdf_of (nu_softmax nu) (nu_add nu) (cp_logits c), di_compact = Some c, di_normalizer = nu_logsumexp nu (cp_logits c)\<rparr>)
      kf (zip ?snaps logits)"
    have lenf: "length kf = ?B"
      using lenk L(2) by (simp add: kf_def)
    have "compact_dists nu (md_top_k ?md) ?snaps logits = Inr ?ds"
      using lenk L(2) unfolding compact_dists_def ks(1) option.case kf_def by simp
    moreover have "dist_ok V (?ds ! i)" if "i < ?B" for i
    proof -
      have "?ds ! i = dist (kf ! i) (proof_logits ! i) (logits ! i)"
        using that lenf L by (simp add: dist_def)
      moreover have "length (logits ! i) = V" "length (proof_logits ! i) = V"
        using that L by simp_all
      ultimately show ?thesis
        using compact_dist_ok [OF assms(1), of "logits ! i" "proof_logits ! i" "Some (kf ! i)" "\<lambda>c. nu_logsumexp nu (cp_logits c)"] L(3)
        by (simp only: dist_def)
    qed
    ultimately show ?thesis
      using True lenf L by (intro exI [of _ ?ds]) (simp add: forward_dists_def run_get_def b list_all_length)
  next
    case False
    let ?p = "map_option (map f64_rat) (md_top_p ?md)"
    have p: "?p = None \<or> (\<exists>ps. ?p = Some ps \<and> (length ps = 1 \<or> length ps = length logits))"
      using L(2,6) by (cases "md_top_p ?md") simp_all
    have fin: "\<forall>row \<in> set logits. \<forall>x \<in> set row. finite_logit x"
      using L(5) by blast
    have "\<exists>ms. apply_topk_topp_mask (nu_prev_cum nu) (Some ks) ?p None logits = Inr ms \<and> length ms = length logits \<and>
        (\<forall>r < length logits. length (ms ! r) = length (logits ! r))"
      by (rule apply_topk_support [OF ks(2) fin p, of "nu_prev_cum nu" None]) blast
    then obtain ms where ms: "apply_topk_topp_mask (nu_prev_cum nu) (Some ks) ?p None logits = Inr ms" "length ms = length logits"
      "\<And>r. r < length logits \<Longrightarrow> length (ms ! r) = length (logits ! r)"
      by blast
    let ?ds = "map (\<lambda>m. \<lparr>di_cdf = cdf_of (nu_softmax nu) (nu_add nu) m, di_compact = None, di_normalizer = nu_logsumexp nu m\<rparr>) ms"
    have "full_dists nu (md_top_k ?md) (md_top_p ?md) logits = Inr ?ds"
      by (simp add: full_dists_def ks(1) ms(1))
    moreover have "dist_ok V (?ds ! i)" if "i < ?B" for i
    proof -
      have "length (ms ! i) = V" "0 < V"
        using that ms L by simp_all
      then show ?thesis
        using that ms(2) L(2) cdf_length [of "nu_softmax nu" "nu_add nu" "ms ! i", OF softmax]
        by (simp add: dist_ok_def) (metis length_greater_0_conv)
    qed
    ultimately show ?thesis
      using False ms(2) L(2) by (intro exI [of _ ?ds]) (simp add: forward_dists_def run_get_def b list_all_length)
  qed
qed

lemma fill_result:
  assumes "set (map snd pending) \<subseteq> {..<B}" "B \<le> length (md_temperature md)" "B \<le> length (md_repetition_penalties md)"
    and "md_top_p md = None \<or> (\<exists>ps. md_top_p md = Some ps \<and> length ps = B)" "md_top_k md = Some ks" "length ks = B" "jobs_decode (sm_params s)"
  shows "\<exists>pm. fill_params md V pending s = (s\<lparr>sm_params := pm\<rparr>, Inr ()) \<and> jobs_decode pm \<and>
    (\<forall>sid. Option.bind (map_of pm sid) sp_snapshot = Option.bind (map_of (sm_params s) sid) sp_snapshot)"
proof (cases "pending = []")
  case True
  then show ?thesis
    using assms(7) by (intro exI [of _ "sm_params s"]) (simp add: fill_params_def)
next
  case False
  define val where "val = (\<lambda>(sid :: nat, i). rbind (pick (md_temperature md) i) (\<lambda>t.
      rbind (case md_top_p md of None \<Rightarrow> Inr (Fin 1 0) | Some ps \<Rightarrow> pick ps i) (\<lambda>p.
      rbind (case md_top_k md of None \<Rightarrow> Inr (int V) | Some ks \<Rightarrow> pick ks i) (\<lambda>k.
      rbind (pick (md_repetition_penalties md) i) (\<lambda>r. Inr (sid, t, p, k, if float_true r then r else Fin 1 0))))))"
  have "\<exists>v. val x = Inr v" if "x \<in> set pending" for x
  proof -
    obtain sid i where x: "x = (sid, i)"
      by (cases x)
    then have "i < B"
      using that assms(1) by force
    then show ?thesis
      using assms(2-6) by (auto simp: val_def x pick_def)
  qed
  then have "mapr val pending = Inr (map (\<lambda>x. case val x of Inl _ \<Rightarrow> undefined | Inr v \<Rightarrow> v) pending)"
    by (intro mapr_Inr) (metis sum.simps(6))
  then obtain vals where vals: "mapr val pending = Inr vals"
    by blast
  define upd where "upd = (\<lambda>(sid, t, p, k, r) (pm :: (nat \<times> seq_params) list). case map_of pm sid of
      None \<Rightarrow> pm
    | Some ps \<Rightarrow> AList.update sid (ps\<lparr>sp_temperature := Some t, sp_top_p := Some p, sp_top_k := Some k, sp_repetition_penalty := Some r\<rparr>) pm)"
  have keep: "Option.bind (map_of (fold upd vs pm) sid) sp_snapshot = Option.bind (map_of pm sid) sp_snapshot" for vs pm sid
  proof (induction vs arbitrary: pm)
    case (Cons v vs)
    obtain k t p q r where "v = (k, t, p, q, r)"
      by (cases v)
    then have "Option.bind (map_of (upd v pm) sid) sp_snapshot = Option.bind (map_of pm sid) sp_snapshot"
      by (auto simp: upd_def update_conv split: option.split)
    then show ?case
      using Cons.IH [of "upd v pm"] by simp
  qed simp
  have dom: "map_of (fold upd vs pm) sid = None \<longleftrightarrow> map_of pm sid = None" for vs pm sid
  proof (induction vs arbitrary: pm)
    case (Cons v vs)
    obtain k t p q r where "v = (k, t, p, q, r)"
      by (cases v)
    then have "map_of (upd v pm) sid = None \<longleftrightarrow> map_of pm sid = None"
      by (auto simp: upd_def update_conv split: option.split)
    then show ?case
      using Cons.IH [of "upd v pm"] by simp
  qed simp
  have "jobs_decode (fold upd vals (sm_params s))"
    unfolding jobs_decode_def
  proof (intro allI impI)
    fix sid ps
    assume ps: "map_of (fold upd vals (sm_params s)) sid = Some ps"
    then obtain qs where "map_of (sm_params s) sid = Some qs"
      using dom [of vals "sm_params s" sid] by (cases "map_of (sm_params s) sid") simp_all
    then show "case sp_snapshot ps of None \<Rightarrow> False | Some j \<Rightarrow> job_decodes j"
      using keep [of vals "sm_params s" sid] ps assms(7) by (auto simp: jobs_decode_def)
  qed
  moreover have "fill_params md V pending s = (s\<lparr>sm_params := fold upd vals (sm_params s)\<rparr>, Inr ())"
    using False vals unfolding fill_params_def val_def upd_def by simp
  ultimately show ?thesis
    using keep by blast
qed


section \<open>The step as a whole\<close>

definition settings_ok :: "settings \<Rightarrow> bool" where
  "settings_ok fs \<longleftrightarrow> numerics_ok (fs_numerics fs) \<and> (\<forall>g. am_grind (fs_admission fs) = Some g \<longrightarrow> grind_ok g)"

definition batch_ok :: "nat \<Rightarrow> nat \<Rightarrow> batch_in \<Rightarrow> bool" where
  "batch_ok N V bi \<longleftrightarrow> requests_ok N (bi_meta bi) (length (bi_logits bi)) \<and> logits_ok V bi"

lemma forward_draw_result:
  assumes "miner_ok prec N mn" "seated prec N (mn_sampler mn) sids rows" "distinct sids" "sids \<noteq> []" "length dists = length sids"
    and "N \<le> 0xFFFFFFFF" "\<forall>g. am_grind a = Some g \<longrightarrow> grind_ok g"
  shows "\<exists>f ms. renonces f \<and>
    (\<forall>r w. (\<forall>i < length sids. rows ! i = r \<longrightarrow> steps (rb_rows (sm_rb (mn_sampler mn)) ! r) mod 256 \<noteq> 0) \<longrightarrow> f r w = w) \<and>
    length ms = length sids \<and>
    (\<forall>i < length sids. step_message prec (job_of (mn_sampler mn) (sids ! i)) (row_nonce (f (rows ! i) (rb_rows (sm_rb (mn_sampler mn)) ! (rows ! i))))
       (hist_of (mn_sampler mn) (sids ! i)) (steps (rb_rows (sm_rb (mn_sampler mn)) ! (rows ! i)) mod 256) = Inr (ms ! i)) \<and>
    forward_draw a sids rows dists mn =
      (mn\<lparr>mn_sampler := set_rows f (mn_sampler mn), mn_hasher := refresh_precision prec (mn_hasher mn)\<rparr>,
       Inr (map2 draw (map di_cdf dists) (map sha256 ms)))"
proof -
  let ?s = "mn_sampler mn"
  have core: "core ?s" and prec: "prec \<noteq> []" "precision_ok (mn_hasher mn)" "pw_compute_precision (mn_proofs mn) = Some prec"
    using assms(1) by (simp_all add: miner_ok_def sampler_ok_def)
  let ?pos = "map (\<lambda>r. steps (rb_rows (sm_rb ?s) ! r) mod 256) rows"
  let ?ctxs = "map (\<lambda>sid. left_pad 256 0 (hist_of ?s sid)) sids"
  have len: "length rows = length sids"
    using assms(2) by (simp add: seated_def)
  have seat: "\<forall>i < length sids. get_row (sm_rows ?s) (sids ! i) = Some (rows ! i) \<and> seat_of prec N ?s (sids ! i) (rows ! i)"
    using assms(2) by (simp add: seated_def)
  have ctx64: "\<forall>ctx \<in> set ?ctxs. list_all i64_ok (left_pad 256 0 ctx)"
  proof
    fix ctx
    assume "ctx \<in> set ?ctxs"
    then obtain i where "i < length ?ctxs" "?ctxs ! i = ctx"
      unfolding in_set_conv_nth by blast
    then have i: "i < length sids" "ctx = left_pad 256 0 (hist_of ?s (sids ! i))"
      by simp_all
    then have "list_all i64_ok (hist_of ?s (sids ! i))"
      using seat_facts(3) [of prec N ?s "sids ! i" "rows ! i"] seat by (auto simp: cache_ok_def)
    then show "list_all i64_ok (left_pad 256 0 ctx)"
      by (simp add: i(2) left_pad_twice left_pad_i64)
  qed
  obtain f where f: "ensure_admission_for_rows a sids (map Some rows) ?pos ?ctxs prec ?s = (set_rows f ?s, None)"
    "\<forall>r w. (\<forall>i < length sids. rows ! i = r \<longrightarrow> ?pos ! i \<noteq> 0) \<longrightarrow> f r w = w"
    "\<forall>r W w. row_ok W w \<longrightarrow> (\<exists>n v. f r w = renonce n v w \<and> length n = 32)"
    using admission_result [OF core assms(3) len _ _ seat ctx64 assms(6,7), of ?pos prec] len by auto
  have ren: "renonces f"
    using f(3) by (simp add: renonces_def)
  obtain ms where ms: "length ms = length sids"
    "\<forall>i < length sids. step_message prec (job_of ?s (sids ! i)) (row_nonce (f (rows ! i) (rb_rows (sm_rb ?s) ! (rows ! i))))
       (hist_of ?s (sids ! i)) (steps (rb_rows (sm_rb ?s) ! (rows ! i)) mod 256) = Inr (ms ! i)"
    "batch_sample_tokens (Some (sm_rb (set_rows f ?s), rows)) (Some rows) None ?ctxs (map int ?pos) (map di_cdf dists) prec (mn_hasher mn) =
      (refresh_precision prec (mn_hasher mn), Inr (map2 draw (map di_cdf dists) (map sha256 ms)))"
    using seats_draw [OF core assms(2,4) ren prec(1,2), of "map di_cdf dists"] assms(5) by auto
  have "forward_draw a sids rows dists mn =
      (mn\<lparr>mn_sampler := set_rows f ?s, mn_hasher := refresh_precision prec (mn_hasher mn)\<rparr>,
       Inr (map2 draw (map di_cdf dists) (map sha256 ms)))"
    by (simp add: forward_draw_def run_bind_def run_get_def run_act_def on_sampler_def on_hasher_def prec(3)
        seats_positions [OF core assms(2)] seats_contexts [OF assms(2)] f(1) ms(3) del: map_map)
  moreover have "\<forall>r w. (\<forall>i < length sids. rows ! i = r \<longrightarrow> steps (rb_rows (sm_rb ?s) ! r) mod 256 \<noteq> 0) \<longrightarrow> f r w = w"
    using f(2) len by auto
  ultimately show ?thesis
    using ren ms(1,2) by blast
qed


lemma drawn_nth: "i < length cdfs \<Longrightarrow> length ms = length cdfs \<Longrightarrow> map2 draw cdfs (map sha256 ms) ! i = draw (cdfs ! i) (sha256 (ms ! i))"
  by simp

lemma draw_parts: "draw cdf dg = (fst (draw cdf dg), digest_to_u dg, dg)"
  by (simp add: draw_def Let_def)

lemma run_bind_step: "f s = (s', Inr x) \<Longrightarrow> g x s' = y \<Longrightarrow> run_bind f g s = y"
  by (simp add: run_bind_def)

lemma forward_step_result:
  assumes "settings_ok fs" "miner_ok prec N mn" "batch_ok N V bi" "length (bi_logits bi) \<le> max_rows (sm_rows (mn_sampler mn))"
    and "N \<le> 0xFFFFFFFF"
  shows "\<exists>mn' sids tokens. forward_step fs now bi mn = (mn', Inr (sids, tokens)) \<and> miner_ok prec (Suc N) mn' \<and>
    length sids = length (bi_logits bi) \<and> distinct sids \<and> length tokens = length sids \<and>
    max_rows (sm_rows (mn_sampler mn')) = max_rows (sm_rows (mn_sampler mn)) \<and>
    (\<forall>i < length sids. \<exists>r. get_row (sm_rows (mn_sampler mn')) (sids ! i) = Some r \<and> 0 < steps (rb_rows (sm_rb (mn_sampler mn')) ! r) \<and>
       hist_of (mn_sampler mn') (sids ! i) \<noteq> [] \<and> last (hist_of (mn_sampler mn') (sids ! i)) = tokens ! i)"
proof -
  obtain proof_logits logits where b: "batch_logits bi = (proof_logits, logits)"
    by (cases "batch_logits bi")
  let ?md = "bi_meta bi" and ?B = "length (bi_logits bi)" and ?nu = "fs_numerics fs"
  let ?snaps = "map (forward_snapshot (nu_topk ?nu)) proof_logits"
  let ?stats = "map2 (\<lambda>lrow prow. forward_stats (nu_topk ?nu) (nu_mean ?nu) (nu_tail ?nu) (nu_overall ?nu)
                    (nu_logsumexp ?nu lrow) prow) logits proof_logits"
  let ?V = "case logits of [] \<Rightarrow> 0 | row # _ \<Rightarrow> length row"
  have nu: "numerics_ok ?nu" "topk_law (nu_topk ?nu)" and grind: "\<forall>g. am_grind (fs_admission fs) = Some g \<longrightarrow> grind_ok g"
    using assms(1) by (simp_all add: settings_ok_def numerics_ok_def)
  have req: "requests_ok N ?md ?B" and lok: "logits_ok V bi"
    using assms(3) by (simp_all add: batch_ok_def)
  have L: "0 < ?B" "length proof_logits = ?B" "length logits = ?B" "70 \<le> V" "V < 2 ^ 63" "\<forall>row \<in> set proof_logits. length row = V"
    "?B \<le> length (md_temperature ?md)" "?B \<le> length (md_repetition_penalties ?md)"
    "md_top_p ?md = None \<or> (\<exists>ps. md_top_p ?md = Some ps \<and> length ps = ?B)"
    using lok by (auto simp: logits_ok_def b Let_def list_all_iff split: option.splits)
  obtain ks where ks: "md_top_k ?md = Some ks" "length ks = ?B"
    using lok L(3) by (auto simp: logits_ok_def b Let_def canonical_k_def list_all2_iff split: option.splits)
  obtain mn1 sids pending where reg: "forward_register ?md ?B mn = (mn1, Inr (sids, pending))" "miner_ok prec N mn1"
    "length sids = ?B" "distinct sids" "\<forall>sid \<in> set sids. map_of (sm_params (mn_sampler mn1)) sid \<noteq> None" "set (map snd pending) \<subseteq> {..<?B}"
    "max_rows (sm_rows (mn_sampler mn1)) = max_rows (sm_rows (mn_sampler mn))"
    using forward_register_result [OF assms(2) req] by blast
  have ne: "sids \<noteq> []"
    using reg(3) L(1) by auto
  have prompts: "\<forall>i < length sids. case safe_prompt_tokens ?md i of Inl _ \<Rightarrow> False | Inr ts \<Rightarrow> list_all i64_ok ts \<and> length ts \<le> N"
    using req reg(3) by (simp add: requests_ok_def list_all_iff)
  have ok1: "sampler_ok prec N (mn_sampler mn1)" "own_ids (mn_sampler mn1)" "length sids \<le> max_rows (sm_rows (mn_sampler mn1))"
    using reg(2,3,7) assms(4) by (simp_all add: miner_ok_def)
  obtain s rows where alloc: "forward_allocate ?md now sids (mn_sampler mn1) = (s, Inr rows)" "sampler_ok prec N s" "own_ids s"
    "seated prec N s sids rows" "max_rows (sm_rows s) = max_rows (sm_rows (mn_sampler mn1))"
    using forward_allocate_result [OF ok1 prompts reg(5)] by blast
  let ?mn = "mn1\<lparr>mn_sampler := s\<rparr>"
  have mn_ok: "miner_ok prec N ?mn"
    using reg(2) alloc(2,3) by (simp add: miner_ok_def)
  obtain dists where dists: "forward_dists (fs_compact fs) ?nu ?md sids ?snaps logits s = (s, Inr dists)" "length dists = ?B" "list_all (dist_ok V) dists"
    using dists_result [OF nu(1) lok, of "fs_compact fs" sids s] unfolding b by auto
  have seats: "seated prec N (mn_sampler ?mn) sids rows" and lend: "length dists = length sids"
    using alloc(4) dists(2) reg(3) by simp_all
  obtain f ms where draws: "renonces f"
    "\<forall>r w. (\<forall>i < length sids. rows ! i = r \<longrightarrow> steps (rb_rows (sm_rb s) ! r) mod 256 \<noteq> 0) \<longrightarrow> f r w = w"
    "length ms = length sids"
    "\<forall>i < length sids. step_message prec (job_of s (sids ! i)) (row_nonce (f (rows ! i) (rb_rows (sm_rb s) ! (rows ! i))))
       (hist_of s (sids ! i)) (steps (rb_rows (sm_rb s) ! (rows ! i)) mod 256) = Inr (ms ! i)"
    "forward_draw (fs_admission fs) sids rows dists ?mn =
      (mn1\<lparr>mn_sampler := set_rows f s, mn_hasher := refresh_precision prec (mn_hasher mn1)\<rparr>,
       Inr (map2 draw (map di_cdf dists) (map sha256 ms)))"
    using forward_draw_result [OF mn_ok seats reg(4) ne lend assms(5) grind] by auto
  let ?ds = "map2 draw (map di_cdf dists) (map sha256 ms)"
  define tokens where "tokens = map2 (\<lambda>d (pos, u, dg). int (token_of_slot (di_compact d) pos)) dists ?ds"
  define slots where "slots flip = map2 (\<lambda>(sn, st) (d, dr). slot_of ?nu flip sn st d dr) (zip ?snaps ?stats) (zip dists ?ds)" for flip
  have lens: "length ?ds = length sids" "length tokens = length sids" "length (slots flip) = length sids" for flip
    using lend draws(3) L(2,3) reg(3) by (simp_all add: tokens_def slots_def)
  have nth: "?ds ! i = (fst (draw (di_cdf (dists ! i)) (sha256 (ms ! i))), digest_to_u (sha256 (ms ! i)), sha256 (ms ! i))"
    if "i < length sids" for i
    using that lend draws(3) draw_parts [of "di_cdf (dists ! i)" "sha256 (ms ! i)"] by (simp add: drawn_nth)
  have tok: "tokens ! i = int (token_of_slot (di_compact (dists ! i)) (fst (draw (di_cdf (dists ! i)) (sha256 (ms ! i)))))"
    if i: "i < length sids" for i
    using i lend lens(1) nth [OF i] by (simp add: tokens_def del: length_map map_map)
  have slot: "slots flip ! i = slot_of ?nu flip (?snaps ! i) (?stats ! i) (dists ! i) (?ds ! i)" if "i < length sids" for i flip
    using that lend lens(1) L(2,3) reg(3) by (simp add: slots_def)
  have tok_ok: "0 \<le> t \<and> i64_ok t" if t: "t \<in> set tokens" for t
  proof -
    obtain i where i: "i < length tokens" "tokens ! i = t"
      using t unfolding in_set_conv_nth by blast
    then have d: "dist_ok V (dists ! i)"
      using dists(3) lend lens(2) by (simp add: list_all_length)
    then have "fst (draw (di_cdf (dists ! i)) (sha256 (ms ! i))) < length (di_cdf (dists ! i))"
      by (intro draw_token_bound) (simp add: dist_ok_def)
    from dist_ok_token [OF d this] have "t \<le> int V" "0 \<le> t"
      using i tok [of i] lens(2) by simp_all
    moreover have "int V < 2 ^ 63"
      using L(5) by (metis of_nat_less_iff of_nat_numeral of_nat_power)
    ultimately show ?thesis
      unfolding i64_ok_def by linarith
  qed
  have slot_fine: "slot_ok (slots flip ! i) \<and> chosen_token (slots flip ! i) = tokens ! i \<and>
      sampling_u (slots flip ! i) = digest_to_u (sha256 (ms ! i))" if i: "i < length sids" for i flip
  proof -
    have row: "length (proof_logits ! i) = V" "?snaps ! i = forward_snapshot (nu_topk ?nu) (proof_logits ! i)"
      "length (?stats ! i) = 6"
      using i L(2,3,6) reg(3) by (simp_all add: stats_dims)
    then show ?thesis
      using snapshot_dims [OF nu(2), of "proof_logits ! i"] L(4)
      unfolding slot [OF i] nth [OF i] tok [OF i] by (simp add: slot_of_def slot_ok_def)
  qed
  have slots_ok: "list_all slot_ok (slots flip)" for flip
    using slot_fine lens(3) by (simp add: list_all_length)
  have fill_top_p: "md_top_p ?md = None \<or> (\<exists>ps. md_top_p ?md = Some ps \<and> length ps = ?B)"
    by (rule L(9))
  have jobs: "jobs_decode (sm_params (set_rows f s))"
    using alloc(2) by (simp add: sampler_ok_def core_def jobs_decode_def)
  obtain pm where pm: "fill_params ?md ?V pending (set_rows f s) = ((set_rows f s)\<lparr>sm_params := pm\<rparr>, Inr ())" "jobs_decode pm"
    "\<And>sid. Option.bind (map_of pm sid) sp_snapshot = Option.bind (map_of (sm_params s) sid) sp_snapshot"
    using fill_result [OF reg(6) L(7,8) fill_top_p ks jobs, of ?V] by auto
  have keep: "f r w = w" if "\<And>i. i < length sids \<Longrightarrow> rows ! i = r \<Longrightarrow> steps (rb_rows (sm_rb s) ! r) mod 256 \<noteq> 0" for r w
    using draws(2) that by blast
  have rep: "replays prec (job_of s (sids ! i)) (row_nonce (f (rows ! i) (rb_rows (sm_rb s) ! (rows ! i)))) (hist_of s (sids ! i))
      (steps (rb_rows (sm_rb s) ! (rows ! i)) mod 256) (slots flip ! i)" if "i < length sids" for flip i
    using draws(4) slot_fine [OF that] that unfolding replays_message by blast
  have tokens_ne: "tokens \<noteq> []"
    using ne lens(2) by auto
  have chosen: "\<And>flip i. i < length sids \<Longrightarrow> chosen_token (slots flip ! i) = tokens ! i"
    using slot_fine by blast
  have recorded: "\<exists>t. forward_record (fs_debug fs) now sids rows tokens slots ((set_rows f s)\<lparr>sm_params := pm\<rparr>) = (t, Inr ()) \<and>
    sampler_ok prec (Suc N) t \<and> sm_params t = pm \<and> sm_rows t = sm_rows s \<and> sm_req_ids t = sm_req_ids s \<and> sm_next_sid t = sm_next_sid s \<and>
    (\<forall>i < length sids. hist_of t (sids ! i) = hist_of s (sids ! i) @ [tokens ! i] \<and>
       steps (rb_rows (sm_rb t) ! (rows ! i)) = Suc (steps (rb_rows (sm_rb s) ! (rows ! i))))"
    by (rule step_recorded [where slots = slots])
      (fact alloc(2) alloc(4) reg(4) draws(1) pm(2,3) lens tokens_ne slots_ok | (rule keep tok_ok chosen rep; blast))+
  obtain t where rec: "forward_record (fs_debug fs) now sids rows tokens slots ((set_rows f s)\<lparr>sm_params := pm\<rparr>) = (t, Inr ())"
    "sampler_ok prec (Suc N) t" "sm_rows t = sm_rows s" "sm_req_ids t = sm_req_ids s" "sm_next_sid t = sm_next_sid s"
    "\<forall>i < length sids. hist_of t (sids ! i) = hist_of s (sids ! i) @ [tokens ! i] \<and>
       steps (rb_rows (sm_rb t) ! (rows ! i)) = Suc (steps (rb_rows (sm_rb s) ! (rows ! i)))"
    using recorded by blast
  let ?mn' = "mn1\<lparr>mn_sampler := t, mn_hasher := refresh_precision prec (mn_hasher mn1)\<rparr>"
  let ?m1 = "mn1\<lparr>mn_sampler := set_rows f s, mn_hasher := refresh_precision prec (mn_hasher mn1)\<rparr>"
  have runs: "on_sampler (forward_allocate ?md now sids) mn1 = (?mn, Inr rows)"
    "on_sampler (forward_dists (fs_compact fs) ?nu ?md sids ?snaps logits) ?mn = (?mn, Inr dists)"
    "on_sampler (fill_params ?md ?V pending) ?m1 = (?m1\<lparr>mn_sampler := (set_rows f s)\<lparr>sm_params := pm\<rparr>\<rparr>, Inr ())"
    "on_sampler (forward_record (fs_debug fs) now sids rows tokens slots) (?m1\<lparr>mn_sampler := (set_rows f s)\<lparr>sm_params := pm\<rparr>\<rparr>) = (?mn', Inr ())"
    by (simp_all add: on_sampler_def alloc(1) dists(1) pm(1) rec(1))
  have "forward_step fs now bi mn = (?mn', Inr (sids, tokens))"
    unfolding forward_step_def b prod.case Let_def
    by (rule run_bind_step, rule reg(1), unfold prod.case, rule run_bind_step, rule runs(1), rule run_bind_step, rule runs(2),
        rule run_bind_step, rule draws(5), rule run_bind_step, rule runs(3), fold tokens_def slots_def,
        rule run_bind_step, rule runs(4), simp add: run_get_def)
  moreover have "miner_ok prec (Suc N) ?mn'"
    using reg(2) rec(2,4,5) alloc(3) precision_ok_refresh share_ok_refresh by (simp add: miner_ok_def own_ids_def ids_ok_def)
  moreover have "\<exists>r. get_row (sm_rows t) (sids ! i) = Some r \<and> 0 < steps (rb_rows (sm_rb t) ! r) \<and>
      hist_of t (sids ! i) \<noteq> [] \<and> last (hist_of t (sids ! i)) = tokens ! i" if "i < length sids" for i
    using rec(3,6) alloc(4) that by (intro exI [of _ "rows ! i"]) (simp add: seated_def)
  ultimately show ?thesis
    using reg(3,4,7) lens(2) rec(3) alloc(5) by (intro exI [of _ ?mn'] exI [of _ sids] exI [of _ tokens]) simp
qed

end
