(* ===== verification/MiningFacts.thy ===== *)
theory MiningFacts
  imports ForwardFacts ProofsFacts
begin

text \<open>
  The whole of \<^verbatim>\<open>_pow_forward\<close> over a run of batches: the miner's invariant, and that a window the
  sampler hands over replays token by token.
\<close>

section \<open>After the record\<close>

lemma keeps_each: "(\<And>x. keeps P (f x)) \<Longrightarrow> keeps P (act_each f xs)"
  by (induction xs) (simp_all add: keeps_then keeps_def [of P "act_pure id"])

lemma keeps_free: "keeps (sampler_ok prec N) (free_sequence sid)"
  by (simp add: keeps_def free_sequence_ok)

lemma keeps_eos: "keeps (sampler_ok prec N) (check_eos sids tokens)"
proof -
  have "keeps (sampler_ok prec N) (if i < length sids then free_sequence (sids ! i) else (\<lambda>s. (s, Some IndexError)))" for i
    using keeps_free by (simp add: keeps_def)
  then have "keeps (sampler_ok prec N) (act_each (\<lambda>i. if i < length sids then free_sequence (sids ! i) else (\<lambda>s. (s, Some IndexError))) xs)" for xs
    by (rule keeps_each)
  then show ?thesis
    by (simp add: keeps_def check_eos_def)
qed

lemma keeps_cleanup: "keeps (sampler_ok prec N) (cleanup_stale_sequences now max_age interval)"
  unfolding keeps_def
proof (intro allI impI)
  fix s
  assume "sampler_ok prec N s"
  then have "sampler_ok prec N (s\<lparr>sm_last_cleanup := now\<rparr>)"
    by (simp add: sampler_ok_def core_def pool_ok_def seat_of_def)
  moreover have "keeps (sampler_ok prec N) (act_each free_sequence xs)" for xs
    by (rule keeps_each) (rule keeps_free)
  ultimately show "sampler_ok prec N (fst (cleanup_stale_sequences now max_age interval s))"
    using \<open>sampler_ok prec N s\<close> by (simp add: cleanup_stale_sequences_def Let_def keeps_def)
qed

definition run_keeps :: "('s \<Rightarrow> bool) \<Rightarrow> ('s, 'a) run \<Rightarrow> bool" where
  "run_keeps P f \<longleftrightarrow> (\<forall>s. P s \<longrightarrow> P (fst (f s)))"

lemma run_keeps_bind: "run_keeps P f \<Longrightarrow> (\<And>x. run_keeps P (g x)) \<Longrightarrow> run_keeps P (run_bind f g)"
  by (simp add: run_keeps_def run_bind_def case_prod_beta split: sum.split)

lemma run_keeps_get: "run_keeps P (run_get f)"
  by (simp add: run_keeps_def run_get_def)

lemma run_keeps_sampler:
  assumes "keeps (sampler_ok prec N) f" "forgets f"
  shows "run_keeps (\<lambda>mn. miner_ok prec N mn \<and> max_rows (sm_rows (mn_sampler mn)) = n) (on_sampler (run_act f))"
  unfolding run_keeps_def
proof (intro allI impI)
  fix mn
  assume mn: "miner_ok prec N mn \<and> max_rows (sm_rows (mn_sampler mn)) = n"
  have "fst (on_sampler (run_act f) mn) = mn\<lparr>mn_sampler := fst (f (mn_sampler mn))\<rparr>"
    by (simp add: on_sampler_def run_act_def split: prod.split option.split)
  then show "miner_ok prec N (fst (on_sampler (run_act f) mn)) \<and> max_rows (sm_rows (mn_sampler (fst (on_sampler (run_act f) mn)))) = n"
    using mn assms(1) own_ids_forgets [OF _ assms(2), of "mn_sampler mn"] by (simp add: miner_ok_def keeps_def)
qed

text \<open>Handing a window over changes neither the sampler nor the hasher nor the precision.\<close>

lemma write_proof_precision:
  "pw_compute_precision (fst (write_proof e q n ws dg sol params info cid nonce now pw)) = pw_compute_precision pw"
  by (simp add: write_proof_def Let_def split: sum.split)

lemma process_solution_frame:
  "mn_sampler (fst (process_solution cpp e stamp q row mn)) = mn_sampler mn"
  "mn_hasher (fst (process_solution cpp e stamp q row mn)) = mn_hasher mn"
  "pw_compute_precision (mn_proofs (fst (process_solution cpp e stamp q row mn))) = pw_compute_precision (mn_proofs mn)"
proof -
  have pw: "pw_compute_precision pw = pw_compute_precision (mn_proofs mn)"
    if "write_proof e q n ws dg sol params info cid nonce stamp (mn_proofs mn) = (pw, r)" for n ws dg sol params info cid nonce pw r
    using write_proof_precision [of e q n ws dg sol params info cid nonce stamp "mn_proofs mn"] that by simp
  have "mn_sampler (fst (process_solution_python e stamp q row mn)) = mn_sampler mn \<and>
      mn_hasher (fst (process_solution_python e stamp q row mn)) = mn_hasher mn \<and>
      pw_compute_precision (mn_proofs (fst (process_solution_python e stamp q row mn))) = pw_compute_precision (mn_proofs mn)"
    unfolding process_solution_python_def Let_def by (auto split: sum.splits option.splits prod.splits dest: pw)
  then show "mn_sampler (fst (process_solution cpp e stamp q row mn)) = mn_sampler mn"
    "mn_hasher (fst (process_solution cpp e stamp q row mn)) = mn_hasher mn"
    "pw_compute_precision (mn_proofs (fst (process_solution cpp e stamp q row mn))) = pw_compute_precision (mn_proofs mn)"
    by (auto simp: process_solution_def split: prod.splits sum.splits)
qed

lemma process_all_keeps: "run_keeps (\<lambda>mn. miner_ok prec N mn \<and> max_rows (sm_rows (mn_sampler mn)) = n) (process_all cpp e stamp ws)"
  unfolding run_keeps_def
proof (induction ws)
  case (Cons w ws)
  obtain sid row where w: "w = (sid, row)"
    by (cases w)
  show ?case
  proof (intro allI impI)
    fix mn
    assume mn: "miner_ok prec N mn \<and> max_rows (sm_rows (mn_sampler mn)) = n"
    obtain mn' err c where p: "process_solution cpp e stamp sid row mn = (mn', err, c)"
      by (metis prod_cases3)
    then have "miner_ok prec N mn' \<and> max_rows (sm_rows (mn_sampler mn')) = n"
      using mn process_solution_frame [of cpp e stamp sid row mn] by (simp add: miner_ok_def)
    then show "miner_ok prec N (fst (process_all cpp e stamp (w # ws) mn)) \<and>
        max_rows (sm_rows (mn_sampler (fst (process_all cpp e stamp (w # ws) mn)))) = n"
      using Cons.IH by (cases err) (simp_all add: w p case_prod_beta)
  qed
qed simp

lemma forward_finish_keeps:
  "run_keeps (\<lambda>mn. miner_ok prec N mn \<and> max_rows (sm_rows (mn_sampler mn)) = n) (forward_finish cpp e stamp now sids tokens)"
  unfolding forward_finish_def
proof (intro run_keeps_bind run_keeps_sampler keeps_eos keeps_cleanup forgets_eos forgets_cleanup process_all_keeps run_keeps_get)
  show "run_keeps (\<lambda>mn. miner_ok prec N mn \<and> max_rows (sm_rows (mn_sampler mn)) = n)
      (on_sampler (run_get (\<lambda>s. check_pow_solutions s sids)))"
    by (simp add: run_keeps_def on_sampler_def run_get_def)
qed

lemma pow_forward_keeps:
  assumes "settings_ok fs" "miner_ok prec N mn" "batch_ok N V bi" "length (bi_logits bi) \<le> max_rows (sm_rows (mn_sampler mn))"
    and "N \<le> 0xFFFFFFFF"
  shows "miner_ok prec (Suc N) (fst (pow_forward fs now stamp bi mn)) \<and>
    max_rows (sm_rows (mn_sampler (fst (pow_forward fs now stamp bi mn)))) = max_rows (sm_rows (mn_sampler mn))"
proof -
  obtain mn' sids tokens where step: "forward_step fs now bi mn = (mn', Inr (sids, tokens))" "miner_ok prec (Suc N) mn'"
    "max_rows (sm_rows (mn_sampler mn')) = max_rows (sm_rows (mn_sampler mn))"
    using forward_step_result [OF assms, of now] by blast
  let ?P = "\<lambda>x. miner_ok prec (Suc N) x \<and> max_rows (sm_rows (mn_sampler x)) = max_rows (sm_rows (mn_sampler mn))"
  have "run_keeps ?P (run_bind (forward_finish (fs_cpp fs) (fs_env fs) stamp now sids tokens) (\<lambda>calls. run_get (\<lambda>_. Inr (tokens, calls))))"
    by (intro run_keeps_bind forward_finish_keeps run_keeps_get)
  moreover have "pow_forward fs now stamp bi mn =
      run_bind (forward_finish (fs_cpp fs) (fs_env fs) stamp now sids tokens) (\<lambda>calls. run_get (\<lambda>_. Inr (tokens, calls))) mn'"
    by (simp add: pow_forward_def run_bind_def [of "forward_step fs now bi"] step(1))
  ultimately show ?thesis
    using step(2,3) by (simp add: run_keeps_def)
qed

text \<open>The states a miner comes to.  The deadline of the admission and the clocks are arbitrary.\<close>

inductive mines :: "settings \<Rightarrow> nat \<Rightarrow> miner \<Rightarrow> nat \<Rightarrow> miner \<Rightarrow> bool" for fs N mn where
  mines_start: "mines fs N mn 0 mn"
| mines_step: "mines fs N mn k mn' \<Longrightarrow> batch_ok (N + k) V bi \<Longrightarrow> length (bi_logits bi) \<le> max_rows (sm_rows (mn_sampler mn')) \<Longrightarrow>
    mines fs N mn (Suc k) (fst (pow_forward fs now stamp bi mn'))"

lemma mines_ok:
  assumes "mines fs N mn k mn'" "settings_ok fs" "miner_ok prec N mn" "N + k \<le> 2 ^ 32"
  shows "miner_ok prec (N + k) mn' \<and> max_rows (sm_rows (mn_sampler mn')) = max_rows (sm_rows (mn_sampler mn))"
  using assms(1,4)
proof induction
  case mines_start
  then show ?case
    using assms(3) by simp
next
  case (mines_step k mn' V bi now stamp)
  then have "miner_ok prec (N + k) mn'" "max_rows (sm_rows (mn_sampler mn')) = max_rows (sm_rows (mn_sampler mn))" "N + k \<le> 0xFFFFFFFF"
    by simp_all
  then show ?case
    using pow_forward_keeps [OF assms(2) _ mines_step.hyps(2,3), of prec now stamp] by simp
qed


section \<open>Finished windows\<close>

lemma against_total: "32 \<le> length t \<Longrightarrow> \<exists>bs. against_target hs t = Inr bs"
  by (simp add: against_target_def)

lemma seat_window_finishes:
  assumes "miner_ok prec N mn" "get_row (sm_rows (mn_sampler mn)) sid = Some r" "s = mn_sampler mn" "w = rb_rows (sm_rb s) ! r"
  shows "\<exists>f. finished_window sid r mn = Inr (Some f) \<and> fw_job f = job_of s sid \<and> fw_steps f = steps w \<and> fw_nonce f = row_nonce w \<and>
    fw_window f = map (\<lambda>i. ring w ! ((i + steps w mod 256) mod 256)) [0..<256]"
proof -
  have ok: "sampler_ok prec N s" "core s" "share_ok (mn_hasher mn)" "pw_compute_precision (mn_proofs mn) = Some prec"
    using assms(1,3) by (simp_all add: miner_ok_def sampler_ok_def)
  have row: "get_row (sm_rows s) sid = Some r"
    using assms(2,3) by simp
  then have range: "in_range (sm_rb s) r"
    by (rule core_row [OF ok(2)])
  have "seat_of prec N s sid r"
    using ok(1) row by (simp add: sampler_ok_def)
  then obtain ps j where ps: "map_of (sm_params s) sid = Some ps" "sp_snapshot ps = Some j"
    by (rule seatE) blast
  then have "job_decodes j"
    using ok(2) by (force simp: core_def)
  then obtain t h v bh tb sh where d: "ps_tick j = Some t" "\<bar>t\<bar> < 2 ^ 32" "hex_to_bytes_tensor (ps_header_prefix j) = Inr h"
    "hex_to_bytes_tensor (ps_vdf j) = Inr v" "hex_to_bytes_tensor (ps_block_hash j) = Inr bh"
    "hex_to_bytes_tensor (ps_target j) = Inr tb" "32 \<le> length tb" "hex_to_bytes_tensor (norm64 (ps_share_target j)) = Inr sh"
    unfolding job_decodes_def by (auto dest!: decodes_toE)
  obtain hd where header: "final_header j = Inr hd"
    using d by (cases "ps_header_prefix j = []") (auto simp: final_header_def)
  have window: "get_window (sm_rb s) r = Inr (map (\<lambda>i. ring w ! ((i + steps w mod 256) mod 256)) [0..<256])"
    using range ok(2) by (simp add: get_window_def core_def assms(4) Let_def)
  let ?ws = "map (\<lambda>i. ring w ! ((i + steps w mod 256) mod 256)) [0..<256]"
  obtain dg where dg: "final_digest j w (sm_window s) ?ws (Some prec) = Inr dg"
    using d(1,2,4) header by (simp add: final_digest_def key_def tick_bytes_def)
  obtain sol where sol: "check_solution (mn_hasher mn) [dg] (Some (pow_snapshot.truncate j)) = Inr sol"
    using d(3,5,6) against_total [OF d(7)]
    by (cases "ps_header_prefix j = []"; cases "h = []") (auto simp: check_solution_def truncate_simps)
  have "\<exists>shr. check_share_solution (mn_hasher mn) [dg] (Some (pow_snapshot.truncate j)) = Inr shr"
  proof -
    obtain hd' where "snapshot_header (pow_snapshot.truncate j) = Inr hd'"
      using d(3,5) by (cases "ps_header_prefix j = []"; cases "h = []") (auto simp: snapshot_header_def truncate_simps)
    moreover have "length sh = 32"
      using hex_to_bytes_length [OF d(8)] .
    ultimately show ?thesis
      using d(8) ok(3) against_total [of sh] against_total
      by (cases "ps_share_target j = []"; cases "ph_share_target (mn_hasher mn)")
        (simp_all add: check_share_solution_def truncate_simps share_ok_def)
  qed
  then obtain shr where shr: "check_share_solution (mn_hasher mn) [dg] (Some (pow_snapshot.truncate j)) = Inr shr"
    by blast
  have "pow_admission_valid_host w = pow_admission_valid w"
    using core_row_ok [OF ok(2) range] assms(4) by (simp add: row_ok_def)
  then show ?thesis
    using ps d window dg sol shr ok(4) assms(4)
    by (simp add: finished_window_def Let_def assms(3) [symmetric] job_of_def row_nonce_def)
qed

text \<open>A full window: the slots in order, each a step over the tokens before it, and together the last 256 tokens.\<close>

definition window_replays :: "string \<Rightarrow> finished \<Rightarrow> int list \<Rightarrow> bool" where
  "window_replays prec f hist \<longleftrightarrow> 256 \<le> length hist \<and> length (fw_window f) = 256 \<and>
     list_all (\<lambda>i. replays prec (fw_job f) (fw_nonce f) (take (length hist - 256 + i) hist) i (fw_window f ! i)) [0..<256] \<and>
     map chosen_token (fw_window f) = drop (length hist - 256) hist"

lemma seat_window_replays:
  assumes "miner_ok prec N mn" "get_row (sm_rows (mn_sampler mn)) sid = Some r"
    and "window_done 256 (steps (rb_rows (sm_rb (mn_sampler mn)) ! r))"
  shows "\<exists>f. finished_window sid r mn = Inr (Some f) \<and> window_replays prec f (hist_of (mn_sampler mn) sid)"
proof -
  let ?s = "mn_sampler mn" and ?hist = "hist_of (mn_sampler mn) sid"
  let ?w = "rb_rows (sm_rb ?s) ! r"
  obtain f where f: "finished_window sid r mn = Inr (Some f)" "fw_job f = job_of ?s sid" "fw_nonce f = row_nonce ?w"
    "fw_window f = map (\<lambda>i. ring ?w ! ((i + steps ?w mod 256) mod 256)) [0..<256]"
    using seat_window_finishes [OF assms(1,2) refl refl] by blast
  have seat: "seat_of prec N ?s sid r"
    using assms(1,2) by (simp add: miner_ok_def sampler_ok_def)
  have full: "0 < steps ?w" "steps ?w mod 256 = 0"
    using assms(3) by (simp_all add: window_done_def)
  then obtain m where m: "steps ?w = 256 * Suc m"
    by (metis gr0_conv_Suc mod_0_imp_dvd dvdE mult_0_right nat.exhaust)
  have start: "window_start (steps ?w) = 256 * m"
    by (simp add: window_start_def m)
  have rr: "row_replays prec (job_of ?s sid) ?w ?hist"
    by (rule seat_facts(2) [OF seat])
  then have len: "256 * Suc m \<le> length ?hist"
    by (simp add: row_replays_def m)
  have each: "replays prec (job_of ?s sid) (row_nonce ?w) (take (length ?hist - 256 + i) ?hist) i (ring ?w ! i)"
    "chosen_token (ring ?w ! i) = ?hist ! (length ?hist - 256 + i)" if i: "i < 256" for i
  proof -
    have q: "256 * m + i \<in> set [window_start (steps ?w)..<steps ?w]"
      using i unfolding start by (simp add: m)
    have k: "length ?hist - (steps ?w - (256 * m + i)) = length ?hist - 256 + i"
      using i len by (simp add: m)
    have pos: "(256 * m + i) mod 256 = i"
      using i by simp
    note all = bspec [OF conjunct2 [OF rr [unfolded row_replays_def]] q, unfolded Let_def k pos]
    show "replays prec (job_of ?s sid) (row_nonce ?w) (take (length ?hist - 256 + i) ?hist) i (ring ?w ! i)"
      by (rule conjunct1 [OF all])
    show "chosen_token (ring ?w ! i) = ?hist ! (length ?hist - 256 + i)"
      by (rule conjunct2 [OF all])
  qed
  have slot: "fw_window f ! i = ring ?w ! i" "length (fw_window f) = 256" if "i < 256" for i
    using that by (simp_all add: f(4) full(2))
  have "map chosen_token (fw_window f) = drop (length ?hist - 256) ?hist"
  proof (rule nth_equalityI)
    show "length (map chosen_token (fw_window f)) = length (drop (length ?hist - 256) ?hist)"
      using len slot(2) [of 0] by simp
    fix i
    assume "i < length (map chosen_token (fw_window f))"
    then have "i < 256"
      using slot(2) [of 0] by simp
    then show "map chosen_token (fw_window f) ! i = drop (length ?hist - 256) ?hist ! i"
      using each(2) [of i] slot [of i] len by simp
  qed
  then have "window_replays prec f ?hist"
    using each(1) slot slot(2) [of 0] len by (simp add: window_replays_def list_all_iff f(2,3))
  then show ?thesis
    using f(1) by blast
qed


section \<open>What a step promises\<close>

text \<open>The token drawn last for a sequence, as its row and its cache hold it.\<close>

definition token_replays :: "string \<Rightarrow> sampler \<Rightarrow> nat \<Rightarrow> int \<Rightarrow> bool" where
  "token_replays prec s sid tok = (case get_row (sm_rows s) sid of
      None \<Rightarrow> False
    | Some r \<Rightarrow>
        (let w = rb_rows (sm_rb s) ! r; n = steps w - 1; sl = ring w ! (n mod 256); hist = hist_of s sid
         in 0 < steps w \<and> hist \<noteq> [] \<and> last hist = tok \<and> chosen_token sl = tok \<and>
            replays prec (job_of s sid) (row_nonce w) (butlast hist) (n mod 256) sl))"

lemma seat_token:
  assumes "sampler_ok prec N s" "get_row (sm_rows s) sid = Some r" "0 < steps (rb_rows (sm_rb s) ! r)" "hist_of s sid \<noteq> []"
  shows "token_replays prec s sid (last (hist_of s sid))"
proof -
  let ?w = "rb_rows (sm_rb s) ! r" and ?hist = "hist_of s sid"
  have "seat_of prec N s sid r"
    using assms(1,2) by (simp add: sampler_ok_def)
  then have rr: "row_replays prec (job_of s sid) ?w ?hist"
    by (rule seat_facts(2))
  have "256 * ((steps ?w - 1) div 256) \<le> steps ?w - 1"
    by simp
  then have q: "steps ?w - 1 \<in> set [window_start (steps ?w)..<steps ?w]"
    using assms(3) by (simp add: window_start_def)
  have k: "length ?hist - (steps ?w - (steps ?w - 1)) = length ?hist - 1"
    using assms(3) by simp
  note at_q = bspec [OF conjunct2 [OF rr [unfolded row_replays_def]] q, unfolded Let_def k]
  show ?thesis
    using at_q assms(2-4) by (simp add: token_replays_def Let_def butlast_conv_take last_conv_nth)
qed

lemma mining_step:
  assumes "settings_ok fs" "miner_ok prec N mn" "mines fs N mn k mn1" "batch_ok (N + k) V bi"
    and "length (bi_logits bi) \<le> max_rows (sm_rows (mn_sampler mn))" "N + k < 2 ^ 32"
  shows "\<exists>mn2 sids tokens. forward_step fs now bi mn1 = (mn2, Inr (sids, tokens)) \<and> length tokens = length (bi_logits bi) \<and>
    distinct sids \<and> list_all2 (token_replays prec (mn_sampler mn2)) sids tokens"
proof -
  have reach: "miner_ok prec (N + k) mn1 \<and> max_rows (sm_rows (mn_sampler mn1)) = max_rows (sm_rows (mn_sampler mn))"
    using assms(6) by (intro mines_ok [OF assms(3,1,2)]) simp
  have size: "length (bi_logits bi) \<le> max_rows (sm_rows (mn_sampler mn1))" "N + k \<le> 0xFFFFFFFF"
    using reach assms(5,6) by simp_all
  obtain mn2 sids tokens where step: "forward_step fs now bi mn1 = (mn2, Inr (sids, tokens))" "miner_ok prec (Suc (N + k)) mn2"
    "length sids = length (bi_logits bi)" "distinct sids" "length tokens = length sids"
    "\<forall>i < length sids. \<exists>r. get_row (sm_rows (mn_sampler mn2)) (sids ! i) = Some r \<and> 0 < steps (rb_rows (sm_rb (mn_sampler mn2)) ! r) \<and>
       hist_of (mn_sampler mn2) (sids ! i) \<noteq> [] \<and> last (hist_of (mn_sampler mn2) (sids ! i)) = tokens ! i"
    using forward_step_result [OF assms(1) conjunct1 [OF reach] assms(4) size, of now] by blast
  have "token_replays prec (mn_sampler mn2) (sids ! i) (tokens ! i)" if "i < length sids" for i
    using seat_token [of prec "Suc (N + k)" "mn_sampler mn2" "sids ! i"] step(2,6) that by (force simp: miner_ok_def)
  then have "list_all2 (token_replays prec (mn_sampler mn2)) sids tokens"
    using step(5) by (simp add: list_all2_conv_all_nth)
  then show ?thesis
    using step by auto
qed

text \<open>C1: From every state that batches of mining requests lead to, a step on another one returns, with one token for every row and distinct
  sequences, and each of these tokens replays: the slot recorded for it holds the token, its uniform number is the one that the
  digest of the step message of the job, over the tokens before it and with the nonce of its row, gives, and the token ends the
  archive of its sequence.\<close>

theorem step_returns_and_replays:
  assumes "settings_ok fs" "miner_ok prec N mn" "mines fs N mn k mn1" "batch_ok (N + k) V bi"
    and "length (bi_logits bi) \<le> max_rows (sm_rows (mn_sampler mn))" "N + k < 2 ^ 32"
  shows "\<exists>mn2 sids tokens. forward_step fs now bi mn1 = (mn2, Inr (sids, tokens)) \<and> length tokens = length (bi_logits bi) \<and>
    distinct sids \<and> list_all2 (token_replays prec (mn_sampler mn2)) sids tokens"
  by (rule mining_step [OF assms])

text \<open>C2: In every state that batches of mining requests lead to, a row whose last window is complete is handed over without an error,
  whatever its job is: the proof gets 256 slots, the slot at position i replays as step i over the tokens before it with the
  nonce of the window, and their tokens are the last 256 of the sequence.\<close>

theorem finished_window_replays:
  assumes "settings_ok fs" "miner_ok prec N mn" "mines fs N mn k mn1" "N + k \<le> 2 ^ 32"
    and "get_row (sm_rows (mn_sampler mn1)) sid = Some r" "window_done 256 (steps (rb_rows (sm_rb (mn_sampler mn1)) ! r))"
  shows "\<exists>f. finished_window sid r mn1 = Inr (Some f) \<and> window_replays prec f (hist_of (mn_sampler mn1) sid)"
  by (rule seat_window_replays [OF conjunct1 [OF mines_ok [OF assms(3,1,2,4)]] assms(5,6)])

section \<open>Instances\<close>

definition demo_numerics :: numerics where
  "demo_numerics = \<lparr>nu_topk = (\<lambda>n row. take n (stable_desc row)), nu_softmax = quarters, nu_add = dyadic_add,
     nu_prev_cum = (\<lambda>xs. map (\<lambda>_. 0) xs), nu_logsumexp = (\<lambda>_. Fin 3 0), nu_mean = (\<lambda>_. Fin 1 0), nu_tail = (\<lambda>_ _. Fin 1 0),
     nu_overall = (\<lambda>_. Fin 1 0), nu_value = (\<lambda>_. Fin 0 0)\<rparr>"

definition demo_settings :: settings where
  "demo_settings = \<lparr>fs_admission = demo_admission, fs_numerics = demo_numerics, fs_compact = True, fs_debug = False,
     fs_cpp = False, fs_env = demo_env\<rparr>"

lemma demo_settings_ok: "settings_ok demo_settings"
proof -
  have "topk_law (nu_topk demo_numerics)"
    using stable_topk by (simp add: demo_numerics_def)
  then show ?thesis
    by (simp add: settings_ok_def numerics_ok_def demo_settings_def demo_numerics_def quarters_def demo_admission_def grind_ok_def)
qed

definition demo_pow :: "int \<Rightarrow> pow_data" where
  "demo_pow tick = \<lparr>pl_block_hash = Some (to_hex demo_target), pl_vdf = Some ''ff'', pl_tick = Some tick, pl_request_id = Some 1,
     pl_target = Some (to_hex demo_target), pl_share_target = [], pl_difficulty = Some 5, pl_header_prefix = Some ''0a0b'',
     pl_ipfs_cid = None, pd_audit_emit = None\<rparr>"

definition demo_batch :: batch_in where
  "demo_batch = \<lparr>bi_logits = [replicate 70 (Val 0)], bi_pre_temp = None,
     bi_meta = \<lparr>md_extra_args = Some [(0, \<lparr>ea_req_id = Some ''r'', ea_pad_id = Some 0, ea_completion_id = None,
         ea_request_item_id = None, ea_pow = Some (demo_pow 7)\<rparr>)],
       md_prompt_token_ids = Some [[1, 2, 3]], md_temperature = [Fin 1 0], md_top_p = Some [Fin 1 0], md_top_k = Some [50],
       md_repetition_penalties = [Fin 1 0]\<rparr>\<rparr>"

definition demo_job :: job where
  "demo_job = \<lparr>ps_tick = Some 7, ps_request_id = 1, ps_header_prefix = ''0a0b'', ps_vdf = ''ff'', ps_block_hash = to_hex demo_target,
     ps_target = to_hex demo_target, ps_share_target = [], job_difficulty = Some 5, job_ipfs_cid = None, job_audit_emit = False\<rparr>"

lemma demo_job_decodes: "job_decodes demo_job"
proof -
  have len: "length (to_hex demo_target) = 64"
    by (simp add: demo_target_def)
  then have "norm64 (to_hex demo_target) = to_hex demo_target"
    by (simp add: norm64_def)
  moreover have "hex_to_bytes_tensor (norm64 []) = Inr (replicate 32 0)"
    using unhexlify_zeros [of 32] by (simp add: norm64_def hex_to_bytes_tensor_def)
  moreover have "length demo_target = 32"
    by (simp add: demo_target_def)
  ultimately show ?thesis
    by (simp add: job_decodes_def demo_job_def decodes_to_def demo_hex del: to_hex.simps)
qed

lemma demo_batch_ok: "batch_ok 3 70 demo_batch"
proof -
  have md: "extra_at (bi_meta demo_batch) 0 = Some \<lparr>ea_req_id = Some ''r'', ea_pad_id = Some 0, ea_completion_id = None,
      ea_request_item_id = None, ea_pow = Some (demo_pow 7)\<rparr>"
    by (simp add: demo_batch_def extra_at_def)
  have "job_of_payload (demo_pow 7) = Inr demo_job" "pow_given (demo_pow 7)"
    by (simp_all add: job_of_payload_def demo_pow_def demo_job_def key_def pow_given_def payload.defs)
  then have "carries_job (bi_meta demo_batch) 0"
    using demo_job_decodes by (simp add: carries_job_def md payload_decodes_def)
  then have "requests_ok 3 (bi_meta demo_batch) 1"
    by (simp add: requests_ok_def stable_req_ids_def md key_def)
      (simp add: safe_prompt_tokens_def demo_batch_def key_def i64_ok_def)
  moreover have "batch_logits demo_batch = ([replicate 70 (Val 0)], [replicate 70 (Val 0)])"
    by (simp add: batch_logits_def demo_batch_def fix_logits_def)
  ultimately show ?thesis
    by (simp add: batch_ok_def logits_ok_def demo_batch_def canonical_k_def list_all_iff)
qed

definition demo_start :: miner where
  "demo_start = \<lparr>mn_sampler = sampler_init 256 2 99 True 0, mn_hasher = hasher_init,
     mn_proofs = set_compute_precision (Some ''fp16'') proof_writer_init, mn_world = demo_egress, mn_next = 0, mn_proxy_audit = False\<rparr>"

lemma demo_start_ok: "miner_ok ''fp16'' 3 demo_start" "max_rows (sm_rows (mn_sampler demo_start)) = 2"
proof -
  have "sampler_ok ''fp16'' 3 (sampler_init 256 2 99 True 0)"
    by (simp add: sampler_ok_def core_def pool_ok_def sampler_init_def rm_ok_init rb_ok_init)
      (simp add: rb_init_def rm_init_def get_row_def)
  then show "miner_ok ''fp16'' 3 demo_start" "max_rows (sm_rows (mn_sampler demo_start)) = 2"
    using precision_ok_init
    by (simp_all add: miner_ok_def demo_start_def own_ids_def ids_ok_def share_ok_def hasher_init_def set_compute_precision_def)
      (simp_all add: sampler_init_def rm_init_def)
qed

theorem step_returns_and_replays_witness:
  "\<exists>mn2 sids tokens. forward_step demo_settings 0 demo_batch demo_start = (mn2, Inr (sids, tokens)) \<and> length tokens = length (bi_logits demo_batch) \<and>
    distinct sids \<and> list_all2 (token_replays ''fp16'' (mn_sampler mn2)) sids tokens"
proof (rule step_returns_and_replays [OF demo_settings_ok demo_start_ok(1) mines_start])
  show "batch_ok (3 + 0) 70 demo_batch"
    using demo_batch_ok by simp
  show "length (bi_logits demo_batch) \<le> max_rows (sm_rows (mn_sampler demo_start))"
    by (simp add: demo_start_ok(2)) (simp add: demo_batch_def)
qed simp


text \<open>A row at the end of its first window: 256 zero tokens, each drawn with the number its step gives.\<close>

definition demo_u :: "nat \<Rightarrow> f64" where
  "demo_u q = (case step_message ''fp16'' demo_job None (replicate q 0) q of Inl _ \<Rightarrow> NaN | Inr m \<Rightarrow> digest_to_u (sha256 m))"

definition demo_row :: rb_row where
  "demo_row = (blank_row 256)\<lparr>ring := map (\<lambda>q. blank_slot\<lparr>sampling_u := demo_u q\<rparr>) [0..<256], steps := 256, steps_host := 256,
     pow_tick := 7, pow_header := [10, 11] @ replicate 74 0, pow_header_len := 2, pow_header_len_host := 2,
     pow_vdf := 255 # replicate 1023 0, pow_vdf_len := 1, pow_vdf_len_host := 1, pow_valid := True\<rparr>"

definition demo_full :: miner where
  "demo_full = demo_start\<lparr>mn_sampler := (sampler_init 256 2 99 True 0)\<lparr>
     sm_rows := fst (allocate_row (rm_init 2) 7),
     sm_rb := (rb_init 256 2 True)\<lparr>rb_rows := [demo_row, blank_row 256]\<rparr>\<lparr>steps_host_ok := True\<rparr>,
     sm_caches := [(7, fresh_cache 256 0 (replicate 256 0))],
     sm_params := [(7, \<lparr>sp_temperature = None, sp_top_p = None, sp_top_k = None, sp_repetition_penalty = None,
        sp_completion_id = ''r'', sp_request_item_id = ''r'', sp_base_completion_id = ''r'', sp_snapshot = Some demo_job\<rparr>)],
     sm_req_ids := [(''r'', 7)], sm_next_sid := 8\<rparr>\<rparr>"

lemma demo_parts: "job_parts demo_job = Inr ([10, 11], [255], 7)"
  by (simp add: job_parts_def final_header_def demo_job_def demo_hex key_def del: to_hex.simps)

lemma demo_message: "\<exists>m. step_message ''fp16'' demo_job None (replicate q 0) q = Inr m"
proof -
  have "list_all i64_ok (left_pad 256 0 (replicate q 0))"
    by (rule left_pad_i64) (simp add: list_all_iff i64_ok_def)
  then show ?thesis
    by (simp add: step_message_def demo_parts step_message_total)
qed

lemma demo_row_replays: "row_replays ''fp16'' demo_job demo_row (replicate 256 0)"
proof -
  have row: "steps demo_row = 256" "row_nonce demo_row = None" "ring demo_row = map (\<lambda>q. blank_slot\<lparr>sampling_u := demo_u q\<rparr>) [0..<256]"
    by (simp_all add: demo_row_def row_nonce_def blank_row_def)
  have one: "replays ''fp16'' demo_job None (take q (replicate 256 0)) q (ring demo_row ! q) \<and> chosen_token (ring demo_row ! q) = replicate 256 0 ! q"
    if q: "q < 256" for q
  proof -
    obtain m where m: "step_message ''fp16'' demo_job None (replicate q 0) q = Inr m"
      using demo_message by blast
    have "take q (replicate 256 0) = replicate q (0 :: int)"
      using q by (simp only: take_replicate) simp
    moreover have "ring demo_row ! q = blank_slot\<lparr>sampling_u := digest_to_u (sha256 m)\<rparr>"
      using q m by (simp add: row(3) demo_u_def)
    moreover have "replicate 256 (0 :: int) ! q = 0"
      using q by (rule nth_replicate)
    ultimately show ?thesis
      using m by (simp add: replays_message blank_slot_def)
  qed
  have len: "length (replicate 256 (0 :: int)) = 256"
    by (rule length_replicate)
  show ?thesis
    unfolding row_replays_def row(1,2) len
  proof (intro conjI ballI)
    fix q
    assume "q \<in> set [window_start 256..<256]"
    then have "q < 256"
      by simp
    then show "let k = 256 - (256 - q); sl = ring demo_row ! (q mod 256)
        in replays ''fp16'' demo_job None (take k (replicate 256 0)) (q mod 256) sl \<and> chosen_token sl = replicate 256 0 ! k"
      using one [of q] by (simp only: Let_def mod_less diff_diff_cancel less_imp_le_nat)
  qed simp
qed

lemma demo_full_ok: "miner_ok ''fp16'' 256 demo_full" "get_row (sm_rows (mn_sampler demo_full)) 7 = Some 0"
  "window_done 256 (steps (rb_rows (sm_rb (mn_sampler demo_full)) ! 0))"
proof -
  let ?s = "mn_sampler demo_full"
  have rows: "sm_rows ?s = fst (allocate_row (rm_init 2) 7)" "snd (allocate_row (rm_init 2 :: nat row_manager) 7) = Some 0"
    by (simp_all add: demo_full_def allocate_row_def rm_init_def upt_rec)
  have get: "get_row (sm_rows ?s) sid = (if sid = 7 then Some 0 else None)" for sid
    using get_allocate [of "rm_init 2" 7 sid] rows by (simp add: get_row_def rm_init_def)
  then show "get_row (sm_rows ?s) 7 = Some 0"
    by simp
  have row: "rb_rows (sm_rb ?s) ! 0 = demo_row"
    by (simp add: demo_full_def)
  then show "window_done 256 (steps (rb_rows (sm_rb ?s) ! 0))"
    by (simp add: window_done_def demo_row_def)
  have r_ok: "row_ok 256 demo_row"
    by (simp add: row_ok_def demo_row_def blank_row_def list_all_iff slot_ok_def) (simp add: blank_slot_def)
  have "rb_ok (sm_rb ?s)"
    using r_ok row_ok_blank [of 256] by (simp add: rb_ok_def demo_full_def rb_init_def) (simp add: demo_row_def blank_row_def)
  moreover have "pool_ok ?s"
    using allocate_ok [OF rm_ok_init, of 2 "7 :: nat"] allocate_row_max [of "rm_init 2" "7 :: nat"]
    by (simp add: pool_ok_def rows) (simp add: demo_full_def rm_init_def)
  ultimately have "core ?s"
    using demo_job_decodes by (simp add: core_def) (simp add: demo_full_def sampler_init_def rb_init_def)
  moreover have "seat_of ''fp16'' 256 ?s 7 0"
  proof -
    have zeros: "list_all i64_ok (replicate 256 0)" "length (replicate 256 (0 :: int)) \<le> 256"
      by (simp_all add: list_all_iff i64_ok_def)
    have "holds_job demo_job demo_row"
      by (simp add: holds_job_def demo_parts row_parts_def demo_row_def)
    moreover have "archive_list (fresh_cache 256 0 (replicate 256 0)) = replicate 256 0"
      by (simp only: fresh_cache_def Let_def seq_cache.simps)
    ultimately show ?thesis
      unfolding seat_of_def row using cache_ok_fresh [OF zeros] demo_row_replays by (simp add: seat_def) (simp add: demo_full_def)
  qed
  ultimately have "sampler_ok ''fp16'' 256 ?s"
    by (simp add: sampler_ok_def get)
  moreover have "own_ids ?s"
    by (simp add: own_ids_def ids_ok_def demo_full_def inj_on_def)
  ultimately show "miner_ok ''fp16'' 256 demo_full"
    using demo_start_ok(1) by (simp add: miner_ok_def) (simp add: demo_full_def)
qed

theorem finished_window_replays_witness:
  "\<exists>f. finished_window 7 0 demo_full = Inr (Some f) \<and> window_replays ''fp16'' f (hist_of (mn_sampler demo_full) 7)"
  by (rule finished_window_replays [OF demo_settings_ok demo_full_ok(1) mines_start _ demo_full_ok(2,3)]) simp


section \<open>The first step of a sequence\<close>

definition batch_sids :: "(nat \<times> nat \<times> string) list \<Rightarrow> nat list" where
  "batch_sids xs = map (\<lambda>(i, sid, rid). sid) xs"

lemma new_params_unfilled: "new_params x rid = Inr ps \<Longrightarrow> sp_top_p ps = None \<and> sp_top_k ps = None \<and> sp_repetition_penalty ps = None"
  by (auto simp: new_params_def Let_def rbind_Inr_iff)

lemma register_fresh:
  assumes "register md xs s = (s1, Inr pending)" "distinct (batch_sids xs)" "\<forall>sid \<in> set (batch_sids xs). map_of (sm_params s) sid = None"
  shows "pending = map (\<lambda>(i, sid, rid). (sid, i)) xs \<and>
    (\<forall>sid. if sid \<in> set (batch_sids xs)
       then \<exists>ps. map_of (sm_params s1) sid = Some ps \<and> sp_top_p ps = None \<and> sp_top_k ps = None \<and> sp_repetition_penalty ps = None
       else map_of (sm_params s1) sid = map_of (sm_params s) sid)"
  using assms
proof (induction xs arbitrary: s pending)
  case Nil
  then show ?case
    by (simp add: batch_sids_def)
next
  case (Cons x xs)
  obtain i sid rid where x: "x = (i, sid, rid)"
    by (cases x)
  then have new: "map_of (sm_params s) sid = None" "sid \<notin> set (batch_sids xs)" "distinct (batch_sids xs)"
    using Cons.prems(2,3) by (simp_all add: batch_sids_def)
  obtain ps where ps: "new_params (extra_at md i) rid = Inr ps"
    using Cons.prems(1) new(1) by (cases "new_params (extra_at md i) rid") (simp_all add: x)
  let ?s = "s\<lparr>sm_params := AList.update sid ps (sm_params s)\<rparr>"
  obtain rest where rest: "register md xs ?s = (s1, Inr rest)" "pending = (sid, i) # rest"
    using Cons.prems(1) new(1) by (auto simp: x ps rbind_Inr_iff split: prod.splits)
  have "batch_sids (x # xs) = sid # batch_sids xs"
    by (simp add: batch_sids_def x)
  then have "\<forall>k \<in> set (batch_sids xs). map_of (sm_params ?s) k = None"
    using Cons.prems(3) new(2) by (auto simp: update_conv)
  note ih = Cons.IH [OF rest(1) new(3) this]
  show ?case
  proof (intro conjI allI)
    show "pending = map (\<lambda>(i, sid, rid). (sid, i)) (x # xs)"
      using ih rest(2) by (simp add: x)
    fix k
    have "if k \<in> set (batch_sids xs)
       then \<exists>ps. map_of (sm_params s1) k = Some ps \<and> sp_top_p ps = None \<and> sp_top_k ps = None \<and> sp_repetition_penalty ps = None
       else map_of (sm_params s1) k = map_of (sm_params ?s) k"
      using ih by blast
    then show "if k \<in> set (batch_sids (x # xs))
       then \<exists>ps. map_of (sm_params s1) k = Some ps \<and> sp_top_p ps = None \<and> sp_top_k ps = None \<and> sp_repetition_penalty ps = None
       else map_of (sm_params s1) k = map_of (sm_params s) k"
      using new(2) new_params_unfilled [OF ps] by (cases "k = sid") (simp_all add: x batch_sids_def update_conv split: if_splits)
  qed
qed

lemma fill_sets_top_p:
  assumes "fill_params md V pending s = (s2, Inr ())" "distinct (map fst pending)" "(sid, i) \<in> set pending" "map_of (sm_params s) sid \<noteq> None"
    and "md_top_p md = Some ps"
  shows "\<exists>q. map_of (sm_params s2) sid = Some q \<and> sp_top_p q = Some (ps ! i)"
proof -
  define val where "val = (\<lambda>(sid :: nat, i). rbind (pick (md_temperature md) i) (\<lambda>t.
      rbind (case md_top_p md of None \<Rightarrow> Inr (Fin 1 0) | Some ps \<Rightarrow> pick ps i) (\<lambda>p.
      rbind (case md_top_k md of None \<Rightarrow> Inr (int V) | Some ks \<Rightarrow> pick ks i) (\<lambda>k.
      rbind (pick (md_repetition_penalties md) i) (\<lambda>r. Inr (sid, t, p, k, if float_true r then r else Fin 1 0))))))"
  define upd where "upd = (\<lambda>(sid, t, p, k, r) (pm :: (nat \<times> seq_params) list). case map_of pm sid of
      None \<Rightarrow> pm
    | Some ps \<Rightarrow> AList.update sid (ps\<lparr>sp_temperature := Some t, sp_top_p := Some p, sp_top_k := Some k, sp_repetition_penalty := Some r\<rparr>) pm)"
  have f: "fill_params md V pending s = (case mapr val pending of Inl e \<Rightarrow> (s, Inl e)
      | Inr vals \<Rightarrow> (s\<lparr>sm_params := fold upd vals (sm_params s)\<rparr>, Inr ()))"
    using assms(3) unfolding fill_params_def val_def upd_def by auto
  obtain vals where vals: "mapr val pending = Inr vals" "s2 = s\<lparr>sm_params := fold upd vals (sm_params s)\<rparr>"
    using assms(1) by (auto simp: f split: sum.splits)
  have val: "fst v = fst x \<and> fst (snd (snd v)) = ps ! snd x" if "val x = Inr v" for x v
    using that assms(5) by (cases x) (auto simp: val_def rbind_Inr_iff pick_def split: if_splits)
  have at: "fst (vals ! n) = fst (pending ! n) \<and> fst (snd (snd (vals ! n))) = ps ! snd (pending ! n)" if "n < length pending" for n
    using val mapr_InrD [OF vals(1) that] by blast
  have len: "length vals = length pending"
    using mapr_length [OF vals(1)] .
  then have keys: "map fst vals = map fst pending"
    using at by (intro nth_equalityI) simp_all
  obtain n where n: "n < length pending" "pending ! n = (sid, i)"
    using assms(3) by (metis in_set_conv_nth)
  define v where "v = vals ! n"
  have v: "v \<in> set vals" "fst v = sid" "fst (snd (snd v)) = ps ! i"
    using at [OF n(1)] n len by (simp_all add: v_def)
  have other: "map_of (fold upd ws pm) sid = map_of pm sid" if "sid \<notin> fst ` set ws" for ws pm
    using that
  proof (induction ws arbitrary: pm)
    case (Cons w ws)
    then have "map_of (upd w pm) sid = map_of pm sid"
      by (cases w) (auto simp: upd_def update_conv split: option.split)
    then show ?case
      using Cons by simp
  qed simp
  have "\<exists>q. map_of (fold upd ws pm) sid = Some q \<and> sp_top_p q = Some (ps ! i)"
    if "v \<in> set ws" "distinct (map fst ws)" "map_of pm sid \<noteq> None" for ws pm
    using that
  proof (induction ws arbitrary: pm)
    case (Cons w ws)
    show ?case
    proof (cases "w = v")
      case True
      then have "sid \<notin> fst ` set ws"
        using Cons.prems(2) v(2) by auto
      moreover have "\<exists>q. map_of (upd v pm) sid = Some q \<and> sp_top_p q = Some (ps ! i)"
        using v(2,3) Cons.prems(3) by (cases v) (auto simp: upd_def update_conv split: option.split)
      ultimately show ?thesis
        using other [of ws "upd v pm"] True by simp
    next
      case False
      moreover have "map_of (upd w pm) sid \<noteq> None"
        using Cons.prems(3) by (cases w) (auto simp: upd_def update_conv split: option.split)
      ultimately show ?thesis
        using Cons.IH [of "upd w pm"] Cons.prems(1,2) by simp
    qed
  qed simp
  then show ?thesis
    using v(1) assms(2,4) keys by (simp add: vals(2))
qed

text \<open>C4: The choice of the distribution does not see the \<open>top_p\<close> of a new sequence.  In a batch of new sequences, one of which asks for
  a \<open>top_p\<close> other than 1, the compact distribution, which has no \<open>top_p\<close>, is chosen with the parameters of the registration; with the
  parameters the deferred fill writes in the same step, so from the second step on, it is not.\<close>

theorem first_step_ignores_top_p:
  assumes "register md xs s = (s1, Inr pending)" "fill_params md V pending s1 = (s2, Inr ())"
    and "distinct (batch_sids xs)" "\<forall>sid \<in> set (batch_sids xs). map_of (sm_params s) sid = None"
    and "md_top_p md = Some ps" "(i, sid, rid) \<in> set xs" "\<not> is_one (ps ! i)"
  shows "can_use_compact_cdf True s1 (batch_sids xs) \<and> \<not> can_use_compact_cdf True s2 (batch_sids xs)"
proof -
  note reg = register_fresh [OF assms(1,3,4)]
  have sid: "sid \<in> set (batch_sids xs)"
    using assms(6) by (force simp: batch_sids_def)
  have fresh: "\<exists>q. map_of (sm_params s1) k = Some q \<and> sp_top_p q = None \<and> sp_top_k q = None \<and> sp_repetition_penalty q = None"
    if "k \<in> set (batch_sids xs)" for k
    using reg that by simp
  then have "can_use_compact_cdf True s1 (batch_sids xs)"
    by (fastforce simp: can_use_compact_cdf_def list_all_iff)
  moreover have "\<exists>q. map_of (sm_params s2) sid = Some q \<and> sp_top_p q = Some (ps ! i)"
  proof (rule fill_sets_top_p [OF assms(2) _ _ _ assms(5)])
    have "map fst pending = batch_sids xs"
      using reg by (simp add: batch_sids_def case_prod_beta comp_def)
    then show "distinct (map fst pending)"
      using assms(3) by simp
    show "(sid, i) \<in> set pending"
      using reg assms(6) by force
    show "map_of (sm_params s1) sid \<noteq> None"
      using fresh [OF sid] by auto
  qed
  then have "\<not> can_use_compact_cdf True s2 (batch_sids xs)"
    using sid assms(7) by (auto simp: can_use_compact_cdf_def list_all_iff intro!: bexI [of _ sid])
  ultimately show ?thesis ..
qed

definition demo_nucleus :: metadata where
  "demo_nucleus = (bi_meta demo_batch)\<lparr>md_top_p := Some [Fin 1 (- 1)]\<rparr>"

theorem first_step_ignores_top_p_witness:
  "can_use_compact_cdf True (fst (register demo_nucleus [(0, 0, ''r'')] (sampler_init 256 2 99 True 0))) (batch_sids [(0, 0, ''r'')]) \<and>
   \<not> can_use_compact_cdf True (fst (fill_params demo_nucleus 70 [(0, 0)] (fst (register demo_nucleus [(0, 0, ''r'')] (sampler_init 256 2 99 True 0)))))
     (batch_sids [(0, 0, ''r'')])"
proof (rule first_step_ignores_top_p)
  let ?s = "sampler_init 256 2 99 True 0"
  have given: "job_of_payload (demo_pow 7) = Inr demo_job" "pow_given (demo_pow 7)"
    by (simp_all add: job_of_payload_def demo_pow_def demo_job_def key_def pow_given_def payload.defs)
  have x: "extra_at demo_nucleus 0 = Some \<lparr>ea_req_id = Some ''r'', ea_pad_id = Some 0, ea_completion_id = None,
      ea_request_item_id = None, ea_pow = Some (demo_pow 7)\<rparr>"
    by (simp add: demo_nucleus_def demo_batch_def extra_at_def)
  show "register demo_nucleus [(0, 0, ''r'')] ?s = (fst (register demo_nucleus [(0, 0, ''r'')] ?s), Inr [(0, 0)])"
    by (simp add: x given new_params_def Let_def sampler_init_def)
  show "fill_params demo_nucleus 70 [(0, 0)] (fst (register demo_nucleus [(0, 0, ''r'')] ?s)) =
      (fst (fill_params demo_nucleus 70 [(0, 0)] (fst (register demo_nucleus [(0, 0, ''r'')] ?s))), Inr ())"
    by (simp add: fill_params_def demo_nucleus_def demo_batch_def pick_def)
  show "md_top_p demo_nucleus = Some [Fin 1 (- 1)]"
    by (simp add: demo_nucleus_def)
  show "\<not> is_one ([Fin 1 (- 1)] ! 0)"
    by (simp add: is_one_def)
qed (simp_all add: batch_sids_def sampler_init_def)

end
