(* ===== verification/SampleCall.thy ===== *)
theory SampleCall
  imports Forward
begin

text \<open>
  \<^verbatim>\<open>Sampler.sample\<close> (\<^verbatim>\<open>overlay/vllm/v1/sample/sampler.py\<close>): greedy rows, the temperature and the choice between the
  sampler of the miner and the ordinary one.  The logits processors and the ordinary sampler are parameters, the
  log-probabilities for the caller are left out.
\<close>

section \<open>The parts of a call\<close>

text \<open>\<^verbatim>\<open>1e-5\<close> in the single precision of the temperatures.\<close>

definition SAMPLING_EPS :: f64 where "SAMPLING_EPS = Fin 10995116 (- 40)"

definition is_greedy :: "f64 \<Rightarrow> bool" where
  "is_greedy t = f64_lt t SAMPLING_EPS"

definition has_pow :: "metadata \<Rightarrow> bool" where
  "has_pow md = (case md_extra_args md of
      None \<Rightarrow> False
    | Some ea \<Rightarrow> list_ex (\<lambda>(i, x). case ea_pow x of None \<Rightarrow> False | Some p \<Rightarrow> pow_given p) ea)"

text \<open>\<^verbatim>\<open>logits.argmax(dim=-1)\<close>, the first place of the largest logit of a row.\<close>

definition greedy_sample :: "logit list list \<Rightarrow> int list" where
  "greedy_sample logits = map (\<lambda>row. int (argmax row)) logits"

definition apply_temperature :: "(f64 \<Rightarrow> logit \<Rightarrow> logit) \<Rightarrow> f64 list \<Rightarrow> bool \<Rightarrow> logit list list \<Rightarrow> logit list list res" where
  "apply_temperature scale temps all_random logits =
     (let temps = (if length temps = 1 then replicate (length logits) (hd temps) else temps)
      in if length temps \<noteq> length logits then Inl RuntimeError
         else Inr (map2 (\<lambda>t row. map (scale (if \<not> all_random \<and> is_greedy t then Fin 1 0 else t)) row) temps logits))"

text \<open>The rows below the threshold take the greedy token.\<close>

definition take_greedy :: "f64 list \<Rightarrow> int list \<Rightarrow> int list \<Rightarrow> int list" where
  "take_greedy temps greedy random =
     map2 (\<lambda>t (g, r). if is_greedy t then g else r) (if length temps = 1 then replicate (length greedy) (hd temps) else temps)
       (zip greedy random)"

section \<open>The call\<close>

record sample_in =
  sa_logits :: "logit list list"
  sa_meta :: metadata
  sa_all_greedy :: bool
  sa_all_random :: bool

record outside =
  os_divide :: "f64 \<Rightarrow> logit \<Rightarrow> logit"
  os_process :: "logit list list \<Rightarrow> logit list list"
  os_sampler :: "logit list list \<Rightarrow> metadata \<Rightarrow> int list"

text \<open>The batch the sampler of the miner gets: the scaled logits and the ones before.\<close>

definition pow_batch :: "outside \<Rightarrow> sample_in \<Rightarrow> batch_in res" where
  "pow_batch os si =
     rbind (apply_temperature (os_divide os) (md_temperature (sa_meta si)) (sa_all_random si) (sa_logits si)) (\<lambda>scaled.
       Inr \<lparr>bi_logits = os_process os scaled, bi_pre_temp = Some (sa_logits si), bi_meta = sa_meta si\<rparr>)"

definition sample_call ::
    "settings \<Rightarrow> outside \<Rightarrow> bool \<Rightarrow> int \<Rightarrow> f64 \<Rightarrow> sample_in \<Rightarrow> (miner, int list \<times> cpp_call list) run" where
  "sample_call fs os available now stamp si =
     (let md = sa_meta si; greedy = greedy_sample (sa_logits si)
      in if sa_all_greedy si \<and> sa_all_random si then run_get (\<lambda>_. Inl AssertionError)
         else if sa_all_greedy si then run_get (\<lambda>_. Inr (greedy, []))
         else if has_pow md \<and> \<not> available then run_get (\<lambda>_. Inl RuntimeError)
         else run_bind (run_get (\<lambda>_. pow_batch os si)) (\<lambda>bi.
              run_bind (if has_pow md then pow_forward fs now stamp bi
                        else run_get (\<lambda>_. Inr (os_sampler os (bi_logits bi) md, []))) (\<lambda>(random, calls).
              run_get (\<lambda>_. Inr (if sa_all_random si then random else take_greedy (md_temperature md) greedy random, calls)))))"

end
