(* ===== verification/SampleFacts.thy ===== *)
theory SampleFacts
  imports SampleCall MiningFacts
begin

text \<open>
  A call of \<^verbatim>\<open>Sampler.sample\<close> on a batch of mining requests: it takes the path of the miner, and what it
  returns is compared with what the miner has recorded.
\<close>

section \<open>Facts\<close>

text \<open>A batch of mining requests carries jobs, so the call takes the path of the miner.\<close>

lemma carried_pow:
  assumes "requests_ok N md B" "0 < B"
  shows "has_pow md"
proof -
  have "carries_job md 0"
    using assms by (simp add: requests_ok_def list_all_iff)
  then obtain ea x p where "md_extra_args md = Some ea" "map_of ea 0 = Some x" "ea_pow x = Some p" "pow_given p"
    by (auto simp: carries_job_def extra_at_def bind_eq_Some_conv split: option.splits)
  moreover from this have "(0, x) \<in> set ea"
    by (auto dest: map_of_SomeD)
  ultimately show ?thesis
    by (force simp: has_pow_def list_ex_iff)
qed

lemma sample_call_pow:
  assumes "has_pow (sa_meta si)" "\<not> sa_all_greedy si" "pow_batch os si = Inr bi" "forward_step fs now bi mn = (mn', Inr (sids, tokens))"
  shows "sample_call fs os True now stamp si mn =
    run_bind (forward_finish (fs_cpp fs) (fs_env fs) stamp now sids tokens)
      (\<lambda>calls. run_get (\<lambda>_. Inr (if sa_all_random si then tokens
          else take_greedy (md_temperature (sa_meta si)) (greedy_sample (sa_logits si)) tokens, calls))) mn'"
  using assms
  by (simp add: sample_call_def Let_def run_bind_def run_get_def pow_forward_def case_prod_beta split: sum.split prod.split)

lemma pow_batch_parts:
  assumes "pow_batch os si = Inr bi"
  shows "bi_meta bi = sa_meta si" "bi_pre_temp bi = Some (sa_logits si)"
    "length (md_temperature (sa_meta si)) = 1 \<or> length (md_temperature (sa_meta si)) = length (sa_logits si)"
  using assms by (auto simp: pow_batch_def apply_temperature_def Let_def rbind_Inr_iff split: if_splits)
lemma pow_batch_sizes:
  assumes "pow_batch os si = Inr bi" "batch_ok N V bi"
  shows "length (sa_logits si) = length (bi_logits bi)" "length (md_temperature (sa_meta si)) = length (bi_logits bi)"
    "has_pow (sa_meta si)"
proof -
  note parts = pow_batch_parts [OF assms(1)]
  have ok: "requests_ok N (bi_meta bi) (length (bi_logits bi))" "logits_ok V bi"
    using assms(2) by (simp_all add: batch_ok_def)
  then show "length (sa_logits si) = length (bi_logits bi)"
    by (auto simp: logits_ok_def Let_def batch_logits_def fix_logits_def parts(2) split: if_splits)
  then show "length (md_temperature (sa_meta si)) = length (bi_logits bi)"
    using ok(2) parts(1,3) by (cases "bi_logits bi") (auto simp: logits_ok_def Let_def split: prod.splits)
  show "has_pow (sa_meta si)"
    using carried_pow [OF ok(1)] ok(2) parts(1) by (auto simp: logits_ok_def Let_def split: prod.splits)
qed

lemma take_greedy_nth:
  assumes "length temps = n" "length greedy = n" "length random = n"
  shows "take_greedy temps greedy random = map (\<lambda>i. if is_greedy (temps ! i) then greedy ! i else random ! i) [0..<n]"
proof -
  have "(if length temps = 1 then replicate (length greedy) (hd temps) else temps) = temps"
    using assms by (cases temps) auto
  then show ?thesis
    using assms by (intro nth_equalityI) (simp_all add: take_greedy_def)
qed

text \<open>C3: What a call returns and what the proof records, for a mining batch in a state that batches of mining requests lead to, unless
  the whole batch is greedy.  The tokens recorded are drawn ones and replay.  The call returns them, except that a row whose
  temperature is below the threshold gets the largest of its logits instead, if not all rows are random: then the proof, the archive
  and the later step messages hold a token that was never emitted.\<close>

theorem returned_and_recorded_tokens:
  assumes "settings_ok fs" "miner_ok prec N mn" "mines fs N mn k mn1" "N + k < 2 ^ 32"
    and "pow_batch os si = Inr bi" "batch_ok (N + k) V bi" "length (bi_logits bi) \<le> max_rows (sm_rows (mn_sampler mn))" "\<not> sa_all_greedy si"
  shows "\<exists>mn2 sids recorded. length recorded = length (sa_logits si) \<and> list_all2 (token_replays prec (mn_sampler mn2)) sids recorded \<and>
    sample_call fs os True now stamp si mn1 =
      run_bind (forward_finish (fs_cpp fs) (fs_env fs) stamp now sids recorded) (\<lambda>calls. run_get (\<lambda>_. Inr
        (map (\<lambda>i. if \<not> sa_all_random si \<and> is_greedy (md_temperature (sa_meta si) ! i) then int (argmax (sa_logits si ! i)) else recorded ! i)
           [0..<length (sa_logits si)], calls))) mn2"
proof -
  obtain mn2 sids recorded where step: "forward_step fs now bi mn1 = (mn2, Inr (sids, recorded))" "length recorded = length (bi_logits bi)"
    "list_all2 (token_replays prec (mn_sampler mn2)) sids recorded"
    using mining_step [OF assms(1-3,6,7,4), of now] by blast
  note sizes = pow_batch_sizes [OF assms(5,6)]
  have "map (\<lambda>i. recorded ! i) [0..<length (sa_logits si)] = recorded"
    using map_nth [of recorded] step(2) sizes(1) by simp
  moreover have "take_greedy (md_temperature (sa_meta si)) (greedy_sample (sa_logits si)) recorded =
      map (\<lambda>i. if is_greedy (md_temperature (sa_meta si) ! i) then int (argmax (sa_logits si ! i)) else recorded ! i) [0..<length (sa_logits si)]"
    using step(2) sizes by (subst take_greedy_nth) (auto simp: greedy_sample_def)
  ultimately have "sample_call fs os True now stamp si mn1 =
      run_bind (forward_finish (fs_cpp fs) (fs_env fs) stamp now sids recorded) (\<lambda>calls. run_get (\<lambda>_. Inr
        (map (\<lambda>i. if \<not> sa_all_random si \<and> is_greedy (md_temperature (sa_meta si) ! i) then int (argmax (sa_logits si ! i)) else recorded ! i)
           [0..<length (sa_logits si)], calls))) mn2"
    unfolding sample_call_pow [OF sizes(3) assms(8,5) step(1)] by (cases "sa_all_random si") simp_all
  then show ?thesis
    using step(2,3) sizes(1) by (metis (no_types, lifting))
qed


section \<open>Instance\<close>

definition demo_outside :: outside where
  "demo_outside = \<lparr>os_divide = (\<lambda>_ x. x), os_process = id, os_sampler = (\<lambda>_ _. [])\<rparr>"

definition demo_sample :: sample_in where
  "demo_sample = \<lparr>sa_logits = [replicate 70 (Val 0)], sa_meta = (bi_meta demo_batch)\<lparr>md_temperature := [Fin 0 0]\<rparr>,
     sa_all_greedy = False, sa_all_random = False\<rparr>"

definition demo_cold :: batch_in where
  "demo_cold = demo_batch\<lparr>bi_pre_temp := Some [replicate 70 (Val 0)], bi_meta := (bi_meta demo_batch)\<lparr>md_temperature := [Fin 0 0]\<rparr>\<rparr>"

lemma demo_cold_ok: "pow_batch demo_outside demo_sample = Inr demo_cold" "batch_ok 3 70 demo_cold"
proof -
  show "pow_batch demo_outside demo_sample = Inr demo_cold"
    by (simp add: pow_batch_def apply_temperature_def demo_sample_def demo_outside_def demo_cold_def demo_batch_def)
  have "batch_ok 3 70 demo_cold = batch_ok 3 70 demo_batch"
    by (simp add: batch_ok_def requests_ok_def logits_ok_def demo_cold_def demo_batch_def batch_logits_def
      carries_job_def extra_at_def stable_req_ids_def safe_prompt_tokens_def)
  then show "batch_ok 3 70 demo_cold"
    using demo_batch_ok by simp
qed

lemma demo_greedy: "is_greedy (Fin 0 0)" "argmax (replicate 70 (Val 0)) = 0"
  by (simp_all add: is_greedy_def SAMPLING_EPS_def f64_lt_def) (simp add: argmax_def)

theorem returned_and_recorded_tokens_witness:
  "\<exists>mn2 sids recorded. length recorded = 1 \<and> list_all2 (token_replays ''fp16'' (mn_sampler mn2)) sids recorded \<and>
    sample_call demo_settings demo_outside True 0 (Fin 0 0) demo_sample demo_start =
      run_bind (forward_finish False demo_env (Fin 0 0) 0 sids recorded) (\<lambda>calls. run_get (\<lambda>_. Inr ([0], calls))) mn2"
proof -
  have ok: "batch_ok (3 + 0) 70 demo_cold" "length (bi_logits demo_cold) \<le> max_rows (sm_rows (mn_sampler demo_start))" "\<not> sa_all_greedy demo_sample"
    using demo_cold_ok(2) by (simp_all add: demo_start_ok(2)) (simp_all add: demo_cold_def demo_batch_def demo_sample_def)
  have "(3 :: nat) + 0 < 2 ^ 32"
    by simp
  then have "\<exists>mn2 sids recorded. length recorded = length (sa_logits demo_sample) \<and> list_all2 (token_replays ''fp16'' (mn_sampler mn2)) sids recorded \<and>
    sample_call demo_settings demo_outside True 0 (Fin 0 0) demo_sample demo_start =
      run_bind (forward_finish (fs_cpp demo_settings) (fs_env demo_settings) (Fin 0 0) 0 sids recorded) (\<lambda>calls. run_get (\<lambda>_. Inr
        (map (\<lambda>i. if \<not> sa_all_random demo_sample \<and> is_greedy (md_temperature (sa_meta demo_sample) ! i)
             then int (argmax (sa_logits demo_sample ! i)) else recorded ! i)
           [0..<length (sa_logits demo_sample)], calls))) mn2"
    by (rule returned_and_recorded_tokens [OF demo_settings_ok demo_start_ok(1) mines_start _ demo_cold_ok(1) ok])
  then show ?thesis
    by (simp add: demo_sample_def demo_greedy) (simp add: demo_settings_def)
qed
end
