(* ===== verification/Spec2Isabelle.thy ===== *)
theory Spec2Isabelle
  imports Prelude ByteCodec Hex Uint256 Sha256 TargetCheck Doubles BCred PowV3 RowManager RingBuffers PowHasher Sampler
    SamplerFacts PyText Admission AdmissionFacts Json Bridge BridgeFacts JsonText JsonFacts Egress EgressFacts Proofs
    ProofsFacts Masking MaskingFacts Forward Replay ForwardFacts MiningFacts SampleCall SampleFacts
begin

text \<open>
  A model of the Python side of a proof-of-work miner that mines by running a language model.  Every
  token the model draws is drawn with a number derived from a SHA-256 digest of the block, a verifiable
  delay function and the previous tokens; the digest at the end of a window of 256 tokens is compared
  with a target.  The sources are under \<^verbatim>\<open>src/vllm-miner/\<close>; \<open>sampling\<close> below is
  \<^verbatim>\<open>overlay/vllm/sampling\<close>.

  The parts and how they interact.  The stratum bridge (\<^verbatim>\<open>bridge/vllm-stratum-bridge.py\<close>) takes jobs from a pool and
  posts prompts with the job to the local worker.  In the worker, the sampler
  (\<^verbatim>\<open>overlay/vllm/v1/sample/ops/topk_topp_sampler.py\<close> with \<^verbatim>\<open>common_sampler_helper.py\<close> in \<open>sampling\<close>) gives every sequence a row
  of the step buffers, draws its tokens with the hasher and detects finished windows; before a window
  it may grind an admission nonce.  A finished window is checked against the block and the share
  target and becomes a proof, which the egress writer sends to the Core Node or a collector, and the bridge
  drains and submits.

  Theories and what they model.

  Prelude: errors, results, Python list operations, actions that mutate an object, the locale of
  sliding windows.  ByteCodec, Hex, PyText, Doubles, Json: bytes, hexadecimal text, \<^verbatim>\<open>strip\<close>,
  \<^verbatim>\<open>int\<close>, decimal text, IEEE doubles as exact dyadic numbers, JSON values.

  Uint256 (\<^verbatim>\<open>uint256_arithmetics.py\<close>): compact targets and the block target rule; the lemmas bound the loss
  of packing and show when each error is raised.
  TargetCheck (\<^verbatim>\<open>pow_utils.py\<close>): the byte-wise comparison with a target is the integer comparison.
  Sha256 (\<^verbatim>\<open>pow_utils.py\<close>): the GPU kernel on 32-bit lanes, any launch order, equals FIPS 180-4.
  BCred, PowV3 (\<^verbatim>\<open>pow_v3.py\<close>): the credit of a window and its tier, the step message, the commitments,
  the admission puzzle; the lemmas bound the credit by the entropy and show the layouts injective.
  JsonText (\<^verbatim>\<open>pow_v3.py\<close>, section 3): JSON text and the carrier of the admission nonce; reading inverts
  writing.

  RowManager, RingBuffers, PowHasher (classes of \<^verbatim>\<open>pow_utils.py\<close>): rows are exclusive and stable; the buffers read
  out the recent history and their host mirrors agree; the batched draw is the draw of one row at a
  time.  The records have the attributes of the classes; a tensor is a list indexed by row.
  Sampler, SamplerFacts (\<^verbatim>\<open>common_sampler_helper.py\<close>, \<^verbatim>\<open>topk_topp_sampler.py\<close>): the record \<open>sampler\<close> holds the buffers, the rows,
  the caches and the parameters of the sequences; the lemmas treat allocation with eviction, context
  windows, deferred bookkeeping and the detection of finished windows.
  Admission, AdmissionFacts (\<^verbatim>\<open>common_sampler_helper.py\<close>): blocking and background grinding agree, and the nonce
  ground is the nonce hashed.

  Masking, MaskingFacts (\<^verbatim>\<open>pow_utils.py\<close>, \<^verbatim>\<open>topk_topp_sampler.py\<close>): from logits to the support of a draw.  The top-k masks and the
  nucleus, the distribution over the top 50, and the snapshot of a step with its statistics; the lemmas compare each fast path
  with its reference and show that what can be drawn is in the snapshot.
  Forward (\<^verbatim>\<open>_pow_forward\<close> in \<^verbatim>\<open>topk_topp_sampler.py\<close>): one step of a batch as the code composes it from the other theories,
  \<open>forward_step\<close> up to the recorded slots and \<open>pow_forward\<close> to the end.  A step that may raise is a \<open>run\<close>.
  Replay, ForwardFacts, MiningFacts: the invariant \<open>miner_ok\<close> that ties each row to the job, the archive and the slots of its
  sequence, kept by every part of a step; on batches of mining requests a step returns, and every token and every finished window replays
  from the digests (\<open>mines\<close> is the run over such batches).
  SampleCall, SampleFacts (\<^verbatim>\<open>overlay/vllm/v1/sample/sampler.py\<close>): the call around that step, with temperature, greedy rows and the
  choice of the sampler; the lemmas compare the tokens returned with the tokens recorded.

  Proofs, ProofsFacts (\<^verbatim>\<open>pow_utils.py\<close>, \<^verbatim>\<open>common_sampler_helper.py\<close>): the finished window, the digest of its last step, the proof
  as a dictionary, its table and its submission, in Python and as the call of the C++ processor; the lemmas say what is submitted,
  with which hash, and where the two branches differ.
  Egress, EgressFacts (\<^verbatim>\<open>zmq_pow_writer.py\<close>): configuration, queue, thread, serialisation and submitter; proofs are
  dictionaries in a store since the code passes them by reference.  The lemmas account for every
  response and say what either destination can receive under any interleaving.
  Bridge, BridgeFacts (\<^verbatim>\<open>vllm-stratum-bridge.py\<close>): messages, jobs, prompts and submissions; \<open>br_step\<close> interleaves the
  connection thread and the drain thread at the points where the code takes the lock.

  Conventions.  Code that may raise returns \<open>Inl\<close> of an error; a method that mutates its object is an
  action, which also keeps what was written before the exception.  Python integers are \<open>int\<close>, machine
  integers words, dictionaries maps or association lists in insertion order, strings lists of one-byte
  characters.

  Arguments that stand for code outside: \<^verbatim>\<open>torch.topk\<close> (\<open>topk_law\<close>: the largest values in order, ties in any order), softmax,
  logsumexp, means and the addition of the cumulative sum (\<open>softmax_law\<close>: masked logits have no mass, adding zero changes nothing),
  the logits processors, the division by the temperature and the ordinary sampler, Argon2id and the native grind loop, the table of thresholds
  (any table of the documented shape), base-2 logarithm and addition of doubles, the text of a double, conversion of
  values to floats, the flatbuffers reader and builder, success or failure of each send, the time,
  and which background grinds have finished.

  Bounds and fuel.  The recursion limit of the JSON reader is an argument; the theorems require it to
  reach the nesting of the value.  A run over batches bounds the archives by \<open>N\<close>, the longest prompt plus the number of
  steps, which has to stay within 32 bits because the admission puzzle commits to lengths of that width.  The loops over array elements and members take the length of the text as
  fuel, which suffices because each turn consumes a character.  Everything else is structural
  recursion or recursion on a measure.

  Not modelled.  The generated threshold table and the generated flatbuffers accessors; the patched
  files of vLLM (model runner, input batch, protocols and serving layers), which mostly reproduce the
  upstream project; rounding and NaN inside softmax and sums, and the half precision of stored logits; batches that mix
  mining requests with others are in the model of the step but not in the theorems about runs; sockets, HTTP, files and log lines; the C++ and CUDA miner, tools, tests
  and documents.  The manifest of components lists them one by one.
\<close>

end
